(* ===== verification/Prelude.thy ===== *)
theory Prelude
  imports Main
begin

text \<open>
  Shared vocabulary of the development: results that may carry an error, the
  row tables of a database session, the Python string helpers and the decimal
  rendering of integers.  The collections declared here are filled by the
  component theories, so that a property is usually one call of the simplifier.
\<close>

named_theorems monad_simps \<open>inversion rules for computations that may raise\<close>
named_theorems table_simps \<open>row tables: lookup and update\<close>

subsection \<open>Results and computations that raise\<close>

text \<open>A Python call either raises (\<open>Inl\<close>) or returns (\<open>Inr\<close>).\<close>

type_synonym ('e, 'a) result = "'e + 'a"

definition bindE :: "'e + 'a \<Rightarrow> ('a \<Rightarrow> 'e + 'b) \<Rightarrow> 'e + 'b" where
  "bindE m f = (case m of Inl e \<Rightarrow> Inl e | Inr x \<Rightarrow> f x)"

definition mapErr :: "('e \<Rightarrow> 'f) \<Rightarrow> 'e + 'a \<Rightarrow> 'f + 'a" where
  "mapErr g m = (case m of Inl e \<Rightarrow> Inl (g e) | Inr x \<Rightarrow> Inr x)"

lemma bindE_simps [simp]:
  "bindE (Inl e) f = Inl e"
  "bindE (Inr x) f = f x"
  by (simp_all add: bindE_def)

lemma bindE_eq_Inr [monad_simps]:
  "bindE m f = Inr y \<longleftrightarrow> (\<exists>x. m = Inr x \<and> f x = Inr y)"
  by (cases m) auto

lemma bindE_eq_Inl [monad_simps]:
  "bindE m f = Inl e \<longleftrightarrow> m = Inl e \<or> (\<exists>x. m = Inr x \<and> f x = Inl e)"
  by (cases m) auto

lemma bindE_InrE:
  assumes "bindE m f = Inr y"
  obtains x where "m = Inr x" and "f x = Inr y"
  using assms by (auto simp: bindE_eq_Inr)

lemma mapErr_simps [simp]:
  "mapErr g (Inl e) = Inl (g e)"
  "mapErr g (Inr x) = Inr x"
  by (simp_all add: mapErr_def)

lemma mapErr_eq_Inr [monad_simps]: "mapErr g m = Inr x \<longleftrightarrow> m = Inr x"
  by (cases m) auto

lemma mapErr_eq_Inl [monad_simps]: "mapErr g m = Inl e \<longleftrightarrow> (\<exists>e'. m = Inl e' \<and> e = g e')"
  by (cases m) auto

subsection \<open>Row tables\<close>

text \<open>
  A table is the list of its rows in insertion order; a query filters it and
  \<open>first\<close> takes the head.  An update of one loaded row rewrites the rows that
  carry its primary key.
\<close>

definition upd_where :: "('r \<Rightarrow> bool) \<Rightarrow> ('r \<Rightarrow> 'r) \<Rightarrow> 'r list \<Rightarrow> 'r list" where
  "upd_where P f rows = map (\<lambda>r. if P r then f r else r) rows"

lemma upd_where_Nil [simp]: "upd_where P f [] = []"
  by (simp add: upd_where_def)

lemma upd_where_Cons [simp]:
  "upd_where P f (r # rs) = (if P r then f r else r) # upd_where P f rs"
  by (simp add: upd_where_def)

lemma length_upd_where [simp]: "length (upd_where P f rows) = length rows"
  by (simp add: upd_where_def)

lemma set_upd_where: "set (upd_where P f rows) = (\<lambda>r. if P r then f r else r) ` set rows"
  by (simp add: upd_where_def)

lemma map_upd_where:
  assumes "\<And>r. P r \<Longrightarrow> k (f r) = k r"
  shows "map k (upd_where P f rows) = map k rows"
  using assms by (induction rows) auto

lemma upd_where_idem:
  assumes "\<And>r. r \<in> set rows \<Longrightarrow> P r \<Longrightarrow> f r = r"
  shows "upd_where P f rows = rows"
  using assms by (induction rows) auto

lemma find_upd_where_same:
  assumes "\<And>r. Q (f r) = Q r" and "\<And>r. Q r \<Longrightarrow> P r"
  shows "List.find Q (upd_where P f rows) = map_option f (List.find Q rows)"
  using assms by (induction rows) auto

lemma find_upd_where_other:
  assumes "\<And>r. P r \<Longrightarrow> \<not> Q r" and "\<And>r. P r \<Longrightarrow> \<not> Q (f r)"
  shows "List.find Q (upd_where P f rows) = List.find Q rows"
  using assms by (induction rows) auto

lemma find_SomeD: "List.find P rows = Some r \<Longrightarrow> P r \<and> r \<in> set rows"
  by (induction rows) (auto split: if_splits)

lemma find_None_iff_all: "List.find P rows = None \<longleftrightarrow> (\<forall>r\<in>set rows. \<not> P r)"
  by (induction rows) auto

lemma find_append:
  "List.find P (xs @ ys) = (case List.find P xs of None \<Rightarrow> List.find P ys | Some r \<Rightarrow> Some r)"
  by (induction xs) auto

lemma find_unique:
  assumes "distinct (map k rows)" and "r \<in> set rows" and "k r = v"
  shows "List.find (\<lambda>x. k x = v) rows = Some r"
  using assms by (induction rows) auto

lemmas find_rules = find_append find_upd_where_same find_upd_where_other find_None_iff_all

subsection \<open>Python strings\<close>

text \<open>
  Strings are lists of characters; the code under study keeps them ASCII.
  \<open>py_or\<close> is Python's \<open>a or b\<close> on an optional string: the empty string and
  \<open>None\<close> are both false.
\<close>

definition is_space :: "char \<Rightarrow> bool" where
  "is_space c = (let n = of_char c :: nat in n = 32 \<or> (9 \<le> n \<and> n \<le> 13) \<or> (28 \<le> n \<and> n \<le> 31))"

definition strip :: "string \<Rightarrow> string" where
  "strip s = rev (dropWhile is_space (rev (dropWhile is_space s)))"

definition lower_char :: "char \<Rightarrow> char" where
  "lower_char c = (let n = of_char c :: nat in if 65 \<le> n \<and> n \<le> 90 then char_of (n + 32) else c)"

definition lower :: "string \<Rightarrow> string" where
  "lower s = map lower_char s"

definition upper_char :: "char \<Rightarrow> char" where
  "upper_char c = (let n = of_char c :: nat in if 97 \<le> n \<and> n \<le> 122 then char_of (n - 32) else c)"

definition upper :: "string \<Rightarrow> string" where
  "upper s = map upper_char s"

definition truthy :: "string option \<Rightarrow> bool" where
  "truthy x = (case x of None \<Rightarrow> False | Some s \<Rightarrow> s \<noteq> [])"

definition py_or :: "string option \<Rightarrow> string \<Rightarrow> string" where
  "py_or x d = (case x of None \<Rightarrow> d | Some s \<Rightarrow> if s = [] then d else s)"

definition opt_or :: "'a option \<Rightarrow> 'a option \<Rightarrow> 'a option" where
  "opt_or x y = (case x of None \<Rightarrow> y | Some v \<Rightarrow> Some v)"

lemma truthy_simps [simp]:
  "truthy None = False"
  "truthy (Some s) = (s \<noteq> [])"
  by (simp_all add: truthy_def)

lemma truthyD: "truthy x \<Longrightarrow> \<exists>s. x = Some s \<and> s \<noteq> []"
  by (cases x) auto

lemma py_or_truthy: "truthy x \<Longrightarrow> Some (py_or x d) = x"
  by (cases x) (auto simp: py_or_def)

lemma py_or_not_truthy: "\<not> truthy x \<Longrightarrow> py_or x d = d"
  by (cases x) (auto simp: py_or_def)

subsection \<open>Decimal digits\<close>

definition digit_char :: "nat \<Rightarrow> char" where
  "digit_char d = char_of (48 + d)"

definition is_digit :: "char \<Rightarrow> bool" where
  "is_digit c = (let n = of_char c :: nat in 48 \<le> n \<and> n \<le> 57)"

definition char_digit :: "char \<Rightarrow> nat" where
  "char_digit c = of_char c - 48"

fun nat_digits :: "nat \<Rightarrow> string" where
  "nat_digits n = (if n < 10 then [digit_char n] else nat_digits (n div 10) @ [digit_char (n mod 10)])"

declare nat_digits.simps [simp del]

definition digits_val :: "string \<Rightarrow> nat" where
  "digits_val s = foldl (\<lambda>a c. 10 * a + char_digit c) 0 s"

definition int_str :: "int \<Rightarrow> string" where
  "int_str i = (if i < 0 then CHR ''-'' # nat_digits (nat (- i)) else nat_digits (nat i))"

lemma of_char_digit_char: "d < 10 \<Longrightarrow> (of_char (digit_char d) :: nat) = 48 + d"
  by (simp add: digit_char_def)

lemma is_digit_digit_char [simp]: "d < 10 \<Longrightarrow> is_digit (digit_char d)"
  by (simp add: is_digit_def of_char_digit_char)

lemma char_digit_digit_char [simp]: "d < 10 \<Longrightarrow> char_digit (digit_char d) = d"
  by (simp add: char_digit_def of_char_digit_char)

lemma digits_val_Nil [simp]: "digits_val [] = 0"
  by (simp add: digits_val_def)

lemma digits_val_snoc: "digits_val (s @ [c]) = 10 * digits_val s + char_digit c"
  by (simp add: digits_val_def)

lemma digits_val_append: "digits_val (s @ t) = digits_val s * 10 ^ length t + digits_val t"
proof (induction t rule: rev_induct)
  case Nil
  show ?case by simp
next
  case (snoc c t)
  have "digits_val (s @ t @ [c]) = 10 * digits_val (s @ t) + char_digit c"
    by (simp add: digits_val_snoc flip: append_assoc)
  with snoc show ?case by (simp add: digits_val_snoc algebra_simps)
qed

lemma digits_val_replicate0 [simp]: "digits_val (replicate n (digit_char 0)) = 0"
proof (induction n)
  case (Suc n)
  then show ?case
    by (simp add: digits_val_append [of "[digit_char 0]", simplified] digits_val_def)
qed simp

lemma nat_digits_not_Nil [simp]: "nat_digits n \<noteq> []"
  by (subst nat_digits.simps) simp

lemma nat_digits_all_digits: "\<forall>c\<in>set (nat_digits n). is_digit c"
proof (induction n rule: nat_digits.induct)
  case (1 n)
  then show ?case by (subst nat_digits.simps) auto
qed

lemma digits_val_nat_digits [simp]: "digits_val (nat_digits n) = n"
proof (induction n rule: nat_digits.induct)
  case (1 n)
  then show ?case
    by (subst nat_digits.simps) (auto simp: digits_val_snoc digits_val_def)
qed

lemma nat_digits_inj: "nat_digits m = nat_digits n \<Longrightarrow> m = n"
  by (metis digits_val_nat_digits)

lemma not_digit_special [simp]:
  "\<not> is_digit (CHR ''-'')" "\<not> is_digit (CHR ''+'')" "\<not> is_digit (CHR ''.'')"
  "\<not> is_digit (CHR ''E'')" "\<not> is_digit (CHR ''e'')" "\<not> is_digit (CHR ''_'')"
  "\<not> is_digit (CHR '' '')" "\<not> is_digit (CHR '':'')"
  by (simp_all add: is_digit_def)

lemma is_digit_not_space: "is_digit c \<Longrightarrow> \<not> is_space c"
  by (auto simp: is_digit_def is_space_def Let_def)

lemma int_str_inj: "int_str i = int_str j \<Longrightarrow> i = j"
proof -
  have neg: "CHR ''-'' # s \<noteq> nat_digits n" for s n
    using nat_digits_all_digits [of n] by (metis list.set_intros(1) not_digit_special(1))
  assume "int_str i = int_str j"
  then show "i = j"
    using neg neg [symmetric] by (auto simp: int_str_def dest!: nat_digits_inj split: if_splits)
qed

text \<open>\<open>int(s)\<close> of a text of digits with an optional sign.\<close>

definition py_int :: "string \<Rightarrow> int option" where
  "py_int s =
     (let t = strip s;
          (neg, d) = (case t of [] \<Rightarrow> (False, []) | c # r \<Rightarrow>
             if c = CHR ''-'' then (True, r) else if c = CHR ''+'' then (False, r) else (False, t))
      in if d \<noteq> [] \<and> list_all is_digit d
         then Some (if neg then - int (digits_val d) else int (digits_val d)) else None)"

text \<open>The next primary key of a table from which no row is deleted.\<close>

definition next_id :: "int list \<Rightarrow> int" where
  "next_id ids = fold max ids 0 + 1"

lemma fold_max_start: "(a :: int) \<le> fold max xs a"
proof (induction xs arbitrary: a)
  case (Cons x xs)
  have "a \<le> max x a" by simp
  also have "\<dots> \<le> fold max xs (max x a)" by (rule Cons)
  finally show ?case by simp
qed simp

lemma fold_max_ge: "(x :: int) \<in> set xs \<Longrightarrow> x \<le> fold max xs a"
proof (induction xs arbitrary: a)
  case (Cons y ys)
  show ?case
  proof (cases "x = y")
    case True
    have "x \<le> max y a" using True by simp
    also have "\<dots> \<le> fold max ys (max y a)" by (rule fold_max_start)
    finally show ?thesis by simp
  next
    case False
    with Cons show ?thesis by simp
  qed
qed simp

lemma next_id_fresh: "i \<in> set ids \<Longrightarrow> i < next_id ids"
  using fold_max_ge [of i ids 0] by (simp add: next_id_def)

lemma next_id_pos: "0 < next_id ids"
  using fold_max_start [of 0 ids] by (simp add: next_id_def)

lemma image_upd_where: "(\<And>r. g (f r) = g r) \<Longrightarrow> g ` set (upd_where P f rows) = g ` set rows"
  by (metis (no_types, lifting) map_upd_where set_map)

subsection \<open>Invariants of step relations\<close>

text \<open>What every system of this development is used for: a property that each step keeps holds after any run.\<close>

locale invariant_of =
  fixes trans :: "'s \<Rightarrow> 's \<Rightarrow> bool" and inv :: "'s \<Rightarrow> bool"
  assumes kept: "trans s s' \<Longrightarrow> inv s \<Longrightarrow> inv s'"
begin

lemma always: "trans\<^sup>*\<^sup>* s s' \<Longrightarrow> inv s \<Longrightarrow> inv s'"
  by (induction rule: rtranclp_induct) (auto intro: kept)

end

end
