(* ===== verification/PyDecimal.thy ===== *)
theory PyDecimal
  imports Prelude Complex_Main "HOL-Library.Code_Target_Numeral"
begin

text \<open>
  Python's \<open>decimal.Decimal\<close> under the default context, as far as the execution
  core uses it: a finite decimal is a sign, a coefficient and an exponent, every
  arithmetic result is rounded half-even to 28 significant digits, and the
  signals InvalidOperation, DivisionByZero and Overflow are trapped, so they are
  errors here.  The first half holds the operations, the reading and the printing;
  the second half the order facts on rounding that the fill arithmetic needs, and
  the round trip of a printed value through the database column.
\<close>

datatype dec_signal = InvalidOperation | DivisionByZero | DecOverflow

datatype dec =
    Dec (dec_neg: bool) (dec_coeff: nat) (dec_exp: int)
  | DInf bool
  | DNaN bool

definition dec_prec :: int where "dec_prec = 28"

definition dec_Emax :: int where "dec_Emax = 999999"

definition dec_Etiny :: int where "dec_Etiny = - 1000026"

definition dec_Etop :: int where "dec_Etop = 999972"

definition dec_zero :: dec where "dec_zero = Dec False 0 0"

fun ndigits :: "nat \<Rightarrow> nat" where
  "ndigits n = (if n < 10 then 1 else Suc (ndigits (n div 10)))"

declare ndigits.simps [simp del]

text \<open>Quotient rounded half-even.\<close>

definition rhe :: "nat \<Rightarrow> nat \<Rightarrow> nat" where
  "rhe n d = (let q = n div d; r = n mod d
              in if 2 * r > d \<or> (2 * r = d \<and> odd q) then Suc q else q)"

text \<open>The context rounding of a finite result: \<open>Decimal._fix\<close>.\<close>

definition dec_fix :: "bool \<Rightarrow> nat \<Rightarrow> int \<Rightarrow> dec_signal + dec" where
  "dec_fix s c e =
     (if c = 0 then Inr (Dec s 0 (min (max e dec_Etiny) dec_Emax))
      else let e0 = int (ndigits c) + e - dec_prec in
        if e0 > dec_Etop then Inl DecOverflow
        else let e1 = max e0 dec_Etiny in
          if e < e1 then
            let q = rhe c (10 ^ nat (e1 - e));
                (q', e2) = (if int (ndigits q) > dec_prec then (q div 10, e1 + 1) else (q, e1))
            in if e2 > dec_Etop then Inl DecOverflow else Inr (Dec s q' e2)
          else Inr (Dec s c e))"

fun dec_mul :: "dec \<Rightarrow> dec \<Rightarrow> dec_signal + dec" where
  "dec_mul (DNaN True) _ = Inl InvalidOperation"
| "dec_mul _ (DNaN True) = Inl InvalidOperation"
| "dec_mul (DNaN False) _ = Inr (DNaN False)"
| "dec_mul _ (DNaN False) = Inr (DNaN False)"
| "dec_mul (DInf s) (DInf t) = Inr (DInf (s \<noteq> t))"
| "dec_mul (DInf s) (Dec t c e) = (if c = 0 then Inl InvalidOperation else Inr (DInf (s \<noteq> t)))"
| "dec_mul (Dec t c e) (DInf s) = (if c = 0 then Inl InvalidOperation else Inr (DInf (s \<noteq> t)))"
| "dec_mul (Dec s c e) (Dec t d f) = dec_fix (s \<noteq> t) (c * d) (e + f)"

text \<open>
  Addition aligns the operands at the smaller exponent, adds exactly and rounds
  (the reference implementation truncates a very small operand first, which
  never changes the rounded result).  A zero operand is only padded.
\<close>

definition dec_signed :: "bool \<Rightarrow> nat \<Rightarrow> int" where
  "dec_signed s c = (if s then - int c else int c)"

fun dec_add :: "dec \<Rightarrow> dec \<Rightarrow> dec_signal + dec" where
  "dec_add (DNaN True) _ = Inl InvalidOperation"
| "dec_add _ (DNaN True) = Inl InvalidOperation"
| "dec_add (DNaN False) _ = Inr (DNaN False)"
| "dec_add _ (DNaN False) = Inr (DNaN False)"
| "dec_add (DInf s) (DInf t) = (if s \<noteq> t then Inl InvalidOperation else Inr (DInf s))"
| "dec_add (DInf s) (Dec t c e) = Inr (DInf s)"
| "dec_add (Dec t c e) (DInf s) = Inr (DInf s)"
| "dec_add (Dec s c e) (Dec t d f) =
     (let m = min e f in
      if c = 0 \<and> d = 0 then dec_fix (s \<and> t) 0 m
      else if c = 0 then let m' = max m (f - dec_prec - 1) in dec_fix t (d * 10 ^ nat (f - m')) m'
      else if d = 0 then let m' = max m (e - dec_prec - 1) in dec_fix s (c * 10 ^ nat (e - m')) m'
      else let v = dec_signed s (c * 10 ^ nat (e - m)) + dec_signed t (d * 10 ^ nat (f - m))
           in if v = 0 then dec_fix False 0 m else dec_fix (v < 0) (nat \<bar>v\<bar>) m)"

text \<open>Trailing zeros of an exact quotient are dropped down to the ideal exponent.\<close>

fun dec_strip :: "nat \<Rightarrow> nat \<Rightarrow> int \<Rightarrow> nat \<times> int" where
  "dec_strip 0 c e = (c, e)"
| "dec_strip (Suc k) c e = (if c mod 10 = 0 then dec_strip k (c div 10) (e + 1) else (c, e))"

fun dec_div :: "dec \<Rightarrow> dec \<Rightarrow> dec_signal + dec" where
  "dec_div (DNaN True) _ = Inl InvalidOperation"
| "dec_div _ (DNaN True) = Inl InvalidOperation"
| "dec_div (DNaN False) _ = Inr (DNaN False)"
| "dec_div _ (DNaN False) = Inr (DNaN False)"
| "dec_div (DInf s) (DInf t) = Inl InvalidOperation"
| "dec_div (DInf s) (Dec t c e) = Inr (DInf (s \<noteq> t))"
| "dec_div (Dec t c e) (DInf s) = Inr (Dec (s \<noteq> t) 0 dec_Etiny)"
| "dec_div (Dec s c e) (Dec t d f) =
     (if d = 0 then (if c = 0 then Inl InvalidOperation else Inl DivisionByZero)
      else if c = 0 then dec_fix (s \<noteq> t) 0 (e - f)
      else
        let sh = int (ndigits d) - int (ndigits c) + dec_prec + 1;
            x = e - f - sh;
            n = (if sh \<ge> 0 then c * 10 ^ nat sh else c);
            m = (if sh \<ge> 0 then d else d * 10 ^ nat (- sh));
            q = n div m
        in if n mod m \<noteq> 0 then dec_fix (s \<noteq> t) (if q mod 5 = 0 then q + 1 else q) x
           else let (q', x') = dec_strip (nat (e - f - x)) q x in dec_fix (s \<noteq> t) q' x')"

subsection \<open>Comparison\<close>

definition pow10 :: "int \<Rightarrow> rat" where
  "pow10 e = (if e \<ge> 0 then 10 ^ nat e else 1 / 10 ^ nat (- e))"

text \<open>The value of a finite decimal; infinities and NaNs are excluded by the callers.\<close>

fun dec_val :: "dec \<Rightarrow> rat" where
  "dec_val (Dec s c e) = (if s then - 1 else 1) * of_nat c * pow10 e"
| "dec_val _ = 0"

fun dec_finite :: "dec \<Rightarrow> bool" where
  "dec_finite (Dec s c e) = True"
| "dec_finite _ = False"

text \<open>\<open>a <= b\<close>: comparing with a NaN raises, infinities are ordered around all numbers.\<close>

fun dec_le :: "dec \<Rightarrow> dec \<Rightarrow> dec_signal + bool" where
  "dec_le (DNaN _) _ = Inl InvalidOperation"
| "dec_le _ (DNaN _) = Inl InvalidOperation"
| "dec_le (DInf s) (DInf t) = Inr (s \<or> \<not> t)"
| "dec_le (DInf s) (Dec t c e) = Inr s"
| "dec_le (Dec t c e) (DInf s) = Inr (\<not> s)"
| "dec_le (Dec s c e) (Dec t d f) = Inr (dec_val (Dec s c e) \<le> dec_val (Dec t d f))"

text \<open>\<open>parsed <= 0\<close> on a finite number is about sign and coefficient only.\<close>

fun dec_pos :: "dec \<Rightarrow> bool" where
  "dec_pos (Dec s c e) = (\<not> s \<and> c \<noteq> 0)"
| "dec_pos (DInf s) = (\<not> s)"
| "dec_pos (DNaN _) = False"

text \<open>Truth of a Decimal: everything but a zero.\<close>

fun dec_true :: "dec \<Rightarrow> bool" where
  "dec_true (Dec s c e) = (c \<noteq> 0)"
| "dec_true _ = True"

subsection \<open>Reading\<close>

text \<open>
  \<open>Decimal(text)\<close> is exact.  Surrounding white space and underscores are dropped;
  the accepted shapes are a signed number with optional fraction and exponent,
  an infinity and a NaN (payload digits are accepted and not kept).  The limits
  are those of the 64-bit C implementation, which refuses an inexact conversion.
\<close>

definition dec_max_emax :: int where "dec_max_emax = 999999999999999999"

definition dec_min_etiny :: int where "dec_min_etiny = - 1999999999999999997"

definition dec_limits :: "nat \<Rightarrow> int \<Rightarrow> bool" where
  "dec_limits c e = (dec_min_etiny \<le> e \<and>
     (if c = 0 then e \<le> dec_max_emax else int (ndigits c) + e - 1 \<le> dec_max_emax))"

definition dec_special :: "bool \<Rightarrow> string \<Rightarrow> dec option" where
  "dec_special s r =
     (let l = lower r in
      if l = ''inf'' \<or> l = ''infinity'' then Some (DInf s)
      else if take 3 l = ''nan'' \<and> list_all is_digit (drop 3 l) then Some (DNaN False)
      else if take 4 l = ''snan'' \<and> list_all is_digit (drop 4 l) then Some (DNaN True)
      else None)"

definition dec_exponent :: "string \<Rightarrow> int option" where
  "dec_exponent r =
     (case r of
        [] \<Rightarrow> Some 0
      | c # t \<Rightarrow>
          if c = CHR ''e'' \<or> c = CHR ''E'' then
            (case t of
               [] \<Rightarrow> None
             | d # ds \<Rightarrow>
                 if d = CHR ''-'' then (if ds \<noteq> [] \<and> list_all is_digit ds then Some (- int (digits_val ds)) else None)
                 else if d = CHR ''+'' then (if ds \<noteq> [] \<and> list_all is_digit ds then Some (int (digits_val ds)) else None)
                 else if list_all is_digit t then Some (int (digits_val t)) else None)
          else None)"

definition dec_unsigned :: "bool \<Rightarrow> string \<Rightarrow> dec option" where
  "dec_unsigned s r =
     (let ip = takeWhile is_digit r; r1 = dropWhile is_digit r;
          fp = (case r1 of [] \<Rightarrow> [] | c # t \<Rightarrow> if c = CHR ''.'' then takeWhile is_digit t else []);
          r2 = (case r1 of [] \<Rightarrow> [] | c # t \<Rightarrow> if c = CHR ''.'' then dropWhile is_digit t else r1)
      in if ip = [] \<and> fp = [] then dec_special s r
         else case dec_exponent r2 of
                None \<Rightarrow> None
              | Some x \<Rightarrow>
                  let c = digits_val (ip @ fp); e = x - int (length fp)
                  in if dec_limits c e then Some (Dec s c e) else None)"

definition dec_parse :: "string \<Rightarrow> dec option" where
  "dec_parse str =
     (let t = filter (\<lambda>c. c \<noteq> CHR ''_'') (strip str) in
      case t of
        [] \<Rightarrow> None
      | c # r \<Rightarrow> if c = CHR ''-'' then dec_unsigned True r
                 else if c = CHR ''+'' then dec_unsigned False r
                 else dec_unsigned False t)"

subsection \<open>Printing\<close>

text \<open>\<open>str(d)\<close>: plain notation for small exponents, scientific notation otherwise.\<close>

definition dec_body :: "string \<Rightarrow> int \<Rightarrow> string" where
  "dec_body ds e =
     (let n = int (length ds); left = e + n;
          dot = (if e \<le> 0 \<and> left > - 6 then left else 1);
          m = (if dot \<le> 0 then CHR ''0'' # CHR ''.'' # replicate (nat (- dot)) (CHR ''0'') @ ds
               else if dot \<ge> n then ds @ replicate (nat (dot - n)) (CHR ''0'')
               else take (nat dot) ds @ CHR ''.'' # drop (nat dot) ds);
          x = (if left = dot then []
               else CHR ''E'' # (if left - dot < 0 then int_str (left - dot)
                                 else CHR ''+'' # int_str (left - dot)))
      in m @ x)"

fun dec_str :: "dec \<Rightarrow> string" where
  "dec_str (Dec s c e) = (if s then CHR ''-'' # dec_body (nat_digits c) e else dec_body (nat_digits c) e)"
| "dec_str (DInf s) = (if s then ''-Infinity'' else ''Infinity'')"
| "dec_str (DNaN s) = (if s then ''sNaN'' else ''NaN'')"

text \<open>\<open>format(d, "f")\<close>: fixed point, a positive exponent is padded with zeros.\<close>

fun dec_format_f :: "dec \<Rightarrow> string" where
  "dec_format_f (Dec s c e) =
     (let ds = nat_digits (if e > 0 then c * 10 ^ nat e else c);
          k = nat (- e);
          body = (if k = 0 then ds
                  else let pd = replicate (Suc k - length ds) (CHR ''0'') @ ds
                       in take (length pd - k) pd @ CHR ''.'' # drop (length pd - k) pd)
      in if s then CHR ''-'' # body else body)"
| "dec_format_f (DInf s) = (if s then ''-Infinity'' else ''Infinity'')"
| "dec_format_f (DNaN s) = (if s then ''sNaN'' else ''NaN'')"

text \<open>\<open>d == d.to_integral_value()\<close> for a finite decimal.\<close>

fun dec_integral :: "dec \<Rightarrow> bool" where
  "dec_integral (Dec s c e) = (e \<ge> 0 \<or> c mod 10 ^ nat (- e) = 0)"
| "dec_integral _ = True"

subsection \<open>Digits and half-even rounding\<close>

lemma ndigits_pos [simp]: "0 < ndigits n"
  by (subst ndigits.simps) simp

lemma ndigits_small: "n < 10 \<Longrightarrow> ndigits n = 1"
  by (simp add: ndigits.simps [of n])

lemma ndigits_big: "\<not> n < 10 \<Longrightarrow> ndigits n = Suc (ndigits (n div 10))"
  by (simp add: ndigits.simps [of n])

lemma ndigits_upper: "n < 10 ^ ndigits n"
proof (induction n rule: ndigits.induct)
  case (1 n)
  show ?case
  proof (cases "n < 10")
    case False
    with 1 have "n div 10 < 10 ^ ndigits (n div 10)" by simp
    then have "n < 10 * 10 ^ ndigits (n div 10)" by linarith
    with False show ?thesis by (subst ndigits.simps) simp
  qed (subst ndigits.simps, simp)
qed

lemma ndigits_lower: "0 < n \<Longrightarrow> 10 ^ (ndigits n - Suc 0) \<le> n"
proof (induction n rule: ndigits.induct)
  case (1 n)
  show ?case
  proof (cases "n < 10")
    case True
    with "1.prems" show ?thesis by (simp add: ndigits_small)
  next
    case False
    with "1.IH" have "10 ^ (ndigits (n div 10) - Suc 0) \<le> n div 10" by simp
    then have "10 * 10 ^ (ndigits (n div 10) - Suc 0) \<le> n" by linarith
    then have "10 ^ ndigits (n div 10) \<le> n"
      by (metis Suc_pred ndigits_pos power_Suc)
    with False show ?thesis by (simp add: ndigits_big)
  qed
qed

lemma ndigits_le_iff: "0 < k \<Longrightarrow> ndigits n \<le> k \<longleftrightarrow> n < 10 ^ k"
proof
  assume "ndigits n \<le> k"
  then have "(10::nat) ^ ndigits n \<le> 10 ^ k" by (simp add: power_increasing)
  with ndigits_upper [of n] show "n < 10 ^ k" by linarith
next
  assume k: "0 < k" and lt: "n < 10 ^ k"
  show "ndigits n \<le> k"
  proof (cases "n = 0")
    case True
    with k show ?thesis by (simp add: ndigits.simps [of 0])
  next
    case False
    then have "10 ^ (ndigits n - Suc 0) \<le> n" by (simp add: ndigits_lower)
    with lt have "(10::nat) ^ (ndigits n - Suc 0) < 10 ^ k" by linarith
    then show ?thesis by simp
  qed
qed

lemma length_nat_digits: "length (nat_digits n) = ndigits n"
  by (induction n rule: nat_digits.induct) (subst nat_digits.simps, subst ndigits.simps, simp)

lemma rhe_ge: "0 < d \<Longrightarrow> k * d \<le> n \<Longrightarrow> k \<le> rhe n d"
  by (auto simp: rhe_def Let_def less_eq_div_iff_mult_less_eq intro: le_SucI)

lemma rhe_le:
  assumes "0 < d" and "n \<le> k * d"
  shows "rhe n d \<le> k"
proof (cases "n = k * d")
  case True
  with assms show ?thesis by (simp add: rhe_def)
next
  case False
  with assms have "n < k * d" by simp
  then have "n div d < k" by (simp add: assms(1) less_mult_imp_div_less)
  then show ?thesis by (simp add: rhe_def Let_def)
qed

lemma rhe_exact [simp]: "0 < d \<Longrightarrow> rhe (k * d) d = k"
  by (simp add: rhe_def)

subsection \<open>The value of a rounded result\<close>

lemma pow10_pos [simp]: "0 < pow10 e"
  by (simp add: pow10_def)

lemma pow10_nonneg [simp]: "0 \<le> pow10 e"
  by (simp add: less_imp_le)

lemma pow10_add: "pow10 (a + b) = pow10 a * pow10 b"
proof -
  have "pow10 e = 10 powi e" for e
    by (simp add: pow10_def power_int_def inverse_eq_divide power_one_over)
  then show ?thesis by (simp add: power_int_add)
qed

lemma pow10_nat: "0 \<le> e \<Longrightarrow> pow10 e = of_nat (10 ^ nat e)"
  by (simp add: pow10_def)

lemma pow10_shift: "e \<le> f \<Longrightarrow> pow10 f = of_nat (10 ^ nat (f - e)) * pow10 e"
  using pow10_add [of "f - e" e] by (simp add: pow10_nat)

text \<open>A decimal an arithmetic operation can return: 28 digits, exponent in range.\<close>

fun dec_wf :: "dec \<Rightarrow> bool" where
  "dec_wf (Dec s c e) = (c < 10 ^ 28 \<and> dec_Etiny \<le> e \<and> e \<le> dec_Emax)"
| "dec_wf _ = False"

definition dec_nonneg :: "dec \<Rightarrow> bool" where
  "dec_nonneg d = (dec_wf d \<and> \<not> dec_neg d)"

text \<open>The rounded case of \<open>dec_fix\<close>, with the carry into a 29th digit resolved.\<close>

lemma dec_fix_round:
  assumes "dec_fix s c e = Inr r" and "c \<noteq> 0"
    and e1: "e1 = max (int (ndigits c) + e - dec_prec) dec_Etiny" and lt: "e < e1"
  defines "q \<equiv> rhe c (10 ^ nat (e1 - e))"
  shows "q \<le> 10 ^ 28" and "\<exists>c' e'. r = Dec s c' e' \<and> dec_wf r \<and> of_nat c' * pow10 e' = of_nat q * pow10 e1"
proof -
  let ?k = "nat (e1 - e)"
  have nd: "ndigits c \<le> 28 + ?k"
    using e1 lt by (simp add: dec_prec_def)
  have "c < 10 ^ (28 + ?k)"
    using nd ndigits_le_iff [of "28 + ?k" c] by simp
  then have "c \<le> 10 ^ 28 * 10 ^ ?k" by (simp add: power_add)
  then show q: "q \<le> 10 ^ 28"
    unfolding q_def by (intro rhe_le) simp_all
  have big: "int (ndigits q) > dec_prec \<longleftrightarrow> q = 10 ^ 28"
    using q ndigits_le_iff [of 28 q] by (auto simp: dec_prec_def)
  have Etop: "int (ndigits c) + e - dec_prec \<le> dec_Etop"
    using assms(1,2) by (auto simp: dec_fix_def Let_def split: if_splits)
  have r: "(if int (ndigits q) > dec_prec
        then (if e1 + 1 > dec_Etop then Inl DecOverflow else Inr (Dec s (q div 10) (e1 + 1)))
        else (if e1 > dec_Etop then Inl DecOverflow else Inr (Dec s q e1))) = Inr r"
    using assms(1,2) lt Etop
    by (simp add: dec_fix_def Let_def flip: e1 q_def split del: if_split)
      (cases "int (ndigits q) > dec_prec"; simp)
  show "\<exists>c' e'. r = Dec s c' e' \<and> dec_wf r \<and> of_nat c' * pow10 e' = of_nat q * pow10 e1"
  proof (cases "q = 10 ^ 28")
    case True
    with r big have "r = Dec s (q div 10) (e1 + 1)" and "e1 + 1 \<le> dec_Etop"
      by (auto split: if_splits)
    moreover have "of_nat (q div 10) * pow10 (e1 + 1) = of_nat q * pow10 e1"
      by (simp add: True pow10_add pow10_def [of 1])
    ultimately show ?thesis
      using e1 True by (auto simp: dec_Etop_def dec_Emax_def)
  next
    case False
    with r big have "r = Dec s q e1" and "e1 \<le> dec_Etop"
      by (auto split: if_splits)
    with False q e1 show ?thesis
      by (auto simp: dec_Etop_def dec_Emax_def)
  qed
qed

lemma dec_fix_exact:
  assumes "dec_fix s c e = Inr r"
    and "c = 0 \<or> max (int (ndigits c) + e - dec_prec) dec_Etiny \<le> e"
  shows "\<exists>e'. r = Dec s c e' \<and> dec_wf r \<and> (of_nat c :: rat) * pow10 e' = of_nat c * pow10 e"
proof (cases "c = 0")
  case True
  with assms(1) show ?thesis
    by (auto simp: dec_fix_def dec_Etiny_def dec_Emax_def)
next
  case False
  with assms have r: "r = Dec s c e" and top: "int (ndigits c) + e - dec_prec \<le> dec_Etop"
    by (auto simp: dec_fix_def Let_def split: if_splits)
  from False assms(2) have "ndigits c \<le> 28" and e: "dec_Etiny \<le> e"
    by (auto simp: dec_prec_def)
  then have "c < 10 ^ 28" using ndigits_le_iff [of 28 c] by simp
  moreover have "1 \<le> ndigits c" by (simp add: Suc_le_eq)
  with top have "e \<le> dec_Emax" by (simp add: dec_prec_def dec_Etop_def dec_Emax_def)
  ultimately show ?thesis using r e by simp
qed

lemma dec_fix_wf: "dec_fix s c e = Inr r \<Longrightarrow> dec_wf r \<and> dec_neg r = s"
  using dec_fix_round(2) [of s c e r] dec_fix_exact [of s c e r]
  by (metis dec.sel(1) not_le)

text \<open>
  Rounding never crosses a representable number: a result that is exactly below
  (above) a value of at most 28 digits stays below (above) it.
\<close>

lemma dec_fix_bounds:
  assumes res: "dec_fix False c e = Inr r" and d: "d < 10 ^ 28" and f: "dec_Etiny \<le> f"
  shows "of_nat d * pow10 f \<le> of_nat c * pow10 e \<Longrightarrow> of_nat d * pow10 f \<le> dec_val r"
    and "of_nat c * pow10 e \<le> of_nat d * pow10 f \<Longrightarrow> dec_val r \<le> of_nat d * pow10 f"
proof -
  let ?e1 = "max (int (ndigits c) + e - dec_prec) dec_Etiny"
  consider (exact) "c = 0 \<or> ?e1 \<le> e" | (round) "c \<noteq> 0" "e < ?e1" by linarith
  then have "(of_nat d * pow10 f \<le> of_nat c * pow10 e \<longrightarrow> of_nat d * pow10 f \<le> dec_val r)
    \<and> (of_nat c * pow10 e \<le> of_nat d * pow10 f \<longrightarrow> dec_val r \<le> of_nat d * pow10 f)"
  proof cases
    case exact
    from dec_fix_exact [OF res exact] have "dec_val r = of_nat c * pow10 e" by auto
    then show ?thesis by simp
  next
    case round
    define k where "k = nat (?e1 - e)"
    define q where "q = rhe c (10 ^ k)"
    have val: "dec_val r = of_nat q * pow10 ?e1"
      using dec_fix_round(2) [OF res round(1) refl round(2)] by (auto simp: q_def k_def)
    have c: "of_nat c * pow10 e = (of_nat c / of_nat (10 ^ k)) * pow10 ?e1"
      using pow10_shift [of e ?e1] round(2) by (simp add: k_def)
    show ?thesis
    proof (cases "?e1 \<le> f")
      case True
      define D where "D = d * 10 ^ nat (f - ?e1)"
      have D: "of_nat d * pow10 f = of_nat D * pow10 ?e1"
        using pow10_shift [OF True] by (simp add: D_def)
      have "of_nat D * pow10 ?e1 \<le> of_nat c * pow10 e \<Longrightarrow> D \<le> q"
      proof -
        assume "of_nat D * pow10 ?e1 \<le> of_nat c * pow10 e"
        then have "of_nat D \<le> (of_nat c :: rat) / of_nat (10 ^ k)"
          unfolding c by (rule mult_right_le_imp_le) simp
        then have "of_nat (D * 10 ^ k) \<le> (of_nat c :: rat)" by (simp add: field_simps)
        then have "D * 10 ^ k \<le> c" by (simp only: of_nat_le_iff)
        then show "D \<le> q" unfolding q_def by (intro rhe_ge) simp_all
      qed
      moreover have "of_nat c * pow10 e \<le> of_nat D * pow10 ?e1 \<Longrightarrow> q \<le> D"
      proof -
        assume "of_nat c * pow10 e \<le> of_nat D * pow10 ?e1"
        then have "(of_nat c :: rat) / of_nat (10 ^ k) \<le> of_nat D"
          unfolding c by (rule mult_right_le_imp_le) simp
        then have "(of_nat c :: rat) \<le> of_nat (D * 10 ^ k)" by (simp add: field_simps)
        then have "c \<le> D * 10 ^ k" by (simp only: of_nat_le_iff)
        then show "q \<le> D" unfolding q_def by (intro rhe_le) simp_all
      qed
      ultimately show ?thesis by (simp add: D val)
    next
      case False
      with f have e1: "?e1 = int (ndigits c) + e - dec_prec" by linarith
      have "10 ^ (ndigits c - Suc 0) \<le> c" using round(1) by (simp add: ndigits_lower)
      moreover have "ndigits c - Suc 0 = 27 + k"
        using e1 round(2) by (simp add: k_def dec_prec_def)
      ultimately have c27: "10 ^ 27 * 10 ^ k \<le> c" by (simp add: power_add)
      then have "10 ^ 27 \<le> q" unfolding q_def by (intro rhe_ge) simp_all
      then have q27: "of_nat (10 ^ 27) * pow10 ?e1 \<le> of_nat q * pow10 ?e1"
        by (intro mult_right_mono) (simp_all only: of_nat_le_iff pow10_nonneg)
      have c27': "of_nat (10 ^ 27) * pow10 ?e1 \<le> of_nat c * pow10 e"
      proof -
        have "of_nat (10 ^ 27 * 10 ^ k) \<le> (of_nat c :: rat)" using c27 by (simp only: of_nat_le_iff)
        then show ?thesis unfolding c by (simp add: field_simps)
      qed
      have "of_nat d * pow10 f < of_nat (10 ^ 28) * pow10 f"
        using d by (intro mult_strict_right_mono) (simp_all only: of_nat_less_iff pow10_pos)
      also have "\<dots> = of_nat (10 ^ 27) * pow10 (f + 1)"
        by (simp add: pow10_add pow10_def [of 1])
      also have "\<dots> \<le> of_nat (10 ^ 27) * pow10 ?e1"
      proof -
        have "pow10 ?e1 = of_nat (10 ^ nat (?e1 - (f + 1))) * pow10 (f + 1)"
          using False by (intro pow10_shift) linarith
        moreover have "1 * pow10 (f + 1) \<le> of_nat (10 ^ nat (?e1 - (f + 1))) * pow10 (f + 1)"
          by (intro mult_right_mono) simp_all
        ultimately show ?thesis by (simp only: mult_1_left mult_left_mono of_nat_0_le_iff)
      qed
      finally have lt: "of_nat d * pow10 f < of_nat (10 ^ 27) * pow10 ?e1" .
      from less_le_trans [OF lt q27] less_le_trans [OF lt c27'] show ?thesis
        by (simp only: val less_imp_le not_le [symmetric] simp_thms)
    qed
  qed
  then show "of_nat d * pow10 f \<le> of_nat c * pow10 e \<Longrightarrow> of_nat d * pow10 f \<le> dec_val r"
    and "of_nat c * pow10 e \<le> of_nat d * pow10 f \<Longrightarrow> dec_val r \<le> of_nat d * pow10 f" by blast+
qed

subsection \<open>Sums, products and quotients of amounts\<close>

text \<open>The exact result an operation rounds, for operands that are not negative.\<close>

lemma dec_add_sum:
  "\<exists>c e. dec_add (Dec False a x) (Dec False b y) = dec_fix False c e
       \<and> of_nat c * pow10 e = dec_val (Dec False a x) + dec_val (Dec False b y)"
proof -
  let ?m = "min x y"
  have shift: "of_nat (n * 10 ^ nat (z - w)) * pow10 w = of_nat n * pow10 z" if "w \<le> z" for n z w
    using pow10_shift [OF that] by simp
  consider (zero) "a = 0" "b = 0" | (left) "a = 0" "b \<noteq> 0" | (right) "a \<noteq> 0" "b = 0"
    | (both) "a \<noteq> 0" "b \<noteq> 0" by blast
  then show ?thesis
  proof cases
    case zero
    then show ?thesis by (intro exI [of _ 0] exI [of _ ?m]) simp
  next
    case left
    let ?w = "max ?m (y - dec_prec - 1)"
    have "?w \<le> y" by (simp add: dec_prec_def)
    with left shift [of ?w y b] show ?thesis
      by (intro exI [of _ "b * 10 ^ nat (y - ?w)"] exI [of _ ?w]) (simp add: Let_def)
  next
    case right
    let ?w = "max ?m (x - dec_prec - 1)"
    have "?w \<le> x" by (simp add: dec_prec_def)
    with right shift [of ?w x a] show ?thesis
      by (intro exI [of _ "a * 10 ^ nat (x - ?w)"] exI [of _ ?w]) (simp add: Let_def)
  next
    case both
    let ?c = "a * 10 ^ nat (x - ?m) + b * 10 ^ nat (y - ?m)"
    have "dec_signed False (a * 10 ^ nat (x - ?m)) + dec_signed False (b * 10 ^ nat (y - ?m)) = int ?c"
      by (simp add: dec_signed_def)
    moreover have "?c \<noteq> 0" using both by simp
    ultimately have "dec_add (Dec False a x) (Dec False b y) = dec_fix False ?c ?m"
      using both by (simp add: Let_def del: of_nat_add of_nat_mult)
    moreover have "of_nat ?c * pow10 ?m = dec_val (Dec False a x) + dec_val (Dec False b y)"
      by (simp only: of_nat_add ring_distribs shift [of ?m x a] shift [of ?m y b] min.cobounded1
          min.cobounded2) simp
    ultimately show ?thesis by blast
  qed
qed

lemma dec_nonneg_cases:
  assumes "dec_nonneg d"
  obtains c e where "d = Dec False c e" "c < 10 ^ 28" "dec_Etiny \<le> e" "e \<le> dec_Emax"
  using assms by (cases d) (auto simp: dec_nonneg_def)

lemma dec_nonneg_val: "dec_nonneg d \<Longrightarrow> 0 \<le> dec_val d"
  by (elim dec_nonneg_cases) simp

lemma dec_pos_cases:
  assumes "dec_pos d" and "dec_finite d"
  obtains c e where "d = Dec False c e" "c \<noteq> 0"
  using assms by (cases d) auto

lemma dec_pos_val: "dec_pos d \<Longrightarrow> dec_finite d \<Longrightarrow> 0 < dec_val d"
  by (elim dec_pos_cases) simp_all

lemma dec_nonneg_zero [simp]: "dec_nonneg dec_zero"
  by (simp add: dec_nonneg_def dec_zero_def dec_Etiny_def dec_Emax_def)

lemma dec_add_nonneg:
  assumes "dec_nonneg a" and "dec_pos b" and "dec_finite b" and "dec_add a b = Inr r"
  shows "dec_nonneg r" and "dec_val a \<le> dec_val r"
proof -
  obtain c e where a: "a = Dec False c e" "c < 10 ^ 28" "dec_Etiny \<le> e"
    using assms(1) by (elim dec_nonneg_cases)
  obtain d f where b: "b = Dec False d f" using assms(2,3) by (elim dec_pos_cases)
  obtain k m where res: "dec_fix False k m = Inr r" and k: "of_nat k * pow10 m = dec_val a + dec_val b"
    using dec_add_sum [of c e d f] assms(4) a b by auto
  show "dec_nonneg r" using dec_fix_wf [OF res] by (simp add: dec_nonneg_def)
  have "of_nat c * pow10 e \<le> of_nat k * pow10 m" using k a b by simp
  then show "dec_val a \<le> dec_val r" using dec_fix_bounds(1) [OF res a(2,3)] a by simp
qed

text \<open>An amount is a finite decimal without a minus sign, of any length.\<close>

definition dec_amount :: "dec \<Rightarrow> bool" where
  "dec_amount d = (dec_finite d \<and> \<not> dec_neg d)"

lemma dec_amount_cases:
  assumes "dec_amount d"
  obtains c e where "d = Dec False c e"
  using assms by (cases d) (auto simp: dec_amount_def)

lemma dec_nonneg_amount [simp]: "dec_nonneg d \<Longrightarrow> dec_amount d"
  by (elim dec_nonneg_cases) (simp add: dec_amount_def)

lemma dec_pos_amount: "dec_pos d \<Longrightarrow> dec_finite d \<Longrightarrow> dec_amount d"
  by (elim dec_pos_cases) (simp_all add: dec_amount_def)

lemma dec_fix_nonneg: "dec_fix False c e = Inr r \<Longrightarrow> dec_nonneg r"
  by (simp add: dec_nonneg_def dec_fix_wf)

lemma dec_mul_nonneg:
  assumes "dec_amount a" and "dec_amount b" and "dec_mul a b = Inr r"
  shows "dec_nonneg r"
  using assms by (elim dec_amount_cases) (auto intro: dec_fix_nonneg)

lemma dec_div_nonneg:
  assumes "dec_amount a" and "dec_amount b" and "dec_div a b = Inr r"
  shows "dec_nonneg r"
  using assms
  by (elim dec_amount_cases) (auto simp: Let_def intro: dec_fix_nonneg split: if_splits prod.splits)

lemma dec_add_nonneg2:
  assumes "dec_amount a" and "dec_amount b" and "dec_add a b = Inr r"
  shows "dec_nonneg r"
  using assms dec_add_sum dec_fix_nonneg
  by (elim dec_amount_cases) metis

lemma dec_div_true: "dec_amount a \<Longrightarrow> dec_amount b \<Longrightarrow> dec_div a b = Inr r \<Longrightarrow> dec_true b"
  by (elim dec_amount_cases) (auto split: if_splits)

subsection \<open>Printing and reading back\<close>

lemma takeWhile_digits: "list_all is_digit ds \<Longrightarrow> takeWhile is_digit (ds @ c # r) = (if is_digit c then ds @ c # takeWhile is_digit r else ds)"
  by (induction ds) auto

lemma dropWhile_digits: "list_all is_digit ds \<Longrightarrow> \<not> is_digit c \<Longrightarrow> dropWhile is_digit (ds @ c # r) = c # r"
  by (induction ds) auto

lemma all_digits_while [simp]:
  assumes "list_all is_digit ds"
  shows "takeWhile is_digit ds = ds" and "dropWhile is_digit ds = []"
  using assms by (induction ds) auto

lemma list_all_nat_digits [simp]: "list_all is_digit (nat_digits n)"
  using nat_digits_all_digits [of n] by (simp add: list_all_iff)

lemma zero_char: "CHR ''0'' = digit_char 0"
  by code_simp

lemma is_digit_zero [simp]: "is_digit (CHR ''0'')"
  by (simp add: zero_char)

lemma list_all_zeros [simp]: "list_all is_digit (replicate n (CHR ''0''))"
  by (simp add: list_all_iff zero_char)

lemma digits_val_zeros: "digits_val (replicate n (CHR ''0'') @ ds) = digits_val ds"
  by (simp add: digits_val_append zero_char)

text \<open>The exponent suffix printed by \<open>dec_body\<close> is read back.\<close>

definition exp_suffix :: "int \<Rightarrow> string" where
  "exp_suffix x = (if x = 0 then [] else CHR ''E'' # (if x < 0 then int_str x else CHR ''+'' # int_str x))"

lemma digit_not_sign: "list_all is_digit (c # r) \<Longrightarrow> c \<noteq> CHR ''-'' \<and> c \<noteq> CHR ''+'' \<and> c \<noteq> CHR ''_''"
  by auto

lemma dec_exponent_suffix: "dec_exponent (exp_suffix x) = Some x"
  by (simp add: dec_exponent_def exp_suffix_def int_str_def)

lemma exp_suffix_head: "exp_suffix x = [] \<or> (\<exists>t. exp_suffix x = CHR ''E'' # t)"
  by (simp add: exp_suffix_def)

lemma dec_unsigned_plain:
  assumes "list_all is_digit ip" and "ip \<noteq> []"
  shows "dec_unsigned s (ip @ exp_suffix x)
    = (if dec_limits (digits_val ip) x then Some (Dec s (digits_val ip) x) else None)"
  using exp_suffix_head [of x] assms dec_exponent_suffix [of x]
  by (auto simp: dec_unsigned_def Let_def takeWhile_digits dropWhile_digits)

lemma dec_unsigned_point:
  assumes "list_all is_digit ip" and "list_all is_digit fp" and "ip \<noteq> []"
  shows "dec_unsigned s (ip @ CHR ''.'' # fp @ exp_suffix x)
    = (if dec_limits (digits_val (ip @ fp)) (x - int (length fp))
       then Some (Dec s (digits_val (ip @ fp)) (x - int (length fp))) else None)"
  using exp_suffix_head [of x] assms dec_exponent_suffix [of x]
  by (auto simp: dec_unsigned_def Let_def takeWhile_digits dropWhile_digits)

lemma dec_body_suffix:
  "dec_body ds e =
     (let n = int (length ds); left = e + n;
          dot = (if e \<le> 0 \<and> left > - 6 then left else 1)
      in (if dot \<le> 0 then CHR ''0'' # CHR ''.'' # replicate (nat (- dot)) (CHR ''0'') @ ds
          else if dot \<ge> n then ds @ replicate (nat (dot - n)) (CHR ''0'')
          else take (nat dot) ds @ CHR ''.'' # drop (nat dot) ds) @ exp_suffix (left - dot))"
  by (simp add: dec_body_def exp_suffix_def Let_def)

lemma dec_unsigned_body:
  assumes ds: "list_all is_digit ds" "ds \<noteq> []" and lim: "dec_limits (digits_val ds) e"
  shows "dec_unsigned s (dec_body ds e) = Some (Dec s (digits_val ds) e)"
proof -
  define n where "n = int (length ds)"
  define left where "left = e + n"
  define dot where "dot = (if e \<le> 0 \<and> left > - 6 then left else 1)"
  have n: "1 \<le> n" using ds(2) by (simp add: n_def Suc_le_eq)
  have body: "dec_body ds e = (if dot \<le> 0 then [CHR ''0''] @ CHR ''.'' # (replicate (nat (- dot)) (CHR ''0'') @ ds)
          else if dot \<ge> n then ds @ replicate (nat (dot - n)) (CHR ''0'')
          else take (nat dot) ds @ CHR ''.'' # drop (nat dot) ds) @ exp_suffix (left - dot)"
    by (simp add: dec_body_suffix n_def left_def dot_def Let_def)
  have split: "list_all is_digit (take k ds)" "list_all is_digit (drop k ds)" for k
    using ds(1) by (auto simp: list_all_iff dest: in_set_takeD in_set_dropD)
  consider (small) "dot \<le> 0" | (int) "0 < dot" "dot \<ge> n" | (mid) "0 < dot" "dot < n" by linarith
  then show ?thesis
  proof cases
    case small
    have e: "left - dot - int (nat (- dot) + length ds) = e"
      using small by (simp add: dot_def left_def n_def split: if_splits)
    have val: "digits_val ([CHR ''0''] @ replicate (nat (- dot)) (CHR ''0'') @ ds) = digits_val ds"
      using digits_val_zeros [of "Suc (nat (- dot))" ds] by simp
    have "dec_unsigned s ([CHR ''0''] @ CHR ''.'' # (replicate (nat (- dot)) (CHR ''0'') @ ds) @ exp_suffix (left - dot))
      = Some (Dec s (digits_val ds) e)"
      using dec_unsigned_point [of "[CHR ''0'']" "replicate (nat (- dot)) (CHR ''0'') @ ds" s "left - dot"]
        ds(1) lim e val by simp
    with small show ?thesis by (simp add: body)
  next
    case int
    then have d: "dot = n" using n by (auto simp: dot_def left_def split: if_splits)
    then have "left - dot = e" by (simp add: left_def)
    with int d have "dec_body ds e = ds @ exp_suffix e" by (simp add: body n_def)
    with dec_unsigned_plain [OF ds, of s e] lim show ?thesis by simp
  next
    case mid
    then have ne: "take (nat dot) ds \<noteq> []" using ds(2) by simp
    have len: "left - dot - int (length (drop (nat dot) ds)) = e"
      using mid by (simp add: left_def n_def of_nat_diff nat_le_iff)
    have "dec_body ds e = take (nat dot) ds @ CHR ''.'' # drop (nat dot) ds @ exp_suffix (left - dot)"
      using mid by (simp add: body)
    with dec_unsigned_point [where s = s and x = "left - dot", OF split ne] lim len show ?thesis by simp
  qed
qed

lemma clean_strip:
  assumes "\<forall>c\<in>set s. \<not> is_space c"
  shows "strip s = s"
proof -
  have "dropWhile is_space xs = xs" if "\<forall>c\<in>set xs. \<not> is_space c" for xs :: string
    using that by (cases xs) auto
  from this [of s] this [of "rev s"] assms show ?thesis by (simp add: strip_def)
qed

lemma dec_body_set:
  "\<exists>x. set (dec_body ds e) \<subseteq> set ds \<union> {CHR ''0'', CHR ''.''} \<union> set (exp_suffix x)"
  unfolding dec_body_suffix Let_def
  by (intro exI [of _ "e + int (length ds)
        - (if e \<le> 0 \<and> e + int (length ds) > - 6 then e + int (length ds) else 1)"]) (auto dest: in_set_takeD in_set_dropD split: if_splits)

lemma dec_body_chars:
  assumes "list_all is_digit ds"
  shows "\<forall>c\<in>set (dec_body ds e). \<not> is_space c \<and> c \<noteq> CHR ''_''"
proof -
  have clean: "\<not> is_space c \<and> c \<noteq> CHR ''_''" if "is_digit c" for c
    using that is_digit_not_space by auto
  have signs: "\<not> is_space (CHR ''E'')" "\<not> is_space (CHR ''+'')" "\<not> is_space (CHR ''-'')"
    "\<not> is_space (CHR ''.'')" "\<not> is_space (CHR ''0'')" by code_simp+
  have "c \<in> set (exp_suffix x) \<Longrightarrow> is_digit c \<or> c \<in> {CHR ''E'', CHR ''+'', CHR ''-''}" for c x
    using nat_digits_all_digits by (auto simp: exp_suffix_def int_str_def split: if_splits)
  moreover obtain x where "set (dec_body ds e) \<subseteq> set ds \<union> {CHR ''0'', CHR ''.''} \<union> set (exp_suffix x)"
    using dec_body_set by blast
  ultimately show ?thesis
    using assms clean signs by (fastforce simp: list_all_iff)
qed

lemma dec_body_head:
  assumes "list_all is_digit ds" and "ds \<noteq> []"
  shows "\<exists>c t. dec_body ds e = c # t \<and> is_digit c"
proof -
  obtain c t where ds: "ds = c # t" using assms(2) by (cases ds) auto
  with assms(1) have c: "is_digit c" by simp
  have "take (nat k) ds = c # take (nat k - 1) t" if "0 < k" for k :: int
    using that by (simp add: ds take_Cons')
  with c ds show ?thesis
    by (auto simp: dec_body_def Let_def)
qed

text \<open>
  The round trip the store relies on: a decimal printed into a text column is
  read back as the same decimal, coefficient and exponent included.
\<close>

lemma dec_parse_str:
  assumes "dec_limits c e"
  shows "dec_parse (dec_str (Dec s c e)) = Some (Dec s c e)"
proof -
  let ?b = "dec_body (nat_digits c) e"
  have chars: "\<forall>x\<in>set ?b. \<not> is_space x \<and> x \<noteq> CHR ''_''"
    by (rule dec_body_chars) simp
  have minus: "\<not> is_space (CHR ''-'')" by code_simp
  obtain h t where b: "?b = h # t" and h: "is_digit h"
    using dec_body_head [of "nat_digits c" e] by auto
  have body: "dec_unsigned n ?b = Some (Dec n c e)" for n
    using dec_unsigned_body [of "nat_digits c" e n] assms by simp
  have keep: "filter (\<lambda>x. x \<noteq> CHR ''_'') ?b = ?b"
    using chars by (intro filter_True) auto
  show ?thesis
  proof (cases s)
    case True
    have "strip (CHR ''-'' # ?b) = CHR ''-'' # ?b"
      using chars minus by (intro clean_strip) auto
    with True keep body show ?thesis by (simp add: dec_parse_def)
  next
    case False
    have "strip ?b = ?b" using chars by (intro clean_strip) auto
    moreover have "h \<noteq> CHR ''-''" "h \<noteq> CHR ''+''" using h by auto
    ultimately show ?thesis using False keep body b by (simp add: dec_parse_def)
  qed
qed

lemma dec_wf_limits:
  assumes "dec_wf (Dec s c e)"
  shows "dec_limits c e"
proof -
  from assms have "ndigits c \<le> 28" using ndigits_le_iff [of 28 c] by simp
  with assms show ?thesis
    by (auto simp: dec_limits_def dec_min_etiny_def dec_max_emax_def dec_Etiny_def dec_Emax_def)
qed

lemma dec_wf_roundtrip: "dec_wf d \<Longrightarrow> dec_parse (dec_str d) = Some d"
  by (cases d) (simp_all add: dec_parse_str dec_wf_limits del: dec_str.simps)

subsection \<open>Evaluation\<close>

text \<open>An evaluation order for \<open>ndigits\<close> that multiplies instead of dividing.\<close>

function ndigits_up :: "nat \<Rightarrow> nat \<Rightarrow> nat \<Rightarrow> nat" where
  "ndigits_up k p n = (if n < p \<or> p = 0 then k else ndigits_up (Suc k) (10 * p) n)"
  by pat_completeness auto
termination by (relation "measure (\<lambda>(k, p, n). n + 1 - p)") auto

lemma ndigits_up_eq:
  "n < 10 ^ (Suc k + m) \<Longrightarrow> k = 0 \<or> \<not> n < 10 ^ k \<Longrightarrow> ndigits_up (Suc k) (10 ^ Suc k) n = ndigits n"
proof (induction m arbitrary: k)
  case 0
  then have "ndigits n = Suc k"
    using ndigits_le_iff [of "Suc k" n] ndigits_le_iff [of k n] ndigits_pos [of n]
    by (cases "k = 0") (auto simp: le_Suc_eq)
  with 0 show ?case by (subst ndigits_up.simps) simp
next
  case (Suc m)
  show ?case
  proof (cases "n < 10 ^ Suc k")
    case True
    then have "ndigits n = Suc k"
      using Suc.prems ndigits_le_iff [of "Suc k" n] ndigits_le_iff [of k n] ndigits_pos [of n]
      by (cases "k = 0") (auto simp: le_Suc_eq)
    with True show ?thesis by (subst ndigits_up.simps) simp
  next
    case False
    then show ?thesis using Suc.IH [of "Suc k"] Suc.prems by (subst ndigits_up.simps) simp
  qed
qed

lemma ndigits_code [code]: "ndigits n = ndigits_up 1 10 n"
  using ndigits_up_eq [of n 0 "ndigits n"] ndigits_upper [of n] by simp

lemma dec_strip_zero: "dec_strip k 0 e = (0, e + int k)"
  by (induction k arbitrary: e) simp_all

lemma dec_strip_block:
  "dec_strip (j + k) (c * 10 ^ j) e = dec_strip k c (e + int j)"
  by (induction j arbitrary: c e) (simp_all add: algebra_simps)

lemma dec_strip_code [code]:
  "dec_strip k c e =
     (if 7 \<le> k \<and> c mod 10000000 = 0 then dec_strip (k - 7) (c div 10000000) (e + 7)
      else if k = 0 then (c, e)
      else if c mod 10 = 0 then dec_strip (k - 1) (c div 10) (e + 1) else (c, e))"
proof (cases "7 \<le> k \<and> c mod 10000000 = 0")
  case True
  then have "c = c div 10000000 * 10 ^ 7" "k = 7 + (k - 7)" by auto
  then have "dec_strip k c e = dec_strip (7 + (k - 7)) (c div 10000000 * 10 ^ 7) e" by metis
  also have "\<dots> = dec_strip (k - 7) (c div 10000000) (e + 7)"
    using dec_strip_block [of 7 "k - 7" "c div 10000000" e] by simp
  finally show ?thesis using True by simp
next
  case False
  then show ?thesis by (cases k) auto
qed

end
