(* ===== verification/Lifecycle.thy ===== *)
theory Lifecycle
  imports PyDecimal "HOL-Library.Multiset"
begin

text \<open>
  \<open>bot/services/execution_lifecycle.py\<close>: the deterministic reducer of execution
  events.  Parent states are the enumeration \<open>ParentState\<close>, the transition table
  is \<open>_ALLOWED_TRANSITIONS\<close>, an event carries an identity, a sequence number, a
  type and a JSON payload, and \<open>reduce_event\<close> either raises one of the module's
  errors (or a decimal signal) or returns the next snapshot.  The texts of the
  error messages are not kept.
\<close>

subsection \<open>JSON values\<close>

text \<open>
  The scalars of an event payload.  A float is kept by its printed form, which
  determines it and is all the code reads of it.
\<close>

datatype pyval = PNone | PBool bool | PInt int | PFloat string | PStr string

type_synonym jobj = "(string \<times> pyval) list"

definition jget :: "jobj \<Rightarrow> string \<Rightarrow> pyval" where
  "jget p k = (case map_of p k of None \<Rightarrow> PNone | Some v \<Rightarrow> v)"

fun py_str :: "pyval \<Rightarrow> string" where
  "py_str PNone = ''None''"
| "py_str (PBool b) = (if b then ''True'' else ''False'')"
| "py_str (PInt i) = int_str i"
| "py_str (PFloat s) = s"
| "py_str (PStr s) = s"

fun py_true :: "pyval \<Rightarrow> bool" where
  "py_true PNone = False"
| "py_true (PBool b) = b"
| "py_true (PInt i) = (i \<noteq> 0)"
| "py_true (PFloat s) = (s \<notin> {''0.0'', ''-0.0''})"
| "py_true (PStr s) = (s \<noteq> [])"

subsection \<open>Parent states\<close>

datatype ParentState =
    DRAFT | QUOTING | READY | AUTHORIZING | SCHEDULED | ACTIVE | PAUSED | PARTIAL
  | RECONCILING | FILLED | CANCELLED | FAILED | EXPIRED

fun ps_value :: "ParentState \<Rightarrow> string" where
  "ps_value DRAFT = ''draft''"
| "ps_value QUOTING = ''quoting''"
| "ps_value READY = ''ready''"
| "ps_value AUTHORIZING = ''authorizing''"
| "ps_value SCHEDULED = ''scheduled''"
| "ps_value ACTIVE = ''active''"
| "ps_value PAUSED = ''paused''"
| "ps_value PARTIAL = ''partial''"
| "ps_value RECONCILING = ''reconciling''"
| "ps_value FILLED = ''filled''"
| "ps_value CANCELLED = ''cancelled''"
| "ps_value FAILED = ''failed''"
| "ps_value EXPIRED = ''expired''"

definition all_states :: "ParentState list" where
  "all_states = [DRAFT, QUOTING, READY, AUTHORIZING, SCHEDULED, ACTIVE, PAUSED, PARTIAL,
     RECONCILING, FILLED, CANCELLED, FAILED, EXPIRED]"

definition ps_of_value :: "string \<Rightarrow> ParentState option" where
  "ps_of_value v = List.find (\<lambda>s. ps_value s = v) all_states"

definition TERMINAL_STATES :: "ParentState list" where
  "TERMINAL_STATES = [FILLED, CANCELLED, FAILED, EXPIRED]"

fun ALLOWED_TRANSITIONS :: "ParentState \<Rightarrow> ParentState list" where
  "ALLOWED_TRANSITIONS DRAFT = [QUOTING, CANCELLED, FAILED]"
| "ALLOWED_TRANSITIONS QUOTING = [READY, CANCELLED, FAILED, EXPIRED]"
| "ALLOWED_TRANSITIONS READY =
     [AUTHORIZING, SCHEDULED, ACTIVE, CANCELLED, FAILED, EXPIRED]"
| "ALLOWED_TRANSITIONS AUTHORIZING =
     [READY, SCHEDULED, ACTIVE, RECONCILING, CANCELLED, FAILED, EXPIRED]"
| "ALLOWED_TRANSITIONS SCHEDULED =
     [ACTIVE, PAUSED, RECONCILING, CANCELLED, FAILED, EXPIRED]"
| "ALLOWED_TRANSITIONS ACTIVE =
     [PAUSED, PARTIAL, RECONCILING, FILLED, CANCELLED, FAILED]"
| "ALLOWED_TRANSITIONS PAUSED =
     [ACTIVE, PARTIAL, RECONCILING, FILLED, CANCELLED, FAILED]"
| "ALLOWED_TRANSITIONS PARTIAL =
     [ACTIVE, PAUSED, RECONCILING, FILLED, CANCELLED, FAILED]"
| "ALLOWED_TRANSITIONS RECONCILING =
     [ACTIVE, PAUSED, PARTIAL, FILLED, CANCELLED, FAILED, EXPIRED]"
| "ALLOWED_TRANSITIONS FILLED = []"
| "ALLOWED_TRANSITIONS CANCELLED = []"
| "ALLOWED_TRANSITIONS FAILED = []"
| "ALLOWED_TRANSITIONS EXPIRED = []"

subsection \<open>Errors, events and snapshots\<close>

datatype lifecycle_error =
    EventSequenceError
  | IllegalTransitionError
  | InvalidFillError
  | DecimalSignal dec_signal

record LifecycleEvent =
  ev_id :: string
  ev_sequence :: int
  ev_type :: string
  ev_payload :: jobj
  ev_from_state :: "ParentState option"
  ev_to_state :: "ParentState option"

record ExecutionSnapshot =
  sn_parent_order_id :: string
  sn_state :: ParentState
  sn_sequence :: int
  sn_requested_quantity :: "dec option"
  sn_filled_quantity :: dec
  sn_average_fill_price :: "dec option"
  sn_applied_event_ids :: "string set"
  sn_applied_fill_keys :: "string set"

definition initial_snapshot :: "string \<Rightarrow> dec option \<Rightarrow> ExecutionSnapshot" where
  "initial_snapshot pid req =
     \<lparr>sn_parent_order_id = pid, sn_state = DRAFT, sn_sequence = 0,
      sn_requested_quantity = req, sn_filled_quantity = dec_zero,
      sn_average_fill_price = None, sn_applied_event_ids = {}, sn_applied_fill_keys = {}\<rparr>"

subsection \<open>The reducer\<close>

definition as_state :: "string \<Rightarrow> lifecycle_error + ParentState" where
  "as_state v = (case ps_of_value v of Some s \<Rightarrow> Inr s | None \<Rightarrow> Inl IllegalTransitionError)"

text \<open>
  The target named by an event: its \<open>to_state\<close>, or else the payload entry, where
  a missing (or JSON null) entry is refused.  A present but false entry such as
  the empty string is refused by the enumeration lookup.
\<close>

definition raw_target :: "LifecycleEvent \<Rightarrow> string \<Rightarrow> lifecycle_error + ParentState" where
  "raw_target ev key =
     (case ev_to_state ev of
        Some s \<Rightarrow> Inr s
      | None \<Rightarrow> (case jget (ev_payload ev) key of
                   PNone \<Rightarrow> Inl IllegalTransitionError
                 | v \<Rightarrow> as_state (py_str v)))"

definition validate_transition :: "ParentState \<Rightarrow> ParentState \<Rightarrow> lifecycle_error + unit" where
  "validate_transition current target =
     (if current = target then Inr ()
      else if current \<in> set TERMINAL_STATES then Inl IllegalTransitionError
      else if target \<notin> set (ALLOWED_TRANSITIONS current) then Inl IllegalTransitionError
      else Inr ())"

definition positive_decimal :: "pyval \<Rightarrow> lifecycle_error + dec" where
  "positive_decimal v =
     (case dec_parse (py_str v) of
        None \<Rightarrow> Inl InvalidFillError
      | Some d \<Rightarrow> if \<not> dec_finite d \<or> \<not> dec_pos d then Inl InvalidFillError else Inr d)"

definition advance :: "ExecutionSnapshot \<Rightarrow> LifecycleEvent \<Rightarrow> ExecutionSnapshot" where
  "advance sn ev = sn\<lparr>sn_sequence := ev_sequence ev,
     sn_applied_event_ids := insert (ev_id ev) (sn_applied_event_ids sn)\<rparr>"

definition fill_key_of :: "LifecycleEvent \<Rightarrow> string" where
  "fill_key_of ev = (let v = jget (ev_payload ev) ''fill_key'' in
     if py_true v then py_str v else ev_id ev)"

text \<open>New filled quantity and volume-weighted average price.\<close>

definition fill_aggregate :: "ExecutionSnapshot \<Rightarrow> dec \<Rightarrow> dec \<Rightarrow> dec_signal + (dec \<times> dec)" where
  "fill_aggregate sn q p =
     bindE (case sn_average_fill_price sn of
              Some a \<Rightarrow> dec_mul (sn_filled_quantity sn) a
            | None \<Rightarrow> Inr dec_zero) (\<lambda>previous_notional.
     bindE (dec_add (sn_filled_quantity sn) q) (\<lambda>new_quantity.
     bindE (dec_mul q p) (\<lambda>qp.
     bindE (dec_add previous_notional qp) (\<lambda>total.
     bindE (dec_div total new_quantity) (\<lambda>new_average.
     Inr (new_quantity, new_average))))))"

definition reduce_fill :: "ExecutionSnapshot \<Rightarrow> LifecycleEvent \<Rightarrow> lifecycle_error + ExecutionSnapshot" where
  "reduce_fill sn ev =
     (let fill_key = fill_key_of ev in
      if fill_key \<in> sn_applied_fill_keys sn then Inr (advance sn ev)
      else
        bindE (positive_decimal (jget (ev_payload ev) ''quantity'')) (\<lambda>quantity.
        bindE (positive_decimal (jget (ev_payload ev) ''price'')) (\<lambda>price.
        bindE (mapErr DecimalSignal (fill_aggregate sn quantity price)) (\<lambda>(new_quantity, new_average).
        bindE (case sn_requested_quantity sn of
                 None \<Rightarrow> Inr False
               | Some r \<Rightarrow> mapErr DecimalSignal (dec_le r new_quantity)) (\<lambda>complete.
        let target = (if complete then FILLED else PARTIAL) in
        bindE (if target \<noteq> sn_state sn then validate_transition (sn_state sn) target else Inr ()) (\<lambda>_.
        Inr ((advance sn ev)\<lparr>sn_state := target, sn_filled_quantity := new_quantity,
               sn_average_fill_price := Some new_average,
               sn_applied_fill_keys := insert fill_key (sn_applied_fill_keys sn)\<rparr>)))))))"

definition reduce_event :: "ExecutionSnapshot \<Rightarrow> LifecycleEvent \<Rightarrow> lifecycle_error + ExecutionSnapshot" where
  "reduce_event sn ev =
     (if ev_id ev \<in> sn_applied_event_ids sn then Inr sn
      else if ev_sequence ev \<noteq> sn_sequence sn + 1 then Inl EventSequenceError
      else if ev_from_state ev \<noteq> None \<and> ev_from_state ev \<noteq> Some (sn_state sn)
        then Inl IllegalTransitionError
      else if ev_type ev = ''parent_state_changed'' then
        bindE (raw_target ev ''to_state'') (\<lambda>target.
        bindE (validate_transition (sn_state sn) target) (\<lambda>_.
        Inr ((advance sn ev)\<lparr>sn_state := target\<rparr>)))
      else if ev_type ev = ''reconciliation_started'' then
        bindE (validate_transition (sn_state sn) RECONCILING) (\<lambda>_.
        Inr ((advance sn ev)\<lparr>sn_state := RECONCILING\<rparr>))
      else if ev_type ev = ''reconciliation_resolved'' then
        if sn_state sn \<noteq> RECONCILING then Inl IllegalTransitionError
        else
          bindE (raw_target ev ''resolved_state'') (\<lambda>target.
          bindE (validate_transition (sn_state sn) target) (\<lambda>_.
          Inr ((advance sn ev)\<lparr>sn_state := target\<rparr>)))
      else if ev_type ev = ''fill_recorded'' then reduce_fill sn ev
      else Inr (advance sn ev))"

text \<open>\<open>replay\<close>: a stable sort on the sequence number, then the reducer over the list.\<close>

fun reduce_all :: "ExecutionSnapshot \<Rightarrow> LifecycleEvent list \<Rightarrow> lifecycle_error + ExecutionSnapshot" where
  "reduce_all sn [] = Inr sn"
| "reduce_all sn (ev # evs) = bindE (reduce_event sn ev) (\<lambda>sn'. reduce_all sn' evs)"

definition replay :: "string \<Rightarrow> LifecycleEvent list \<Rightarrow> dec option \<Rightarrow> lifecycle_error + ExecutionSnapshot" where
  "replay pid events req = reduce_all (initial_snapshot pid req) (sort_key ev_sequence events)"

subsection \<open>Enumeration and transition table\<close>

named_theorems reducer_simps \<open>unfolding of the reducer\<close>

lemma all_states_complete [simp]: "s \<in> set all_states"
  by (cases s) (simp_all add: all_states_def)

lemma ps_value_inj: "ps_value s = ps_value t \<Longrightarrow> s = t"
  by (cases s; cases t; simp)

lemma ps_of_value_value [simp]: "ps_of_value (ps_value s) = Some s"
  by (cases s) (simp_all add: ps_of_value_def all_states_def)

lemma ps_of_value_Some: "ps_of_value v = Some s \<Longrightarrow> v = ps_value s"
  by (auto simp: ps_of_value_def dest!: find_SomeD)

lemma terminal_no_transitions: "s \<in> set TERMINAL_STATES \<longleftrightarrow> ALLOWED_TRANSITIONS s = []"
  by (cases s) (simp_all add: TERMINAL_STATES_def)

lemma validate_transition_Inr [monad_simps]:
  "validate_transition s t = Inr u \<longleftrightarrow> s = t \<or> t \<in> set (ALLOWED_TRANSITIONS s)"
  using terminal_no_transitions [of s] by (auto simp: validate_transition_def)

lemma validate_transition_eq:
  "s = t \<or> t \<in> set (ALLOWED_TRANSITIONS s) \<Longrightarrow> validate_transition s t = Inr ()"
  using validate_transition_Inr by blast

text \<open>The relation between the states of consecutive snapshots.\<close>

definition state_step :: "ParentState \<Rightarrow> ParentState \<Rightarrow> bool" where
  "state_step s t = (t = s \<or> t \<in> set (ALLOWED_TRANSITIONS s))"

lemma state_step_terminal: "s \<in> set TERMINAL_STATES \<Longrightarrow> state_step s t \<Longrightarrow> t = s"
  by (simp add: state_step_def terminal_no_transitions)

lemma state_steps_terminal:
  "state_step\<^sup>*\<^sup>* s t \<Longrightarrow> s \<in> set TERMINAL_STATES \<Longrightarrow> t = s"
  by (induction rule: rtranclp_induct) (auto dest: state_step_terminal)

subsection \<open>One event\<close>

lemma advance_simps [simp]:
  "sn_parent_order_id (advance sn ev) = sn_parent_order_id sn"
  "sn_state (advance sn ev) = sn_state sn"
  "sn_sequence (advance sn ev) = ev_sequence ev"
  "sn_requested_quantity (advance sn ev) = sn_requested_quantity sn"
  "sn_filled_quantity (advance sn ev) = sn_filled_quantity sn"
  "sn_average_fill_price (advance sn ev) = sn_average_fill_price sn"
  "sn_applied_event_ids (advance sn ev) = insert (ev_id ev) (sn_applied_event_ids sn)"
  "sn_applied_fill_keys (advance sn ev) = sn_applied_fill_keys sn"
  by (simp_all add: advance_def)

text \<open>
  What one accepted event can do: nothing (a duplicate), a change of state along
  the table, or a fill.  Every later lemma on the reducer starts from here.
\<close>

lemma reduce_fill_cases:
  assumes "reduce_fill sn ev = Inr sn'"
  obtains (seen) "fill_key_of ev \<in> sn_applied_fill_keys sn" "sn' = advance sn ev"
  | (new) q p nq na c where
      "fill_key_of ev \<notin> sn_applied_fill_keys sn"
      "positive_decimal (jget (ev_payload ev) ''quantity'') = Inr q"
      "positive_decimal (jget (ev_payload ev) ''price'') = Inr p"
      "fill_aggregate sn q p = Inr (nq, na)"
      "case sn_requested_quantity sn of None \<Rightarrow> c = False | Some r \<Rightarrow> dec_le r nq = Inr c"
      "state_step (sn_state sn) (if c then FILLED else PARTIAL)"
      "sn' = (advance sn ev)\<lparr>sn_state := (if c then FILLED else PARTIAL), sn_filled_quantity := nq,
         sn_average_fill_price := Some na,
         sn_applied_fill_keys := insert (fill_key_of ev) (sn_applied_fill_keys sn)\<rparr>"
proof (cases "fill_key_of ev \<in> sn_applied_fill_keys sn")
  case True
  with assms have "sn' = advance sn ev" by (simp add: reduce_fill_def)
  with True show ?thesis by (rule seen)
next
  case False
  with assms obtain q p nq na c u where steps:
      "positive_decimal (jget (ev_payload ev) ''quantity'') = Inr q"
      "positive_decimal (jget (ev_payload ev) ''price'') = Inr p"
      "fill_aggregate sn q p = Inr (nq, na)"
    and c: "(case sn_requested_quantity sn of None \<Rightarrow> Inr False
               | Some r \<Rightarrow> mapErr DecimalSignal (dec_le r nq)) = Inr c"
    and t: "(if (if c then FILLED else PARTIAL) \<noteq> sn_state sn
              then validate_transition (sn_state sn) (if c then FILLED else PARTIAL) else Inr ()) = Inr u"
    and sn': "sn' = (advance sn ev)\<lparr>sn_state := (if c then FILLED else PARTIAL), sn_filled_quantity := nq,
         sn_average_fill_price := Some na,
         sn_applied_fill_keys := insert (fill_key_of ev) (sn_applied_fill_keys sn)\<rparr>"
    by (fastforce simp: reduce_fill_def Let_def monad_simps split del: if_split)
  show ?thesis
  proof (rule new [OF False steps])
    show "case sn_requested_quantity sn of None \<Rightarrow> c = False | Some r \<Rightarrow> dec_le r nq = Inr c"
      using c by (simp add: monad_simps split: option.splits)
    show "state_step (sn_state sn) (if c then FILLED else PARTIAL)"
      using t by (auto simp: state_step_def monad_simps split: if_splits)
  qed (rule sn')
qed

lemma move_ok:
  "bindE (validate_transition (sn_state sn) t) (\<lambda>_. Inr ((advance sn ev)\<lparr>sn_state := t\<rparr>)) = Inr sn' \<Longrightarrow>
   \<exists>t. state_step (sn_state sn) t \<and> sn' = (advance sn ev)\<lparr>sn_state := t\<rparr>"
  by (auto simp: state_step_def monad_simps)

lemma reduce_event_cases:
  assumes "reduce_event sn ev = Inr sn'"
  obtains (duplicate) "ev_id ev \<in> sn_applied_event_ids sn" "sn' = sn"
  | (move) t where "ev_id ev \<notin> sn_applied_event_ids sn" "ev_sequence ev = sn_sequence sn + 1"
      "ev_type ev \<noteq> ''fill_recorded''"
      "state_step (sn_state sn) t" "sn' = (advance sn ev)\<lparr>sn_state := t\<rparr>"
  | (fill) "ev_id ev \<notin> sn_applied_event_ids sn" "ev_sequence ev = sn_sequence sn + 1"
      "ev_type ev = ''fill_recorded''" "reduce_fill sn ev = Inr sn'"
proof (cases "ev_id ev \<in> sn_applied_event_ids sn")
  case True
  with assms have "sn' = sn" by (simp add: reduce_event_def)
  with True show ?thesis by (rule duplicate)
next
  case False
  with assms have seq: "ev_sequence ev = sn_sequence sn + 1"
    by (auto simp: reduce_event_def split: if_splits)
  show ?thesis
  proof (cases "ev_type ev = ''fill_recorded''")
    case True
    with assms False have "reduce_fill sn ev = Inr sn'"
      by (simp add: reduce_event_def split: if_split_asm)
    with False seq True show ?thesis by (rule fill)
  next
    case no_fill: False
    consider (state) "ev_type ev = ''parent_state_changed''"
      | (start) "ev_type ev = ''reconciliation_started''"
      | (resolve) "ev_type ev = ''reconciliation_resolved''"
      | (audit) "ev_type ev \<noteq> ''parent_state_changed''" "ev_type ev \<noteq> ''reconciliation_started''"
          "ev_type ev \<noteq> ''reconciliation_resolved''" by blast
    then have "\<exists>t. state_step (sn_state sn) t \<and> sn' = (advance sn ev)\<lparr>sn_state := t\<rparr>"
    proof cases
      case state
      with assms False no_fill have "bindE (raw_target ev ''to_state'') (\<lambda>t.
          bindE (validate_transition (sn_state sn) t) (\<lambda>_. Inr ((advance sn ev)\<lparr>sn_state := t\<rparr>))) = Inr sn'"
        by (simp add: reduce_event_def split: if_split_asm)
      then show ?thesis by (rule bindE_InrE) (rule move_ok)
    next
      case start
      with assms False no_fill show ?thesis
        by (intro move_ok [where t = RECONCILING]) (simp add: reduce_event_def split: if_split_asm)
    next
      case resolve
      with assms False no_fill have "bindE (raw_target ev ''resolved_state'') (\<lambda>t.
          bindE (validate_transition (sn_state sn) t) (\<lambda>_. Inr ((advance sn ev)\<lparr>sn_state := t\<rparr>))) = Inr sn'"
        by (simp add: reduce_event_def split: if_split_asm)
      then show ?thesis by (rule bindE_InrE) (rule move_ok)
    next
      case audit
      with assms False no_fill have "sn' = (advance sn ev)\<lparr>sn_state := sn_state sn\<rparr>"
        by (simp add: reduce_event_def advance_def split: if_split_asm)
      then show ?thesis by (auto simp: state_step_def)
    qed
    with move False seq no_fill show ?thesis by blast
  qed
qed

lemma reduce_event_step:
  assumes "reduce_event sn ev = Inr sn'"
  shows "state_step (sn_state sn) (sn_state sn')"
  using assms
proof (cases rule: reduce_event_cases)
  case fill
  then show ?thesis by (elim reduce_fill_cases) (auto simp: state_step_def)
qed (auto simp: state_step_def)

lemma reduce_fill_frame:
  assumes "reduce_fill sn ev = Inr sn'"
  shows "sn_parent_order_id sn' = sn_parent_order_id sn
    \<and> sn_requested_quantity sn' = sn_requested_quantity sn
    \<and> sn_applied_event_ids sn' = insert (ev_id ev) (sn_applied_event_ids sn)
    \<and> sn_sequence sn' = ev_sequence ev"
  using assms by (cases rule: reduce_fill_cases) simp_all

lemma reduce_event_frame:
  assumes "reduce_event sn ev = Inr sn'"
  shows "sn_parent_order_id sn' = sn_parent_order_id sn"
    and "sn_requested_quantity sn' = sn_requested_quantity sn"
    and "sn_applied_event_ids sn' = insert (ev_id ev) (sn_applied_event_ids sn)"
    and "sn_sequence sn' = (if ev_id ev \<in> sn_applied_event_ids sn then sn_sequence sn else sn_sequence sn + 1)"
  using assms
  by (cases rule: reduce_event_cases; simp add: reduce_fill_frame insert_absorb)+

text \<open>Everything but the identities of events already seen determines the outcome.\<close>

lemma reduce_event_fresh_seq:
  assumes "reduce_event sn ev = Inr sn'" and "ev_id ev \<notin> sn_applied_event_ids sn"
  shows "ev_sequence ev = sn_sequence sn + 1" and "sn_sequence sn' = ev_sequence ev"
  using assms reduce_event_frame(4) [OF assms(1)]
  by (cases rule: reduce_event_cases; simp add: reduce_fill_frame)+

subsection \<open>Fill arithmetic\<close>

text \<open>
  The economic invariant of a snapshot: the filled quantity is a machine-range
  amount, zero exactly as long as there is no average price, and the average
  price is not negative.
\<close>

definition fill_inv :: "ExecutionSnapshot \<Rightarrow> bool" where
  "fill_inv sn = (dec_nonneg (sn_filled_quantity sn) \<and>
     (case sn_average_fill_price sn of
        None \<Rightarrow> sn_filled_quantity sn = dec_zero
      | Some a \<Rightarrow> dec_nonneg a \<and> dec_true (sn_filled_quantity sn)))"

lemma fill_inv_cong:
  "sn_filled_quantity sn' = sn_filled_quantity sn \<Longrightarrow>
   sn_average_fill_price sn' = sn_average_fill_price sn \<Longrightarrow> fill_inv sn' = fill_inv sn"
  by (simp add: fill_inv_def split: option.splits)

lemma fill_inv_initial: "fill_inv (initial_snapshot pid req)"
  by (simp add: fill_inv_def initial_snapshot_def)

lemma positive_decimal_Inr: "positive_decimal v = Inr d \<Longrightarrow> dec_pos d \<and> dec_finite d"
  by (auto simp: positive_decimal_def split: option.splits if_splits)

lemma fill_aggregate_inv:
  assumes inv: "fill_inv sn" and q: "dec_pos q" "dec_finite q" and p: "dec_pos p" "dec_finite p"
    and agg: "fill_aggregate sn q p = Inr (nq, na)"
  shows "dec_nonneg nq" and "dec_nonneg na" and "dec_true nq"
    and "dec_val (sn_filled_quantity sn) \<le> dec_val nq"
proof -
  obtain pn qp tot where steps:
    "(case sn_average_fill_price sn of Some a \<Rightarrow> dec_mul (sn_filled_quantity sn) a | None \<Rightarrow> Inr dec_zero) = Inr pn"
    "dec_add (sn_filled_quantity sn) q = Inr nq" "dec_mul q p = Inr qp"
    "dec_add pn qp = Inr tot" "dec_div tot nq = Inr na"
    using agg by (auto simp: fill_aggregate_def monad_simps)
  have filled: "dec_nonneg (sn_filled_quantity sn)" using inv by (simp add: fill_inv_def)
  show nq: "dec_nonneg nq" and "dec_val (sn_filled_quantity sn) \<le> dec_val nq"
    using dec_add_nonneg [OF filled q steps(2)] by simp_all
  have pn: "dec_nonneg pn"
  proof (cases "sn_average_fill_price sn")
    case None
    with steps(1) show ?thesis by simp
  next
    case (Some a)
    with inv have "dec_nonneg a" by (simp add: fill_inv_def)
    with filled steps(1) Some dec_mul_nonneg [of "sn_filled_quantity sn" a] show ?thesis by simp
  qed
  have qp: "dec_nonneg qp"
    using q p steps(3) dec_mul_nonneg by (blast intro: dec_pos_amount)
  have tot: "dec_nonneg tot" using dec_add_nonneg2 [OF _ _ steps(4)] pn qp by simp
  then show "dec_nonneg na" and "dec_true nq"
    using nq dec_div_nonneg [OF _ _ steps(5)] dec_div_true [OF _ _ steps(5)] by simp_all
qed

lemma reduce_event_fill_inv:
  assumes inv: "fill_inv sn" and ok: "reduce_event sn ev = Inr sn'"
  shows "fill_inv sn'" and "dec_val (sn_filled_quantity sn) \<le> dec_val (sn_filled_quantity sn')"
proof -
  have "fill_inv sn' \<and> dec_val (sn_filled_quantity sn) \<le> dec_val (sn_filled_quantity sn')"
    using ok
  proof (cases rule: reduce_event_cases)
    case fill
    from fill(4) show ?thesis
    proof (cases rule: reduce_fill_cases)
      case seen
      with inv fill_inv_cong [of sn' sn] show ?thesis by simp
    next
      case (new q p nq na c)
      from new(2,3) have "dec_pos q \<and> dec_finite q" "dec_pos p \<and> dec_finite p"
        by (auto dest: positive_decimal_Inr)
      with fill_aggregate_inv [OF inv _ _ _ _ new(4)] new(7) show ?thesis
        by (simp add: fill_inv_def)
    qed
  qed (use inv fill_inv_cong [of sn' sn] in simp_all)
  then show "fill_inv sn'" and "dec_val (sn_filled_quantity sn) \<le> dec_val (sn_filled_quantity sn')"
    by blast+
qed

subsection \<open>Runs of events\<close>

lemma reduce_all_append:
  "reduce_all sn (xs @ ys) = bindE (reduce_all sn xs) (\<lambda>sn'. reduce_all sn' ys)"
proof (induction xs arbitrary: sn)
  case (Cons x xs)
  then show ?case by (cases "reduce_event sn x") simp_all
qed simp

text \<open>A fact that every event keeps is kept by a run.\<close>

lemma reduce_all_invariant:
  assumes "\<And>sn ev sn'. reduce_event sn ev = Inr sn' \<Longrightarrow> P sn \<Longrightarrow> P sn'"
    and "reduce_all sn evs = Inr sn'" and "P sn"
  shows "P sn'"
  using assms(2,3)
proof (induction evs arbitrary: sn)
  case (Cons ev evs)
  then show ?case using assms(1) by (auto simp: monad_simps)
qed simp

lemma reduce_all_steps:
  assumes "reduce_all sn evs = Inr sn'"
  shows "state_step\<^sup>*\<^sup>* (sn_state sn) (sn_state sn')"
  using assms
proof (induction evs arbitrary: sn)
  case (Cons ev evs)
  then obtain sn1 where "reduce_event sn ev = Inr sn1" "reduce_all sn1 evs = Inr sn'"
    by (auto simp: monad_simps)
  with Cons.IH show ?case
    by (blast intro: converse_rtranclp_into_rtranclp reduce_event_step)
qed simp

text \<open>\<open>numbered n evs\<close>: the events carry the consecutive numbers that follow \<open>n\<close>.\<close>

fun numbered :: "int \<Rightarrow> LifecycleEvent list \<Rightarrow> bool" where
  "numbered n [] = True"
| "numbered n (ev # evs) = (ev_sequence ev = n + 1 \<and> numbered (n + 1) evs)"

lemma numbered_append:
  "numbered n (xs @ ys) = (numbered n xs \<and> numbered (n + int (length xs)) ys)"
  by (induction xs arbitrary: n) (auto simp: algebra_simps)

lemma numbered_nth: "numbered n evs \<Longrightarrow> i < length evs \<Longrightarrow> ev_sequence (evs ! i) = n + 1 + int i"
  by (induction evs arbitrary: n i) (auto simp: nth_Cons split: nat.splits)

lemma numbered_lower: "numbered n evs \<Longrightarrow> ev \<in> set evs \<Longrightarrow> n < ev_sequence ev"
  by (induction evs arbitrary: n) force+

lemma numbered_range: "numbered n evs \<Longrightarrow> set (map ev_sequence evs) = {n + 1..n + int (length evs)}"
proof (induction evs arbitrary: n)
  case (Cons ev evs)
  then have "set (map ev_sequence evs) = {n + 1 + 1..n + 1 + int (length evs)}"
    by (metis numbered.simps(2))
  with Cons.prems show ?case by auto
qed simp

lemma numbered_sorted: "numbered n evs \<Longrightarrow> sorted (map ev_sequence evs)"
proof (induction evs arbitrary: n)
  case (Cons ev evs)
  then show ?case using numbered_lower [of "n + 1" evs] by force
qed simp

lemma reduce_all_contiguous:
  assumes "reduce_all sn evs = Inr sn'" and "distinct (map ev_id evs)"
    and "set (map ev_id evs) \<inter> sn_applied_event_ids sn = {}"
  shows "numbered (sn_sequence sn) evs
    \<and> sn_sequence sn' = sn_sequence sn + int (length evs)
    \<and> sn_applied_event_ids sn' = sn_applied_event_ids sn \<union> set (map ev_id evs)"
  using assms
proof (induction evs arbitrary: sn)
  case (Cons ev evs)
  then obtain sn1 where step: "reduce_event sn ev = Inr sn1" and rest: "reduce_all sn1 evs = Inr sn'"
    by (auto simp: monad_simps)
  have fresh: "ev_id ev \<notin> sn_applied_event_ids sn" using Cons.prems(3) by auto
  note frame = reduce_event_frame(3,4) [OF step] reduce_event_fresh_seq [OF step fresh]
  have "set (map ev_id evs) \<inter> sn_applied_event_ids sn1 = {}"
    using Cons.prems(2,3) frame by auto
  with Cons.IH [OF rest] Cons.prems(2) frame fresh show ?case by auto
qed simp

text \<open>Integral fills add up exactly as long as the total fits the decimal context.\<close>

definition fill_units :: "LifecycleEvent \<Rightarrow> nat option" where
  "fill_units ev = (case dec_parse (py_str (jget (ev_payload ev) ''quantity'')) of
     Some (Dec False c e) \<Rightarrow> if e = 0 then Some c else None
   | _ \<Rightarrow> None)"

text \<open>
  The total a log stands for: every fill counts once, on the first occurrence of
  its event id and of its fill key.
\<close>

fun fill_total :: "string set \<Rightarrow> string set \<Rightarrow> LifecycleEvent list \<Rightarrow> nat" where
  "fill_total ids keys [] = 0"
| "fill_total ids keys (ev # evs) =
     (if ev_id ev \<in> ids then fill_total ids keys evs
      else if ev_type ev \<noteq> ''fill_recorded'' \<or> fill_key_of ev \<in> keys
        then fill_total (insert (ev_id ev) ids) keys evs
      else the (fill_units ev) + fill_total (insert (ev_id ev) ids) (insert (fill_key_of ev) keys) evs)"

lemma dec_fix_units: "ndigits c \<le> 28 \<Longrightarrow> 0 < c \<Longrightarrow> dec_fix False c 0 = Inr (Dec False c 0)"
  by (simp add: dec_fix_def dec_prec_def dec_Etop_def dec_Etiny_def max_def)

lemma dec_add_units:
  assumes "a + b < 10 ^ 28"
  shows "dec_add (Dec False a 0) (Dec False b 0) = Inr (Dec False (a + b) 0)"
proof (cases "a + b = 0")
  case False
  have "ndigits (a + b) \<le> 28" using assms by (subst ndigits_le_iff) simp_all
  moreover have "ndigits a \<le> 28" "ndigits b \<le> 28"
    using assms by (subst ndigits_le_iff; simp)+
  ultimately show ?thesis
    using False by (auto simp: dec_fix_units dec_signed_def dec_prec_def nat_add_distrib max_def)
qed (simp add: dec_fix_def dec_Etiny_def dec_Emax_def)

lemma reduce_fill_units:
  assumes ok: "reduce_fill sn ev = Inr sn'" and new: "fill_key_of ev \<notin> sn_applied_fill_keys sn"
    and u: "fill_units ev = Some u" and f: "sn_filled_quantity sn = Dec False n 0" and b: "n + u < 10 ^ 28"
  shows "sn_filled_quantity sn' = Dec False (n + u) 0"
    and "sn_applied_fill_keys sn' = insert (fill_key_of ev) (sn_applied_fill_keys sn)"
    and "sn_applied_event_ids sn' = insert (ev_id ev) (sn_applied_event_ids sn)"
proof -
  have "sn_filled_quantity sn' = Dec False (n + u) 0
    \<and> sn_applied_fill_keys sn' = insert (fill_key_of ev) (sn_applied_fill_keys sn)
    \<and> sn_applied_event_ids sn' = insert (ev_id ev) (sn_applied_event_ids sn)"
    using ok
  proof (cases rule: reduce_fill_cases)
    case (new q p nq na c)
    from new(2) u have "q = Dec False u 0"
      by (auto simp: fill_units_def positive_decimal_def split: option.splits dec.splits bool.splits if_splits)
    with new(4) f dec_add_units [OF b] have "nq = Dec False (n + u) 0"
      by (auto simp: fill_aggregate_def monad_simps)
    with new(7) show ?thesis by simp
  qed (use new in simp)
  then show "sn_filled_quantity sn' = Dec False (n + u) 0"
    and "sn_applied_fill_keys sn' = insert (fill_key_of ev) (sn_applied_fill_keys sn)"
    and "sn_applied_event_ids sn' = insert (ev_id ev) (sn_applied_event_ids sn)" by simp_all
qed

lemma reduce_fill_seen:
  assumes "reduce_fill sn ev = Inr sn'" and "fill_key_of ev \<in> sn_applied_fill_keys sn"
  shows "sn' = advance sn ev"
  using assms by (cases rule: reduce_fill_cases) simp_all

lemma reduce_all_units:
  assumes "reduce_all sn evs = Inr sn'"
    and "\<And>ev. ev \<in> set evs \<Longrightarrow> ev_type ev = ''fill_recorded'' \<Longrightarrow> fill_units ev \<noteq> None"
    and "sn_filled_quantity sn = Dec False n 0"
    and "n + fill_total (sn_applied_event_ids sn) (sn_applied_fill_keys sn) evs < 10 ^ 28"
  shows "sn_filled_quantity sn'
    = Dec False (n + fill_total (sn_applied_event_ids sn) (sn_applied_fill_keys sn) evs) 0"
  using assms
proof (induction evs arbitrary: sn n)
  case (Cons ev evs)
  then obtain sn1 where step: "reduce_event sn ev = Inr sn1" and rest: "reduce_all sn1 evs = Inr sn'"
    by (auto simp: monad_simps)
  note IH = Cons.IH [OF rest Cons.prems(2)]
  from step show ?case
  proof (cases rule: reduce_event_cases)
    case duplicate
    with IH [of n] Cons.prems(3,4) show ?thesis by simp
  next
    case (move t)
    with IH [of n] Cons.prems(3,4) show ?thesis by simp
  next
    case fill
    show ?thesis
    proof (cases "fill_key_of ev \<in> sn_applied_fill_keys sn")
      case True
      with reduce_fill_seen [OF fill(4)] have "sn1 = advance sn ev" by simp
      with True fill IH [of n] Cons.prems(3,4) show ?thesis by simp
    next
      case False
      from fill(3) Cons.prems(2) obtain u where u: "fill_units ev = Some u" by fastforce
      with Cons.prems(4) fill False have "n + u < 10 ^ 28" by simp
      from reduce_fill_units [OF fill(4) False u Cons.prems(3) this] IH [of "n + u"] Cons.prems(4) fill u False
      show ?thesis by (simp add: add.assoc)
    qed
  qed
qed simp

subsection \<open>Samples for the witnesses\<close>

definition sample_fill :: "string \<Rightarrow> int \<Rightarrow> string \<Rightarrow> string \<Rightarrow> LifecycleEvent" where
  "sample_fill i n q p = \<lparr>ev_id = i, ev_sequence = n, ev_type = ''fill_recorded'',
     ev_payload = [(''quantity'', PStr q), (''price'', PStr p)],
     ev_from_state = None, ev_to_state = None\<rparr>"

definition sample_move :: "string \<Rightarrow> int \<Rightarrow> ParentState \<Rightarrow> LifecycleEvent" where
  "sample_move i n t = \<lparr>ev_id = i, ev_sequence = n, ev_type = ''parent_state_changed'',
     ev_payload = [], ev_from_state = None, ev_to_state = Some t\<rparr>"

definition sample_run :: "LifecycleEvent list" where
  "sample_run = [sample_move ''a'' 1 QUOTING, sample_move ''b'' 2 READY, sample_move ''c'' 3 ACTIVE,
     sample_fill ''d'' 4 ''2'' ''10'']"

definition sample_end :: ExecutionSnapshot where
  "sample_end = \<lparr>sn_parent_order_id = ''p'', sn_state = FILLED, sn_sequence = 4,
     sn_requested_quantity = Some (Dec False 2 0), sn_filled_quantity = Dec False 2 0,
     sn_average_fill_price = Some (Dec False 10 0), sn_applied_event_ids = {''a'', ''b'', ''c'', ''d''},
     sn_applied_fill_keys = {''d''}\<rparr>"

lemma dec_strip_numeral:
  "dec_strip (numeral k) c e =
     (if c mod 10 = 0 then dec_strip (pred_numeral k) (c div 10) (e + 1) else (c, e))"
  by (subst numeral_eq_Suc) (rule dec_strip.simps)

lemmas dec_compute = dec_strip_numeral dec_parse_def dec_unsigned_def dec_exponent_def dec_special_def dec_limits_def
  dec_max_emax_def dec_min_etiny_def strip_def is_space_def is_digit_def digits_val_def char_digit_def
  dec_fix_def dec_prec_def dec_Etop_def dec_Etiny_def dec_Emax_def dec_signed_def dec_zero_def rhe_def
  ndigits.simps pow10_def

lemmas reducer_compute = reduce_event_def reduce_fill_def fill_aggregate_def positive_decimal_def
  fill_key_of_def raw_target_def as_state_def validate_transition_def advance_def jget_def
  TERMINAL_STATES_def initial_snapshot_def

lemma sample_reduce: "reduce_all (initial_snapshot ''p'' (Some (Dec False 2 0))) sample_run = Inr sample_end"
  by (simp add: sample_run_def sample_move_def sample_fill_def sample_end_def reducer_compute dec_compute
      insert_commute)

lemma sample_replay: "replay ''p'' sample_run (Some (Dec False 2 0)) = Inr sample_end"
  using sample_reduce by (simp add: replay_def sort_key_id_if_sorted sample_run_def sample_move_def sample_fill_def)

lemma reduce_all_seen:
  "\<forall>ev\<in>set evs. ev_id ev \<in> sn_applied_event_ids sn \<Longrightarrow> reduce_all sn evs = Inr sn"
  by (induction evs) (simp_all add: reduce_event_def)

lemma reduce_all_ids:
  "reduce_all sn evs = Inr sn' \<Longrightarrow>
   sn_applied_event_ids sn' = sn_applied_event_ids sn \<union> set (map ev_id evs)"
proof (induction evs arbitrary: sn)
  case (Cons ev evs)
  then show ?case using reduce_event_frame(3) by (fastforce simp: monad_simps)
qed simp

subsection \<open>Properties of the reducer\<close>

text \<open>A run of events moves the parent only along \<open>_ALLOWED_TRANSITIONS\<close>, so a
  parent that has reached a terminal state (filled, cancelled, failed, expired) keeps
  that state under every further accepted event.\<close>

theorem lifecycle_terminal_absorbing:
  assumes "reduce_all sn evs = Inr sn'" and "sn_state sn \<in> set TERMINAL_STATES"
  shows "sn_state sn' = sn_state sn"
  using state_steps_terminal [OF reduce_all_steps [OF assms(1)] assms(2)] .

lemma sample_late: "reduce_all sample_end [sample_move ''e'' 5 FILLED] =
  Inr (sample_end\<lparr>sn_sequence := 5, sn_applied_event_ids := insert ''e'' {''a'', ''b'', ''c'', ''d''}\<rparr>)"
  by (simp add: sample_move_def sample_end_def reducer_compute)

theorem lifecycle_terminal_absorbing_witness:
  "sn_state (sample_end\<lparr>sn_sequence := 5, sn_applied_event_ids := insert ''e'' {''a'', ''b'', ''c'', ''d''}\<rparr>) = FILLED"
  using lifecycle_terminal_absorbing [OF sample_late] by (simp add: sample_end_def TERMINAL_STATES_def)

text \<open>Replaying a log of distinct events succeeds only if, in sequence order, the
  events are numbered 1, 2, 3 and so on without a gap; the snapshot then carries the
  length of the log as its sequence and exactly the log's event ids as applied.\<close>

theorem replay_contiguous:
  assumes "replay pid evs req = Inr sn" and "distinct (map ev_id evs)"
  shows "set (map ev_sequence evs) = {1..int (length evs)}
    \<and> sn_sequence sn = int (length evs) \<and> sn_applied_event_ids sn = set (map ev_id evs)"
proof -
  let ?s = "sort_key ev_sequence evs"
  have "distinct (map ev_id ?s)" using assms(2) by (simp add: distinct_map)
  with reduce_all_contiguous [of "initial_snapshot pid req" ?s sn] assms(1)
  have n: "numbered 0 ?s" and rest: "sn_sequence sn = int (length evs)"
      "sn_applied_event_ids sn = set (map ev_id evs)"
    by (simp_all add: replay_def initial_snapshot_def)
  have "set (map ev_sequence ?s) = {1..int (length ?s)}"
    using numbered_range [OF n] by simp
  with rest show ?thesis by simp
qed

theorem replay_contiguous_witness:
  "sn_sequence sample_end = 4 \<and> set (map ev_sequence sample_run) = {1..4}"
  using replay_contiguous [OF sample_replay] by (simp add: sample_run_def sample_move_def sample_fill_def)

text \<open>Replay does not depend on the order in which the events are read back: two
  reads of the same log (as multisets, with unique sequence numbers) give the same
  snapshot, or the same error.\<close>

theorem replay_order_independent:
  assumes "mset evs = mset evs'" and "distinct (map ev_sequence evs)"
  shows "replay pid evs req = replay pid evs' req"
proof -
  have "inj_on ev_sequence (set evs)" using assms(2) by (simp add: distinct_map)
  then have "sort_key ev_sequence evs = sort_key ev_sequence evs'"
    using assms(1) by (intro sort_key_inj_key_eq) simp_all
  then show ?thesis by (simp add: replay_def)
qed

theorem replay_order_independent_witness:
  "replay ''p'' (rev sample_run) (Some (Dec False 2 0)) = Inr sample_end"
  using replay_order_independent [of "rev sample_run" sample_run "''p''" "Some (Dec False 2 0)"]
    sample_replay by (simp add: sample_run_def sample_move_def sample_fill_def)

text \<open>Redelivery is harmless: a run followed by any further copies of events that it
  already contains (same event ids) ends in the same snapshot.\<close>

theorem redelivery_ignored:
  assumes "reduce_all sn evs = Inr sn'" and "set (map ev_id again) \<subseteq> set (map ev_id evs)"
  shows "reduce_all sn (evs @ again) = Inr sn'"
proof -
  have "\<forall>ev\<in>set again. ev_id ev \<in> sn_applied_event_ids sn'"
    using reduce_all_ids [OF assms(1)] assms(2) by auto
  from reduce_all_seen [OF this] show ?thesis using assms(1) by (simp add: reduce_all_append)
qed

theorem redelivery_ignored_witness:
  "reduce_all (initial_snapshot ''p'' (Some (Dec False 2 0))) (sample_run @ rev sample_run) = Inr sample_end"
  using redelivery_ignored [OF sample_reduce, of "rev sample_run"] by simp

text \<open>The fill aggregates stay consistent along any run: the filled quantity never
  decreases, it is a representable non-negative amount, it is zero exactly while there
  is no average price, and the average price is not negative.\<close>

theorem fills_monotone:
  assumes "reduce_all sn evs = Inr sn'" and "fill_inv sn"
  shows "fill_inv sn' \<and> dec_val (sn_filled_quantity sn) \<le> dec_val (sn_filled_quantity sn')"
  using assms
proof (induction evs arbitrary: sn)
  case (Cons ev evs)
  then obtain sn1 where "reduce_event sn ev = Inr sn1" "reduce_all sn1 evs = Inr sn'"
    by (auto simp: monad_simps)
  with Cons.IH Cons.prems(2) reduce_event_fill_inv show ?case by (meson order_trans)
qed simp

theorem fills_monotone_witness:
  "fill_inv sample_end \<and> dec_val dec_zero \<le> dec_val (Dec False 2 0)"
  using fills_monotone [OF sample_reduce fill_inv_initial]
  by (simp add: sample_end_def initial_snapshot_def)

text \<open>C29: Exactly-once accounting: when every fill of a log is a whole number of smallest units and the total of the
  distinct fills is below \<open>10 ^ 28\<close>, replay yields as filled quantity exactly that total, each fill counted
  once per event id and fill key.\<close>

theorem replay_counts_fills_once:
  assumes "replay pid evs req = Inr sn"
    and "\<forall>ev\<in>set evs. ev_type ev = ''fill_recorded'' \<longrightarrow> fill_units ev \<noteq> None"
    and "fill_total {} {} (sort_key ev_sequence evs) < 10 ^ 28"
  shows "sn_filled_quantity sn = Dec False (fill_total {} {} (sort_key ev_sequence evs)) 0"
  using assms reduce_all_units [of "initial_snapshot pid req" "sort_key ev_sequence evs" sn 0]
  by (simp add: replay_def initial_snapshot_def dec_zero_def)

theorem replay_counts_fills_once_witness:
  "sn_filled_quantity sample_end = Dec False 2 0"
proof -
  have units: "\<forall>ev\<in>set sample_run. ev_type ev = ''fill_recorded'' \<longrightarrow> fill_units ev \<noteq> None"
    and total: "fill_total {} {} sample_run = 2" and sorted: "sort_key ev_sequence sample_run = sample_run"
    by (simp_all add: sort_key_id_if_sorted sample_run_def sample_move_def sample_fill_def fill_units_def
        fill_key_of_def jget_def dec_compute)
  show ?thesis
    using replay_counts_fills_once [OF sample_replay units] sorted total by simp
qed

text \<open>A fill completes the parent exactly when it reaches the requested quantity:
  after a fill with a fill key not seen before, the state is filled if the requested
  quantity is at most the new filled quantity, and partial otherwise.\<close>

theorem fill_completes_iff_reached:
  assumes "reduce_event sn ev = Inr sn'" and "ev_type ev = ''fill_recorded''"
    and "ev_id ev \<notin> sn_applied_event_ids sn" and "fill_key_of ev \<notin> sn_applied_fill_keys sn"
    and "sn_requested_quantity sn = Some r" and "dec_finite r" and "fill_inv sn"
  shows "sn_state sn' = (if dec_val r \<le> dec_val (sn_filled_quantity sn') then FILLED else PARTIAL)"
proof -
  from assms(1-3) have "reduce_fill sn ev = Inr sn'" by (auto elim: reduce_event_cases)
  then show ?thesis
  proof (cases rule: reduce_fill_cases)
    case (new q p nq na c)
    have "dec_nonneg nq"
      using new(7) reduce_event_fill_inv(1) [OF assms(7) assms(1)] by (simp add: fill_inv_def)
    with new(5) assms(5,6) have "c = (dec_val r \<le> dec_val nq)"
      by (cases r; cases nq) (auto simp: dec_nonneg_def)
    with new(7) show ?thesis by simp
  qed (use assms(4) in simp)
qed

lemma sample_partial: "reduce_event ((initial_snapshot ''p'' (Some (Dec False 2 0)))\<lparr>sn_state := ACTIVE\<rparr>)
    (sample_fill ''e'' 1 ''1'' ''10'') =
  Inr ((initial_snapshot ''p'' (Some (Dec False 2 0)))\<lparr>sn_state := PARTIAL, sn_sequence := 1,
     sn_filled_quantity := Dec False 1 0, sn_average_fill_price := Some (Dec False 10 0),
     sn_applied_event_ids := {''e''}, sn_applied_fill_keys := {''e''}\<rparr>)"
  by (simp add: sample_fill_def reducer_compute dec_compute)

theorem fill_completes_iff_reached_witness:
  "\<exists>sn'. reduce_event ((initial_snapshot ''p'' (Some (Dec False 2 0)))\<lparr>sn_state := ACTIVE\<rparr>)
     (sample_fill ''e'' 1 ''1'' ''10'') = Inr sn' \<and> sn_state sn' = PARTIAL"
proof -
  have "fill_inv ((initial_snapshot ''p'' (Some (Dec False 2 0)))\<lparr>sn_state := ACTIVE\<rparr>)"
    using fill_inv_initial [of "''p''" "Some (Dec False 2 0)"] by (simp add: fill_inv_def initial_snapshot_def)
  from fill_completes_iff_reached [OF sample_partial _ _ _ _ _ this]
  show ?thesis using sample_partial
    by (simp add: sample_fill_def initial_snapshot_def fill_key_of_def jget_def pow10_def)
qed

lemma dec_add_zero_rounds_down:
  assumes "10 ^ 28 \<le> c" and "c < 10 ^ 29" and "c mod 10 < 5"
  shows "dec_add dec_zero (Dec False c 0) = Inr (Dec False (c div 10) 1)"
proof -
  have n: "ndigits c = 29"
    using ndigits_le_iff [of 28 c] ndigits_le_iff [of 29 c] assms(1,2) by simp
  have q: "rhe c 10 = c div 10" using assms(3) by (simp add: rhe_def Let_def)
  have "\<not> c div 10 < 10 ^ 27" "c div 10 < 10 ^ 28" using assms(1,2) by simp_all
  then have "ndigits (c div 10) \<le> 28" using ndigits_le_iff [of 28 "c div 10"] by simp
  moreover have "c \<noteq> 0" using assms(1) by auto
  ultimately show ?thesis
    by (simp add: dec_zero_def dec_fix_def n q dec_prec_def dec_Etop_def dec_Etiny_def Let_def)
qed

text \<open>Above the decimal precision an exact fill does not complete the order: for an order
  of a 29-digit number of smallest units whose last digit is 1 to 4, a fill of precisely
  the requested quantity is rounded down to 28 digits, stays below the request and leaves
  the parent partial.\<close>

theorem exact_fill_beyond_precision_is_partial:
  assumes "reduce_event sn ev = Inr sn'" and "ev_type ev = ''fill_recorded''"
    and "ev_id ev \<notin> sn_applied_event_ids sn" and "fill_key_of ev \<notin> sn_applied_fill_keys sn"
    and "sn_filled_quantity sn = dec_zero" and "sn_requested_quantity sn = Some (Dec False c 0)"
    and "fill_units ev = Some c" and "10 ^ 28 \<le> c" and "c < 10 ^ 29" and "c mod 10 \<in> {1..4}"
  shows "sn_state sn' = PARTIAL"
proof -
  from assms(1-3) have "reduce_fill sn ev = Inr sn'" by (auto elim: reduce_event_cases)
  then show ?thesis
  proof (cases rule: reduce_fill_cases)
    case (new q p nq na b)
    from new(2) assms(7) have "q = Dec False c 0"
      by (auto simp: fill_units_def positive_decimal_def split: option.splits dec.splits bool.splits if_splits)
    with new(4) assms(5) dec_add_zero_rounds_down [OF assms(8,9)] assms(10) have nq: "nq = Dec False (c div 10) 1"
      by (auto simp: fill_aggregate_def monad_simps)
    have "10 * (c div 10) < c" using assms(10) by (metis atLeastAtMost_iff div_mult_mod_eq less_add_same_cancel1 mult.commute zero_less_one less_le_trans)
    then have "10 * (of_nat (c div 10) :: rat) < of_nat c" by (metis of_nat_less_iff of_nat_mult of_nat_numeral)
    with new(5) assms(6) nq have "\<not> b" by (simp add: pow10_def)
    with new(7) show ?thesis by simp
  qed (use assms(4) in simp)
qed

definition sample_huge :: nat where "sample_huge = 12345678901234567890123456781"

lemma huge_parse: "dec_parse ''12345678901234567890123456781'' = Some (Dec False 12345678901234567890123456781 0)"
  by (simp add: dec_compute)

lemma huge_add: "dec_add dec_zero (Dec False 12345678901234567890123456781 0) = Inr (Dec False 1234567890123456789012345678 1)"
  by (simp add: dec_compute)

lemma huge_mul: "dec_mul (Dec False 12345678901234567890123456781 0) (Dec False 1 0) = Inr (Dec False 1234567890123456789012345678 1)"
  by (simp add: dec_compute)

lemma huge_add2: "dec_add dec_zero (Dec False 1234567890123456789012345678 1) = Inr (Dec False 1234567890123456789012345678 1)"
  by (simp add: dec_compute)

lemma huge_div: "dec_div (Dec False 1234567890123456789012345678 1) (Dec False 1234567890123456789012345678 1) = Inr (Dec False 1 0)"
  by (simp add: dec_compute)

lemma one_parse: "dec_parse ''1'' = Some (Dec False 1 0)"
  by (simp add: dec_compute)

lemmas huge_facts = huge_parse huge_add huge_mul huge_add2 huge_div one_parse

lemma sample_huge_fill:
  "\<exists>sn'. reduce_event ((initial_snapshot ''p'' (Some (Dec False sample_huge 0)))\<lparr>sn_state := ACTIVE\<rparr>)
     (sample_fill ''e'' 1 ''12345678901234567890123456781'' ''1'') = Inr sn'"
  by (simp add: sample_huge_def sample_fill_def reducer_compute huge_facts pow10_def Let_def
      del: One_nat_def dec_add.simps dec_mul.simps dec_div.simps)

theorem exact_fill_beyond_precision_is_partial_witness:
  "\<exists>sn'. reduce_event ((initial_snapshot ''p'' (Some (Dec False sample_huge 0)))\<lparr>sn_state := ACTIVE\<rparr>)
     (sample_fill ''e'' 1 ''12345678901234567890123456781'' ''1'') = Inr sn' \<and> sn_state sn' = PARTIAL"
proof -
  from sample_huge_fill obtain sn' where
    run: "reduce_event ((initial_snapshot ''p'' (Some (Dec False sample_huge 0)))\<lparr>sn_state := ACTIVE\<rparr>)
     (sample_fill ''e'' 1 ''12345678901234567890123456781'' ''1'') = Inr sn'" by blast
  have units: "fill_units (sample_fill ''e'' 1 ''12345678901234567890123456781'' ''1'') = Some sample_huge"
    by (simp add: sample_fill_def fill_units_def sample_huge_def jget_def huge_facts positive_decimal_def)
  have "sn_state sn' = PARTIAL"
    by (rule exact_fill_beyond_precision_is_partial [OF run _ _ _ _ _ units])
      (simp_all add: sample_fill_def initial_snapshot_def sample_huge_def fill_key_of_def jget_def)
  with run show ?thesis by blast
qed

end
