(* ===== verification/ExecModels.thy ===== *)
theory ExecModels
  imports Lifecycle
begin

text \<open>
  The tables of the execution core: \<open>bot/models/execution.py\<close> and the swap row of
  \<open>bot/models/swap.py\<close>.  A table is the list of its rows in insertion order.  A
  nullable column is an option; a JSON column is an association list.  Times are
  integers (seconds).  The columns no code of the modelled services reads or writes
  are left out of the swap row only.
\<close>

type_synonym datetime = int

record ExecutionIntent =
  i_id :: string
  i_user_id :: "int option"
  i_principal_key :: string
  i_idempotency_key :: "string option"
  i_intent_type :: string
  i_side :: "string option"
  i_amount_mode :: "string option"
  i_from_chain :: "string option"
  i_to_chain :: "string option"
  i_from_asset :: "string option"
  i_to_asset :: "string option"
  i_requested_quantity :: "string option"
  i_quantity_asset :: "string option"
  i_requested_notional :: "string option"
  i_constraints_json :: jobj
  i_metadata_json :: jobj
  i_created_at :: datetime
  i_updated_at :: datetime

record ExecutionCandidatePlan =
  k_id :: string
  k_intent_id :: string
  k_ordinal :: int
  k_substrate :: string
  k_provider :: "string option"
  k_strategy :: "string option"
  k_feasible :: bool
  k_rejection_code :: "string option"
  k_expected_to_amount :: "string option"
  k_expected_cost_bps :: "string option"
  k_expected_duration_ms :: "int option"
  k_plan_json :: "jobj option"
  k_cost_json :: "jobj option"
  k_selected :: bool
  k_quote_expires_at :: "datetime option"
  k_created_at :: datetime

record ExecutionParentOrder =
  p_id :: string
  p_intent_id :: string
  p_selected_candidate_id :: "string option"
  p_resubmission_of_parent_id :: "string option"
  p_source_type :: "string option"
  p_source_ref :: "string option"
  p_state :: string
  p_state_version :: int
  p_strategy :: "string option"
  p_authorization_method :: "string option"
  p_requested_quantity :: "string option"
  p_quantity_asset :: "string option"
  p_filled_quantity :: "string option"
  p_average_fill_price :: "string option"
  p_submit_idempotency_key :: "string option"
  p_request_fingerprint :: "string option"
  p_started_at :: "datetime option"
  p_completed_at :: "datetime option"
  p_created_at :: datetime
  p_updated_at :: datetime

record ExecutionChildPlacement =
  c_id :: string
  c_parent_order_id :: string
  c_child_sequence :: int
  c_substrate :: string
  c_provider :: "string option"
  c_venue :: "string option"
  c_chain :: "string option"
  c_side :: "string option"
  c_requested_quantity :: "string option"
  c_quantity_asset :: "string option"
  c_limit_price :: "string option"
  c_state :: string
  c_idempotency_key :: "string option"
  c_request_fingerprint :: "string option"
  c_external_order_id :: "string option"
  c_external_tx_hash :: "string option"
  c_external_intent_id :: "string option"
  c_submitted_at :: "datetime option"
  c_created_at :: datetime
  c_updated_at :: datetime

record ExecutionFill =
  f_id :: string
  f_parent_order_id :: string
  f_child_placement_id :: "string option"
  f_external_source :: string
  f_external_fill_id :: string
  f_quantity :: string
  f_quantity_asset :: "string option"
  f_price :: string
  f_price_asset :: "string option"
  f_input_asset :: "string option"
  f_input_amount :: "string option"
  f_output_asset :: "string option"
  f_output_amount :: "string option"
  f_fee_amount :: "string option"
  f_fee_asset :: "string option"
  f_liquidity_role :: "string option"
  f_metadata_json :: jobj
  f_occurred_at :: datetime
  f_observed_at :: datetime

record ExecutionSettlement =
  s_id :: string
  s_parent_order_id :: string
  s_child_placement_id :: "string option"
  s_settlement_type :: string
  s_external_source :: string
  s_external_ref :: string
  s_state :: string
  s_chain :: "string option"
  s_asset :: "string option"
  s_amount :: "string option"
  s_confirmations :: "int option"
  s_finality_target :: "int option"
  s_recovery_json :: "jobj option"
  s_created_at :: datetime
  s_updated_at :: datetime

record ExecutionEvent =
  e_id :: string
  e_parent_order_id :: string
  e_sequence :: int
  e_event_type :: string
  e_from_state :: "string option"
  e_to_state :: "string option"
  e_payload_json :: jobj
  e_actor_type :: "string option"
  e_actor_id :: "string option"
  e_correlation_id :: "string option"
  e_causation_id :: "string option"
  e_occurred_at :: datetime

text \<open>The outbox message repeats the event; its nested payload is a field of its own.\<close>

record ExecutionOutbox =
  x_id :: string
  x_event_id :: string
  x_topic :: string
  x_payload_json :: jobj
  x_event_payload :: jobj
  x_attempts :: int
  x_published_at :: "datetime option"
  x_next_attempt_at :: "datetime option"
  x_last_error :: "string option"
  x_created_at :: datetime

subsection \<open>The legacy swap row\<close>

datatype SwapStatus =
    PENDING | QUOTE_RECEIVED | AWAITING_APPROVAL | APPROVED | SIGNED | EXECUTING
  | SUBMITTED | CONFIRMING | COMPLETED | SFAILED | SCANCELLED

fun sw_value :: "SwapStatus \<Rightarrow> string" where
  "sw_value PENDING = ''pending''"
| "sw_value QUOTE_RECEIVED = ''quote_received''"
| "sw_value AWAITING_APPROVAL = ''awaiting_approval''"
| "sw_value APPROVED = ''approved''"
| "sw_value SIGNED = ''signed''"
| "sw_value EXECUTING = ''executing''"
| "sw_value SUBMITTED = ''submitted''"
| "sw_value CONFIRMING = ''confirming''"
| "sw_value COMPLETED = ''completed''"
| "sw_value SFAILED = ''failed''"
| "sw_value SCANCELLED = ''cancelled''"

text \<open>Float columns are kept by their printed form, like the floats of a payload.\<close>

record SwapTransaction =
  w_id :: int
  w_user_id :: int
  w_from_chain :: string
  w_from_token :: string
  w_from_amount :: string
  w_to_chain :: string
  w_to_token :: string
  w_to_amount :: "string option"
  w_realized_to_amount :: "string option"
  w_realized_to_amount_usd :: "string option"
  w_status :: string
  w_tx_hash :: "string option"
  w_destination_tx_hash :: "string option"
  w_idempotency_key :: "string option"
  w_route_provider :: "string option"
  w_gas_fee :: "string option"
  w_bridge_fee :: "string option"
  w_slippage :: "int option"
  w_updated_at :: "datetime option"
  w_completed_at :: "datetime option"
  w_error_category :: "string option"

subsection \<open>The database\<close>

text \<open>
  One session state.  \<open>db_draws\<close> counts the random identifiers drawn so far; the
  source of randomness, the name-based identifier function and the clock are given
  by an environment.  The clock is read once per handler.
\<close>

record ExecDB =
  db_intents :: "ExecutionIntent list"
  db_candidates :: "ExecutionCandidatePlan list"
  db_parents :: "ExecutionParentOrder list"
  db_children :: "ExecutionChildPlacement list"
  db_fills :: "ExecutionFill list"
  db_settlements :: "ExecutionSettlement list"
  db_events :: "ExecutionEvent list"
  db_outbox :: "ExecutionOutbox list"
  db_swaps :: "SwapTransaction list"
  db_draws :: nat

record env =
  uuid4 :: "nat \<Rightarrow> string"
  uuid5 :: "string \<Rightarrow> string"
  now :: datetime

definition empty_db :: ExecDB where
  "empty_db = \<lparr>db_intents = [], db_candidates = [], db_parents = [], db_children = [],
     db_fills = [], db_settlements = [], db_events = [], db_outbox = [], db_swaps = [], db_draws = 0\<rparr>"

definition draw :: "env \<Rightarrow> ExecDB \<Rightarrow> string \<times> ExecDB" where
  "draw env db = (uuid4 env (db_draws db), db\<lparr>db_draws := Suc (db_draws db)\<rparr>)"

text \<open>
  Unique constraints.  An insert that violates one raises IntegrityError at the
  flush; \<open>None\<close> in a unique column never conflicts.
\<close>

datatype exec_error =
    ExecutionStoreError
  | ParentNotFoundError
  | LegacySwapProjectionError
  | LifecycleFault lifecycle_error
  | DecimalFault dec_signal
  | UnknownStateValue
  | IntegrityError

definition insert_parent_rows ::
  "ExecutionIntent \<Rightarrow> ExecutionCandidatePlan \<Rightarrow> ExecutionParentOrder \<Rightarrow> ExecDB \<Rightarrow> exec_error + ExecDB" where
  "insert_parent_rows i k p db =
     (if (\<exists>r\<in>set (db_intents db). i_id r = i_id i \<or>
            (i_principal_key r = i_principal_key i \<and> i_idempotency_key i \<noteq> None
               \<and> i_idempotency_key r = i_idempotency_key i))
       \<or> (\<exists>r\<in>set (db_candidates db). k_id r = k_id k \<or>
            (k_intent_id r = k_intent_id k \<and> k_ordinal r = k_ordinal k))
       \<or> (\<exists>r\<in>set (db_parents db). p_id r = p_id p \<or>
            (p_intent_id r = p_intent_id p \<and> p_submit_idempotency_key p \<noteq> None
               \<and> p_submit_idempotency_key r = p_submit_idempotency_key p) \<or>
            (p_source_type p \<noteq> None \<and> p_source_ref p \<noteq> None
               \<and> p_source_type r = p_source_type p \<and> p_source_ref r = p_source_ref p))
      then Inl IntegrityError
      else Inr (db\<lparr>db_intents := db_intents db @ [i], db_candidates := db_candidates db @ [k],
                   db_parents := db_parents db @ [p]\<rparr>))"

definition insert_fill :: "ExecutionFill \<Rightarrow> ExecDB \<Rightarrow> exec_error + ExecDB" where
  "insert_fill f db =
     (if \<exists>r\<in>set (db_fills db). f_id r = f_id f \<or>
           (f_external_source r = f_external_source f \<and> f_external_fill_id r = f_external_fill_id f)
      then Inl IntegrityError
      else Inr (db\<lparr>db_fills := db_fills db @ [f]\<rparr>))"

definition insert_event :: "ExecutionEvent \<Rightarrow> ExecutionOutbox \<Rightarrow> ExecDB \<Rightarrow> exec_error + ExecDB" where
  "insert_event r x db =
     (if (\<exists>q\<in>set (db_events db). e_id q = e_id r \<or>
           (e_parent_order_id q = e_parent_order_id r \<and> e_sequence q = e_sequence r))
       \<or> (\<exists>y\<in>set (db_outbox db). x_id y = x_id x \<or> x_event_id y = x_event_id x)
      then Inl IntegrityError
      else Inr (db\<lparr>db_events := db_events db @ [r], db_outbox := db_outbox db @ [x]\<rparr>))"

definition insert_child :: "ExecutionChildPlacement \<Rightarrow> ExecDB \<Rightarrow> exec_error + ExecDB" where
  "insert_child c db =
     (if \<exists>r\<in>set (db_children db). c_id r = c_id c \<or>
           (c_parent_order_id r = c_parent_order_id c \<and> c_child_sequence r = c_child_sequence c) \<or>
           (c_provider c \<noteq> None \<and> c_external_order_id c \<noteq> None \<and> c_provider r = c_provider c
              \<and> c_external_order_id r = c_external_order_id c)
      then Inl IntegrityError
      else Inr (db\<lparr>db_children := db_children db @ [c]\<rparr>))"

definition insert_settlement :: "ExecutionSettlement \<Rightarrow> ExecDB \<Rightarrow> exec_error + ExecDB" where
  "insert_settlement s db =
     (if \<exists>r\<in>set (db_settlements db). s_id r = s_id s \<or>
           (s_external_source r = s_external_source s \<and> s_external_ref r = s_external_ref s
              \<and> s_settlement_type r = s_settlement_type s)
      then Inl IntegrityError
      else Inr (db\<lparr>db_settlements := db_settlements db @ [s]\<rparr>))"

definition put_parent :: "ExecutionParentOrder \<Rightarrow> ExecDB \<Rightarrow> ExecDB" where
  "put_parent p db = db\<lparr>db_parents := upd_where (\<lambda>r. p_id r = p_id p) (\<lambda>_. p) (db_parents db)\<rparr>"

definition put_child :: "ExecutionChildPlacement \<Rightarrow> ExecDB \<Rightarrow> ExecDB" where
  "put_child c db = db\<lparr>db_children := upd_where (\<lambda>r. c_id r = c_id c) (\<lambda>_. c) (db_children db)\<rparr>"

definition put_settlement :: "ExecutionSettlement \<Rightarrow> ExecDB \<Rightarrow> ExecDB" where
  "put_settlement s db = db\<lparr>db_settlements := upd_where (\<lambda>r. s_id r = s_id s) (\<lambda>_. s) (db_settlements db)\<rparr>"

definition put_swap :: "SwapTransaction \<Rightarrow> ExecDB \<Rightarrow> ExecDB" where
  "put_swap w db = db\<lparr>db_swaps := upd_where (\<lambda>r. w_id r = w_id w) (\<lambda>_. w) (db_swaps db)\<rparr>"

subsection \<open>What an update touches\<close>

lemma put_simps [simp]:
  "db_events (put_parent p db) = db_events db" "db_fills (put_parent p db) = db_fills db"
  "db_outbox (put_parent p db) = db_outbox db" "db_children (put_parent p db) = db_children db"
  "db_settlements (put_parent p db) = db_settlements db" "db_swaps (put_parent p db) = db_swaps db"
  "db_intents (put_parent p db) = db_intents db" "db_candidates (put_parent p db) = db_candidates db"
  "db_draws (put_parent p db) = db_draws db"
  "db_parents (put_parent p db) = upd_where (\<lambda>r. p_id r = p_id p) (\<lambda>_. p) (db_parents db)"
  "db_parents (put_child c db) = db_parents db" "db_events (put_child c db) = db_events db"
  "db_fills (put_child c db) = db_fills db" "db_outbox (put_child c db) = db_outbox db"
  "db_settlements (put_child c db) = db_settlements db" "db_swaps (put_child c db) = db_swaps db"
  "db_parents (put_settlement s db) = db_parents db" "db_events (put_settlement s db) = db_events db"
  "db_fills (put_settlement s db) = db_fills db" "db_outbox (put_settlement s db) = db_outbox db"
  "db_children (put_settlement s db) = db_children db" "db_swaps (put_settlement s db) = db_swaps db"
  "db_parents (put_swap w db) = db_parents db" "db_events (put_swap w db) = db_events db"
  "db_fills (put_swap w db) = db_fills db" "db_outbox (put_swap w db) = db_outbox db"
  "db_children (put_swap w db) = db_children db" "db_settlements (put_swap w db) = db_settlements db"
  by (simp_all add: put_parent_def put_child_def put_settlement_def put_swap_def)

end
