(* ===== verification/ExecStore.thy ===== *)
theory ExecStore
  imports ExecModels
begin

text \<open>
  \<open>bot/services/execution_store.py\<close>: the single write path of the execution tables.
  Each method runs inside the caller's transaction and holds the parent row lock, so
  it is one atomic step on the database; a raise rolls the step back.  The central
  fact is a refinement: every parent row is the replay of that parent's event log.
\<close>

subsection \<open>Snapshots of parent rows\<close>

definition decimal_or_none :: "string option \<Rightarrow> exec_error + dec option" where
  "decimal_or_none v =
     (case v of
        None \<Rightarrow> Inr None
      | Some s \<Rightarrow> (case dec_parse s of None \<Rightarrow> Inl ExecutionStoreError | Some d \<Rightarrow> Inr (Some d)))"

definition decimal_or_zero :: "dec option \<Rightarrow> dec" where
  "decimal_or_zero v = (case v of None \<Rightarrow> dec_zero | Some d \<Rightarrow> if dec_true d then d else dec_zero)"

definition parent_state :: "ExecutionParentOrder \<Rightarrow> exec_error + ParentState" where
  "parent_state p = (case ps_of_value (p_state p) of None \<Rightarrow> Inl UnknownStateValue | Some s \<Rightarrow> Inr s)"

definition snapshot_from_parent :: "ExecutionParentOrder \<Rightarrow> exec_error + ExecutionSnapshot" where
  "snapshot_from_parent p =
     bindE (parent_state p) (\<lambda>state.
     bindE (decimal_or_none (p_requested_quantity p)) (\<lambda>requested.
     bindE (decimal_or_none (p_filled_quantity p)) (\<lambda>filled.
     bindE (decimal_or_none (p_average_fill_price p)) (\<lambda>average.
     Inr \<lparr>sn_parent_order_id = p_id p, sn_state = state, sn_sequence = p_state_version p,
          sn_requested_quantity = requested, sn_filled_quantity = decimal_or_zero filled,
          sn_average_fill_price = average, sn_applied_event_ids = {}, sn_applied_fill_keys = {}\<rparr>))))"

subsection \<open>Creating the parent of a legacy row\<close>

record EnsureArgs =
  n_source_type :: string
  n_source_ref :: string
  n_principal_key :: string
  n_intent_type :: string
  n_substrate :: string
  n_provider :: "string option"
  n_user_id :: "int option"
  n_side :: "string option"
  n_amount_mode :: "string option"
  n_from_chain :: "string option"
  n_to_chain :: "string option"
  n_from_asset :: "string option"
  n_to_asset :: "string option"
  n_requested_quantity :: "string option"
  n_quantity_asset :: "string option"
  n_requested_notional :: "string option"
  n_idempotency_key :: "string option"
  n_constraints :: jobj
  n_metadata :: jobj

definition find_source :: "string \<Rightarrow> string \<Rightarrow> ExecDB \<Rightarrow> ExecutionParentOrder option" where
  "find_source ty ref db =
     List.find (\<lambda>p. p_source_type p = Some ty \<and> p_source_ref p = Some ref) (db_parents db)"

definition new_intent :: "env \<Rightarrow> EnsureArgs \<Rightarrow> string \<Rightarrow> ExecutionIntent" where
  "new_intent env a iid =
     \<lparr>i_id = iid, i_user_id = n_user_id a, i_principal_key = n_principal_key a,
      i_idempotency_key = n_idempotency_key a, i_intent_type = n_intent_type a, i_side = n_side a,
      i_amount_mode = n_amount_mode a, i_from_chain = n_from_chain a, i_to_chain = n_to_chain a,
      i_from_asset = n_from_asset a, i_to_asset = n_to_asset a,
      i_requested_quantity = n_requested_quantity a, i_quantity_asset = n_quantity_asset a,
      i_requested_notional = n_requested_notional a, i_constraints_json = n_constraints a,
      i_metadata_json = n_metadata a, i_created_at = now env, i_updated_at = now env\<rparr>"

definition new_candidate :: "env \<Rightarrow> EnsureArgs \<Rightarrow> string \<Rightarrow> string \<Rightarrow> ExecutionCandidatePlan" where
  "new_candidate env a iid kid =
     \<lparr>k_id = kid, k_intent_id = iid, k_ordinal = 0, k_substrate = n_substrate a,
      k_provider = n_provider a, k_strategy = None, k_feasible = True, k_rejection_code = None,
      k_expected_to_amount = None, k_expected_cost_bps = None, k_expected_duration_ms = None,
      k_plan_json = None, k_cost_json = None, k_selected = True, k_quote_expires_at = None,
      k_created_at = now env\<rparr>"

definition new_parent :: "env \<Rightarrow> EnsureArgs \<Rightarrow> string \<Rightarrow> string \<Rightarrow> string \<Rightarrow> ExecutionParentOrder" where
  "new_parent env a iid kid pid =
     \<lparr>p_id = pid, p_intent_id = iid, p_selected_candidate_id = Some kid,
      p_resubmission_of_parent_id = None, p_source_type = Some (strip (n_source_type a)),
      p_source_ref = Some (strip (n_source_ref a)), p_state = ps_value DRAFT, p_state_version = 0,
      p_strategy = None, p_authorization_method = None,
      p_requested_quantity = n_requested_quantity a, p_quantity_asset = n_quantity_asset a,
      p_filled_quantity = Some ''0'', p_average_fill_price = None,
      p_submit_idempotency_key = n_idempotency_key a, p_request_fingerprint = None,
      p_started_at = None, p_completed_at = None, p_created_at = now env, p_updated_at = now env\<rparr>"

text \<open>
  \<open>between\<close> is what other sessions commit between the first lookup and the flush;
  the loser of a creation race reads the winner's row.
\<close>

definition ensure_legacy_parent_racing ::
  "env \<Rightarrow> (ExecDB \<Rightarrow> ExecDB) \<Rightarrow> EnsureArgs \<Rightarrow> ExecDB \<Rightarrow> exec_error + (ExecutionParentOrder \<times> ExecDB)" where
  "ensure_legacy_parent_racing env between a db =
     (let source_type = strip (n_source_type a); source_ref = strip (n_source_ref a) in
      if source_type = [] \<or> source_ref = [] then Inl ExecutionStoreError
      else case find_source source_type source_ref db of
             Some p \<Rightarrow> Inr (p, db)
           | None \<Rightarrow>
               let db0 = between db;
                   (intent_id, db1) = draw env db0;
                   (candidate_id, db2) = draw env db1;
                   (parent_id, db3) = draw env db2;
                   parent = new_parent env a intent_id candidate_id parent_id
               in case insert_parent_rows (new_intent env a intent_id)
                         (new_candidate env a intent_id candidate_id) parent db3 of
                    Inr db' \<Rightarrow> Inr (parent, db')
                  | Inl e \<Rightarrow> (case find_source source_type source_ref db3 of
                               Some p \<Rightarrow> Inr (p, db3)
                             | None \<Rightarrow> Inl e))"

definition ensure_legacy_parent ::
  "env \<Rightarrow> EnsureArgs \<Rightarrow> ExecDB \<Rightarrow> exec_error + (ExecutionParentOrder \<times> ExecDB)" where
  "ensure_legacy_parent env = ensure_legacy_parent_racing env (\<lambda>db. db)"

subsection \<open>Appending an event\<close>

record AppendArgs =
  a_parent_order_id :: string
  a_event_type :: string
  a_event_id :: "string option"
  a_payload :: jobj
  a_from_state :: "ParentState option"
  a_to_state :: "ParentState option"
  a_actor_type :: "string option"
  a_actor_id :: "string option"
  a_correlation_id :: "string option"
  a_causation_id :: "string option"
  a_topic :: string
  a_occurred_at :: "datetime option"

definition append_defaults :: "string \<Rightarrow> string \<Rightarrow> AppendArgs" where
  "append_defaults pid ty =
     \<lparr>a_parent_order_id = pid, a_event_type = ty, a_event_id = None, a_payload = [],
      a_from_state = None, a_to_state = None, a_actor_type = None, a_actor_id = None,
      a_correlation_id = None, a_causation_id = None, a_topic = ''execution.lifecycle'',
      a_occurred_at = None\<rparr>"

definition find_parent :: "string \<Rightarrow> ExecDB \<Rightarrow> ExecutionParentOrder option" where
  "find_parent pid db = List.find (\<lambda>p. p_id p = pid) (db_parents db)"

definition find_event :: "string \<Rightarrow> ExecDB \<Rightarrow> ExecutionEvent option" where
  "find_event eid db = List.find (\<lambda>r. e_id r = eid) (db_events db)"

definition event_row :: "env \<Rightarrow> AppendArgs \<Rightarrow> string \<Rightarrow> int \<Rightarrow> ExecutionEvent" where
  "event_row env a eid n =
     \<lparr>e_id = eid, e_parent_order_id = a_parent_order_id a, e_sequence = n,
      e_event_type = a_event_type a, e_from_state = map_option ps_value (a_from_state a),
      e_to_state = map_option ps_value (a_to_state a), e_payload_json = a_payload a,
      e_actor_type = a_actor_type a, e_actor_id = a_actor_id a,
      e_correlation_id = a_correlation_id a, e_causation_id = a_causation_id a,
      e_occurred_at = (case a_occurred_at a of Some t \<Rightarrow> t | None \<Rightarrow> now env)\<rparr>"

definition opt_val :: "string option \<Rightarrow> pyval" where
  "opt_val v = (case v of None \<Rightarrow> PNone | Some s \<Rightarrow> PStr s)"

definition outbox_row :: "env \<Rightarrow> AppendArgs \<Rightarrow> ExecutionEvent \<Rightarrow> string \<Rightarrow> ExecutionOutbox" where
  "outbox_row env a r oid =
     \<lparr>x_id = oid, x_event_id = e_id r, x_topic = a_topic a,
      x_payload_json = [(''event_id'', PStr (e_id r)), (''parent_order_id'', PStr (e_parent_order_id r)),
        (''sequence'', PInt (e_sequence r)), (''event_type'', PStr (e_event_type r)),
        (''from_state'', opt_val (e_from_state r)), (''to_state'', opt_val (e_to_state r))],
      x_event_payload = a_payload a, x_attempts = 0, x_published_at = None,
      x_next_attempt_at = None, x_last_error = None, x_created_at = now env\<rparr>"

text \<open>The parent row that carries the next snapshot.\<close>

definition materialize :: "env \<Rightarrow> ExecutionSnapshot \<Rightarrow> ExecutionParentOrder \<Rightarrow> ExecutionParentOrder" where
  "materialize env sn p =
     p\<lparr>p_state := ps_value (sn_state sn), p_state_version := sn_sequence sn,
       p_filled_quantity := Some (dec_str (sn_filled_quantity sn)),
       p_average_fill_price := map_option dec_str (sn_average_fill_price sn),
       p_updated_at := now env,
       p_completed_at := (if sn_state sn \<in> {FILLED, CANCELLED, FAILED, EXPIRED}
          then (case p_completed_at p of Some t \<Rightarrow> Some t | None \<Rightarrow> Some (now env))
          else p_completed_at p)\<rparr>"

definition lifecycle_event :: "AppendArgs \<Rightarrow> string \<Rightarrow> int \<Rightarrow> LifecycleEvent" where
  "lifecycle_event a eid n =
     \<lparr>ev_id = eid, ev_sequence = n, ev_type = a_event_type a, ev_payload = a_payload a,
      ev_from_state = a_from_state a, ev_to_state = a_to_state a\<rparr>"

definition append_to_parent ::
  "env \<Rightarrow> AppendArgs \<Rightarrow> string \<Rightarrow> ExecutionParentOrder \<Rightarrow> ExecDB \<Rightarrow> exec_error + (ExecutionEvent \<times> ExecDB)" where
  "append_to_parent env a event_id parent db =
     bindE (snapshot_from_parent parent) (\<lambda>current.
     let event = lifecycle_event a event_id (sn_sequence current + 1) in
     bindE (mapErr LifecycleFault (reduce_event current event)) (\<lambda>next_snapshot.
     let row = event_row env a event_id (ev_sequence event);
         (outbox_id, db1) = draw env db;
         db2 = put_parent (materialize env next_snapshot parent) db1
     in bindE (insert_event row (outbox_row env a row outbox_id) db2) (\<lambda>db'. Inr (row, db'))))"

definition append_event :: "env \<Rightarrow> AppendArgs \<Rightarrow> ExecDB \<Rightarrow> exec_error + (ExecutionEvent \<times> ExecDB)" where
  "append_event env a db =
     (let (event_id, db0) = (if truthy (a_event_id a) then (the (a_event_id a), db) else draw env db) in
      case find_parent (a_parent_order_id a) db0 of
        None \<Rightarrow> Inl ParentNotFoundError
      | Some parent \<Rightarrow>
          (case find_event event_id db0 of
             Some duplicate \<Rightarrow>
               if e_parent_order_id duplicate \<noteq> p_id parent then Inl ExecutionStoreError
               else Inr (duplicate, db0)
           | None \<Rightarrow> append_to_parent env a event_id parent db0))"

subsection \<open>Recording a fill\<close>

record FillArgs =
  g_parent_order_id :: string
  g_external_source :: string
  g_external_fill_id :: string
  g_quantity :: string
  g_price :: string
  g_occurred_at :: datetime
  g_child_placement_id :: "string option"
  g_quantity_asset :: "string option"
  g_price_asset :: "string option"
  g_input_asset :: "string option"
  g_input_amount :: "string option"
  g_output_asset :: "string option"
  g_output_amount :: "string option"
  g_fee_amount :: "string option"
  g_fee_asset :: "string option"
  g_liquidity_role :: "string option"
  g_metadata :: jobj

definition find_fill :: "string \<Rightarrow> string \<Rightarrow> ExecDB \<Rightarrow> ExecutionFill option" where
  "find_fill src fid db =
     List.find (\<lambda>f. f_external_source f = src \<and> f_external_fill_id f = fid) (db_fills db)"

definition fill_row :: "env \<Rightarrow> FillArgs \<Rightarrow> string \<Rightarrow> string \<Rightarrow> string \<Rightarrow> string \<Rightarrow> ExecutionFill" where
  "fill_row env g rid pid src fid =
     \<lparr>f_id = rid, f_parent_order_id = pid, f_child_placement_id = g_child_placement_id g,
      f_external_source = src, f_external_fill_id = fid, f_quantity = g_quantity g,
      f_quantity_asset = g_quantity_asset g, f_price = g_price g, f_price_asset = g_price_asset g,
      f_input_asset = g_input_asset g, f_input_amount = g_input_amount g,
      f_output_asset = g_output_asset g, f_output_amount = g_output_amount g,
      f_fee_amount = g_fee_amount g, f_fee_asset = g_fee_asset g,
      f_liquidity_role = g_liquidity_role g, f_metadata_json = g_metadata g,
      f_occurred_at = g_occurred_at g, f_observed_at = now env\<rparr>"

text \<open>The identity of a fill: its key in the log and the name its event id is made from.\<close>

definition fill_identity :: "string \<Rightarrow> string \<Rightarrow> string" where
  "fill_identity src fid = src @ '':'' @ fid"

definition fill_event_id :: "env \<Rightarrow> string \<Rightarrow> string" where
  "fill_event_id env k = uuid5 env (''suwappu:execution-fill:'' @ k)"

definition fill_event :: "env \<Rightarrow> FillArgs \<Rightarrow> string \<Rightarrow> string \<Rightarrow> string \<Rightarrow> string \<Rightarrow> AppendArgs" where
  "fill_event env g rid pid src fid =
     (append_defaults pid ''fill_recorded'')
       \<lparr>a_event_id := Some (fill_event_id env (fill_identity src fid)),
        a_payload := [(''fill_key'', PStr (fill_identity src fid)), (''fill_id'', PStr rid),
          (''quantity'', PStr (g_quantity g)), (''price'', PStr (g_price g))],
        a_correlation_id := Some fid\<rparr>"

definition record_fill :: "env \<Rightarrow> FillArgs \<Rightarrow> ExecDB \<Rightarrow> exec_error + (ExecutionFill \<times> ExecDB)" where
  "record_fill env g db =
     (let src = strip (g_external_source g); fid = strip (g_external_fill_id g) in
      if src = [] \<or> fid = [] then Inl ExecutionStoreError
      else case find_parent (g_parent_order_id g) db of
             None \<Rightarrow> Inl ParentNotFoundError
           | Some parent \<Rightarrow>
               (case find_fill src fid db of
                  Some existing \<Rightarrow>
                    if f_parent_order_id existing \<noteq> p_id parent then Inl ExecutionStoreError
                    else Inr (existing, db)
                | None \<Rightarrow>
                    let (rid, db1) = draw env db;
                        fill = fill_row env g rid (p_id parent) src fid
                    in bindE (insert_fill fill db1) (\<lambda>db2.
                       bindE (append_event env (fill_event env g rid (p_id parent) src fid) db2) (\<lambda>(_, db').
                       Inr (fill, db')))))"

subsection \<open>The row as a snapshot without its history\<close>

text \<open>
  The store keeps neither the applied event ids nor the fill keys in the row: the
  snapshot it reduces from has forgotten them, and the tables stand in for them.
\<close>

definition forget :: "ExecutionSnapshot \<Rightarrow> ExecutionSnapshot" where
  "forget sn = sn\<lparr>sn_applied_event_ids := {}, sn_applied_fill_keys := {}\<rparr>"

lemma forget_simps [simp]:
  "sn_parent_order_id (forget sn) = sn_parent_order_id sn" "sn_state (forget sn) = sn_state sn"
  "sn_sequence (forget sn) = sn_sequence sn" "sn_requested_quantity (forget sn) = sn_requested_quantity sn"
  "sn_filled_quantity (forget sn) = sn_filled_quantity sn"
  "sn_average_fill_price (forget sn) = sn_average_fill_price sn"
  "sn_applied_event_ids (forget sn) = {}" "sn_applied_fill_keys (forget sn) = {}"
  by (simp_all add: forget_def)

lemma map_sum_bindE: "map_sum id f (bindE m g) = bindE m (\<lambda>x. map_sum id f (g x))"
  by (cases m) simp_all

lemma forget_advance: "forget ((advance (forget sn) ev)\<lparr>sn_state := t\<rparr>) = forget ((advance sn ev)\<lparr>sn_state := t\<rparr>)"
  by (simp add: forget_def advance_def)

lemma forget_advance0: "forget (advance (forget sn) ev) = forget (advance sn ev)"
  by (simp add: forget_def advance_def)

lemma fill_aggregate_forget [simp]: "fill_aggregate (forget sn) = fill_aggregate sn"
  by (simp add: fill_aggregate_def fun_eq_iff cong: option.case_cong)

lemma reduce_fill_forget:
  assumes "fill_key_of ev \<notin> sn_applied_fill_keys sn"
  shows "map_sum id forget (reduce_fill (forget sn) ev) = map_sum id forget (reduce_fill sn ev)"
proof -
  have upd: "forget ((advance sn' ev)\<lparr>sn_state := t, sn_filled_quantity := q,
        sn_average_fill_price := a, sn_applied_fill_keys := K\<rparr>)
      = (advance sn' ev)\<lparr>sn_state := t, sn_filled_quantity := q, sn_average_fill_price := a,
          sn_applied_event_ids := {}, sn_applied_fill_keys := {}\<rparr>" for sn' t q a K
    by (simp add: forget_def)
  have same: "(advance (forget sn) ev)\<lparr>sn_state := t, sn_filled_quantity := q, sn_average_fill_price := a,
          sn_applied_event_ids := {}, sn_applied_fill_keys := {}\<rparr>
      = (advance sn ev)\<lparr>sn_state := t, sn_filled_quantity := q, sn_average_fill_price := a,
          sn_applied_event_ids := {}, sn_applied_fill_keys := {}\<rparr>" for t q a
    by (simp add: forget_def advance_def)
  show ?thesis
    using assms by (simp add: reduce_fill_def Let_def map_sum_bindE case_prod_beta upd same cong: if_cong)
qed

lemma reduce_event_forget:
  assumes "ev_id ev \<notin> sn_applied_event_ids sn"
    and "ev_type ev = ''fill_recorded'' \<Longrightarrow> fill_key_of ev \<notin> sn_applied_fill_keys sn"
  shows "map_sum id forget (reduce_event (forget sn) ev) = map_sum id forget (reduce_event sn ev)"
proof (cases "ev_type ev = ''fill_recorded''")
  case True
  with assms reduce_fill_forget [OF assms(2)] show ?thesis by (simp add: reduce_event_def)
next
  case False
  with assms(1) show ?thesis
    by (simp add: reduce_event_def map_sum_bindE forget_advance forget_advance0)
qed

subsection \<open>The log of a parent and the row it determines\<close>

definition event_of_row :: "ExecutionEvent \<Rightarrow> LifecycleEvent" where
  "event_of_row r = \<lparr>ev_id = e_id r, ev_sequence = e_sequence r, ev_type = e_event_type r,
     ev_payload = e_payload_json r, ev_from_state = Option.bind (e_from_state r) ps_of_value,
     ev_to_state = Option.bind (e_to_state r) ps_of_value\<rparr>"

definition log_of :: "string \<Rightarrow> ExecDB \<Rightarrow> LifecycleEvent list" where
  "log_of pid db = map event_of_row (filter (\<lambda>r. e_parent_order_id r = pid) (db_events db))"

definition row_matches :: "ExecutionParentOrder \<Rightarrow> ExecutionSnapshot \<Rightarrow> bool" where
  "row_matches p sn = (p_state p = ps_value (sn_state sn) \<and> p_state_version p = sn_sequence sn
     \<and> p_filled_quantity p = Some (dec_str (sn_filled_quantity sn))
     \<and> p_average_fill_price p = map_option dec_str (sn_average_fill_price sn)
     \<and> (p_completed_at p \<noteq> None \<longleftrightarrow> sn_state sn \<in> set TERMINAL_STATES))"

text \<open>
  A parent whose requested quantity does not parse can never get an event: its log
  stays empty.
\<close>

definition is_replay :: "ExecutionParentOrder \<Rightarrow> LifecycleEvent list \<Rightarrow> bool" where
  "is_replay p evs =
     (case decimal_or_none (p_requested_quantity p) of
        Inl _ \<Rightarrow> evs = []
      | Inr req \<Rightarrow>
          (case reduce_all (initial_snapshot (p_id p) req) evs of
             Inl _ \<Rightarrow> False | Inr sn \<Rightarrow> row_matches p sn))"

definition fill_event_named :: "env \<Rightarrow> LifecycleEvent \<Rightarrow> bool" where
  "fill_event_named env ev = (ev_type ev = ''fill_recorded'' \<longrightarrow>
     (case jget (ev_payload ev) ''fill_key'' of
        PStr k \<Rightarrow> k \<noteq> [] \<and> ev_id ev = fill_event_id env k | _ \<Rightarrow> False))"

definition store_inv :: "env \<Rightarrow> ExecDB \<Rightarrow> bool" where
  "store_inv env db = (distinct (map p_id (db_parents db)) \<and> distinct (map e_id (db_events db))
     \<and> (\<forall>r\<in>set (db_events db). e_parent_order_id r \<in> p_id ` set (db_parents db))
     \<and> (\<forall>r\<in>set (db_events db). fill_event_named env (event_of_row r))
     \<and> (\<forall>p\<in>set (db_parents db). is_replay p (log_of (p_id p) db))
     \<and> map x_event_id (db_outbox db) = map e_id (db_events db))"

lemma event_of_event_row [simp]: "event_of_row (event_row env a eid n) = lifecycle_event a eid n"
  by (cases "a_from_state a"; cases "a_to_state a")
    (simp_all add: event_of_row_def event_row_def lifecycle_event_def)

lemma fill_event_named_key:
  "fill_event_named env ev \<Longrightarrow> ev_type ev = ''fill_recorded'' \<Longrightarrow>
   ev_id ev = fill_event_id env (fill_key_of ev)"
  by (auto simp: fill_event_named_def fill_key_of_def Let_def split: pyval.splits)

lemma reduce_fill_keys: "reduce_fill sn ev = Inr sn' \<Longrightarrow>
  sn_applied_fill_keys sn' \<subseteq> insert (fill_key_of ev) (sn_applied_fill_keys sn)"
  by (elim reduce_fill_cases) auto

lemma reduce_all_keys:
  "reduce_all sn evs = Inr sn' \<Longrightarrow> sn_applied_fill_keys sn' \<subseteq>
     sn_applied_fill_keys sn \<union> {fill_key_of ev |ev. ev \<in> set evs \<and> ev_type ev = ''fill_recorded''}"
proof (induction evs arbitrary: sn)
  case (Cons ev evs)
  then obtain sn1 where step: "reduce_event sn ev = Inr sn1" and rest: "reduce_all sn1 evs = Inr sn'"
    by (auto simp: monad_simps)
  from step have "sn_applied_fill_keys sn1 \<subseteq> sn_applied_fill_keys sn \<union>
      (if ev_type ev = ''fill_recorded'' then {fill_key_of ev} else {})"
    by (cases rule: reduce_event_cases) (auto dest: reduce_fill_keys)
  with Cons.IH [OF rest] show ?case by (fastforce split: if_splits)
qed simp

lemma snapshot_from_matching:
  assumes "row_matches p sn" and "decimal_or_none (p_requested_quantity p) = Inr (sn_requested_quantity sn)"
    and "sn_parent_order_id sn = p_id p" and "fill_inv sn"
  shows "snapshot_from_parent p = Inr (forget sn)"
proof -
  have wf: "dec_wf (sn_filled_quantity sn)" "\<forall>a. sn_average_fill_price sn = Some a \<longrightarrow> dec_wf a"
    using assms(4) by (auto simp: fill_inv_def dec_nonneg_def split: option.splits)
  have zero: "decimal_or_zero (Some (sn_filled_quantity sn)) = sn_filled_quantity sn"
    using assms(4) by (auto simp: fill_inv_def decimal_or_zero_def split: option.splits)
  have avg: "decimal_or_none (map_option dec_str (sn_average_fill_price sn)) = Inr (sn_average_fill_price sn)"
    using wf(2) by (cases "sn_average_fill_price sn") (simp_all add: decimal_or_none_def dec_wf_roundtrip)
  show ?thesis
    using assms(1-3) wf(1) zero avg
    by (simp add: snapshot_from_parent_def row_matches_def parent_state_def forget_def dec_wf_roundtrip)
      (simp add: decimal_or_none_def dec_wf_roundtrip)
qed

lemma log_of_named: "store_inv env db \<Longrightarrow> ev \<in> set (log_of pid db) \<Longrightarrow> fill_event_named env ev"
  by (auto simp: store_inv_def log_of_def)

lemma log_of_ids: "ev \<in> set (log_of pid db) \<Longrightarrow> ev_id ev \<in> e_id ` set (db_events db)"
  by (auto simp: log_of_def event_of_row_def)

text \<open>Appending to the log and reducing from the row stay in step.\<close>

lemma append_replay:
  assumes inv: "store_inv env db" and p: "p \<in> set (db_parents db)"
    and fresh: "eid \<notin> e_id ` set (db_events db)"
    and cur: "snapshot_from_parent p = Inr cur"
    and nxt: "reduce_event cur (lifecycle_event a eid (sn_sequence cur + 1)) = Inr sn1"
    and named: "fill_event_named env (lifecycle_event a eid (sn_sequence cur + 1))"
  shows "is_replay (materialize env sn1 p) (log_of (p_id p) db @ [lifecycle_event a eid (sn_sequence cur + 1)])"
proof -
  let ?log = "log_of (p_id p) db" and ?ev = "lifecycle_event a eid (sn_sequence cur + 1)"
  from cur obtain req where req: "decimal_or_none (p_requested_quantity p) = Inr req"
    by (auto simp: snapshot_from_parent_def monad_simps)
  from inv p have "is_replay p ?log" by (simp add: store_inv_def)
  with req obtain sn where run: "reduce_all (initial_snapshot (p_id p) req) ?log = Inr sn"
    and row: "row_matches p sn" by (auto simp: is_replay_def split: sum.splits)
  have frame: "sn_parent_order_id sn = p_id p \<and> sn_requested_quantity sn = req"
    by (rule reduce_all_invariant [OF _ run]) (auto simp: reduce_event_frame initial_snapshot_def)
  have fi: "fill_inv sn"
    by (rule reduce_all_invariant [OF _ run]) (auto intro: reduce_event_fill_inv fill_inv_initial)
  from snapshot_from_matching [OF row] req frame fi cur have cur_sn: "cur = forget sn" by simp
  have ids: "ev_id ?ev \<notin> sn_applied_event_ids sn"
    using reduce_all_ids [OF run] fresh log_of_ids [of _ "p_id p" db]
    by (force simp: initial_snapshot_def lifecycle_event_def)
  have keys: "fill_key_of ?ev \<notin> sn_applied_fill_keys sn" if ty: "ev_type ?ev = ''fill_recorded''"
  proof
    assume "fill_key_of ?ev \<in> sn_applied_fill_keys sn"
    with reduce_all_keys [OF run] obtain ev where ev: "ev \<in> set ?log" "ev_type ev = ''fill_recorded''"
      and key: "fill_key_of ev = fill_key_of ?ev" by (auto simp: initial_snapshot_def)
    have "ev_id ev = eid"
      using fill_event_named_key [OF log_of_named [OF inv ev(1)] ev(2)]
        fill_event_named_key [OF named ty] key by (simp add: lifecycle_event_def)
    with log_of_ids [OF ev(1)] fresh show False by simp
  qed
  from reduce_event_forget [OF ids keys] nxt cur_sn
  obtain sn2 where step: "reduce_event sn ?ev = Inr sn2" and f: "forget sn2 = forget sn1"
    by (cases "reduce_event sn ?ev") auto
  from f have same: "sn_state sn2 = sn_state sn1" "sn_sequence sn2 = sn_sequence sn1"
    "sn_filled_quantity sn2 = sn_filled_quantity sn1" "sn_average_fill_price sn2 = sn_average_fill_price sn1"
    by (metis forget_simps)+
  have terminal: "sn_state sn \<in> set TERMINAL_STATES \<Longrightarrow> sn_state sn1 \<in> set TERMINAL_STATES"
    using reduce_event_step [OF step] same(1) state_step_terminal by fastforce
  have "row_matches (materialize env sn1 p) sn2"
    using row same terminal
    by (auto simp: row_matches_def materialize_def TERMINAL_STATES_def split: option.splits)
  with req step run show ?thesis
    by (simp add: is_replay_def reduce_all_append materialize_def)
qed

subsection \<open>What the operations do to the tables\<close>

lemma draw_simps [simp]:
  "db_parents (snd (draw env db)) = db_parents db" "db_events (snd (draw env db)) = db_events db"
  "db_outbox (snd (draw env db)) = db_outbox db" "db_fills (snd (draw env db)) = db_fills db"
  "db_children (snd (draw env db)) = db_children db" "db_settlements (snd (draw env db)) = db_settlements db"
  "db_swaps (snd (draw env db)) = db_swaps db" "db_intents (snd (draw env db)) = db_intents db"
  "db_candidates (snd (draw env db)) = db_candidates db"
  by (simp_all add: draw_def)

lemma find_parent_frame: "db_parents db' = db_parents db \<Longrightarrow> find_parent pid db' = find_parent pid db"
  by (simp add: find_parent_def)

lemma find_event_frame: "db_events db' = db_events db \<Longrightarrow> find_event eid db' = find_event eid db"
  by (simp add: find_event_def)

lemma event_row_simps [simp]:
  "e_id (event_row env a eid n) = eid"
  "e_parent_order_id (event_row env a eid n) = a_parent_order_id a"
  by (simp_all add: event_row_def)

lemma find_draw [simp]:
  "find_parent pid (snd (draw env db)) = find_parent pid db"
  "find_event eid (snd (draw env db)) = find_event eid db"
  by (simp_all add: find_parent_def find_event_def)

lemma find_parentD: "find_parent pid db = Some p \<Longrightarrow> p_id p = pid \<and> p \<in> set (db_parents db)"
  by (auto simp: find_parent_def dest: find_SomeD)

lemma find_eventD: "find_event eid db = Some r \<Longrightarrow> e_id r = eid \<and> r \<in> set (db_events db)"
  by (auto simp: find_event_def dest: find_SomeD)

lemma find_event_None: "find_event eid db = None \<longleftrightarrow> eid \<notin> e_id ` set (db_events db)"
  by (auto simp: find_event_def find_None_iff_all)

lemma append_to_parentE:
  assumes "append_to_parent env a eid p db = Inr (row, db')"
  obtains cur sn1 where "snapshot_from_parent p = Inr cur"
    "reduce_event cur (lifecycle_event a eid (sn_sequence cur + 1)) = Inr sn1"
    "row = event_row env a eid (sn_sequence cur + 1)"
    "db_parents db' = upd_where (\<lambda>r. p_id r = p_id p) (\<lambda>_. materialize env sn1 p) (db_parents db)"
    "db_events db' = db_events db @ [row]"
    "map x_event_id (db_outbox db') = map x_event_id (db_outbox db) @ [eid]"
    "db_fills db' = db_fills db" "db_children db' = db_children db"
    "db_settlements db' = db_settlements db" "db_swaps db' = db_swaps db"
proof -
  from assms obtain cur sn1 where cur: "snapshot_from_parent p = Inr cur"
    and step: "reduce_event cur (lifecycle_event a eid (sn_sequence cur + 1)) = Inr sn1"
    and ins: "insert_event (event_row env a eid (sn_sequence cur + 1))
        (outbox_row env a (event_row env a eid (sn_sequence cur + 1)) (fst (draw env db)))
        (put_parent (materialize env sn1 p) (snd (draw env db))) = Inr db'"
    and row: "row = event_row env a eid (sn_sequence cur + 1)"
    by (auto simp: append_to_parent_def monad_simps Let_def lifecycle_event_def case_prod_beta)
  have pid: "p_id (materialize env sn1 p) = p_id p" by (simp add: materialize_def)
  show ?thesis
    by (rule that [OF cur step row])
      (use ins row in \<open>auto simp: insert_event_def pid event_row_def outbox_row_def split: if_splits\<close>)
qed

lemma append_eventE:
  assumes "append_event env a db = Inr (row, db')"
  obtains eid p where "truthy (a_event_id a) \<Longrightarrow> a_event_id a = Some eid"
      "find_parent (a_parent_order_id a) db = Some p"
      "find_event eid db = Some row" "e_parent_order_id row = p_id p" "db' = db \<or> db' = snd (draw env db)"
  | eid p db0 where "truthy (a_event_id a) \<Longrightarrow> a_event_id a = Some eid"
      "find_parent (a_parent_order_id a) db = Some p" "find_event eid db = None"
      "db0 = db \<or> db0 = snd (draw env db)" "append_to_parent env a eid p db0 = Inr (row, db')"
proof (cases "truthy (a_event_id a)")
  case True
  then obtain eid where "a_event_id a = Some eid" by (auto dest: truthyD)
  with assms True that(1) [of eid] that(2) [of eid _ db] show ?thesis
    by (auto simp: append_event_def split: option.splits if_splits)
next
  case False
  with assms that(1) [of "fst (draw env db)"] that(2) [of "fst (draw env db)" _ "snd (draw env db)"]
  show ?thesis by (auto simp: append_event_def case_prod_beta split: option.splits if_splits)
qed

text \<open>The invariant speaks of parents, events and the outbox only.\<close>

lemma store_inv_frame:
  assumes "db_parents db' = db_parents db" "db_events db' = db_events db"
    "map x_event_id (db_outbox db') = map x_event_id (db_outbox db)"
  shows "store_inv env db' = store_inv env db"
  by (simp add: store_inv_def log_of_def assms)

definition well_named :: "env \<Rightarrow> AppendArgs \<Rightarrow> bool" where
  "well_named env a = (a_event_type a = ''fill_recorded'' \<longrightarrow>
     (case jget (a_payload a) ''fill_key'' of
        PStr k \<Rightarrow> k \<noteq> [] \<and> a_event_id a = Some (fill_event_id env k) \<and> fill_event_id env k \<noteq> []
      | _ \<Rightarrow> False))"

lemma well_named_event:
  "well_named env a \<Longrightarrow> (truthy (a_event_id a) \<Longrightarrow> a_event_id a = Some eid) \<Longrightarrow>
   fill_event_named env (lifecycle_event a eid n)"
  by (auto simp: well_named_def fill_event_named_def lifecycle_event_def split: pyval.splits)

lemma append_to_parent_inv:
  assumes inv: "store_inv env db" and p: "find_parent (a_parent_order_id a) db = Some p"
    and fresh: "find_event eid db = None" and named: "well_named env a"
    and eid: "truthy (a_event_id a) \<Longrightarrow> a_event_id a = Some eid"
    and app: "append_to_parent env a eid p db = Inr (row, db')"
  shows "store_inv env db'"
  using app
proof (rule append_to_parentE)
  fix cur sn1
  assume cur: "snapshot_from_parent p = Inr cur"
    and step: "reduce_event cur (lifecycle_event a eid (sn_sequence cur + 1)) = Inr sn1"
    and row: "row = event_row env a eid (sn_sequence cur + 1)"
    and parents: "db_parents db' = upd_where (\<lambda>r. p_id r = p_id p) (\<lambda>_. materialize env sn1 p) (db_parents db)"
    and events: "db_events db' = db_events db @ [row]"
    and outbox: "map x_event_id (db_outbox db') = map x_event_id (db_outbox db) @ [eid]"
  from p have pid: "a_parent_order_id a = p_id p" and mem: "p \<in> set (db_parents db)"
    by (auto dest: find_parentD)
  have rowf: "e_id row = eid" "e_parent_order_id row = p_id p"
    "event_of_row row = lifecycle_event a eid (sn_sequence cur + 1)"
    using row pid by simp_all
  have ids: "map p_id (db_parents db') = map p_id (db_parents db)"
    unfolding parents by (rule map_upd_where) (simp add: materialize_def)
  have ids_set: "p_id ` set (db_parents db') = p_id ` set (db_parents db)"
    using ids by (metis set_map)
  have logs: "log_of q db' = (if q = p_id p then log_of q db @ [event_of_row row] else log_of q db)" for q
    by (simp add: log_of_def events rowf)
  have "fill_event_named env (event_of_row row)"
    unfolding rowf by (rule well_named_event [OF named eid])
  moreover have "is_replay q (log_of (p_id q) db')" if q: "q \<in> set (db_parents db')" for q
  proof (cases "p_id q = p_id p")
    case True
    with q parents have "q = materialize env sn1 p"
      by (auto simp: set_upd_where split: if_splits)
    with append_replay [OF inv mem _ cur step well_named_event [OF named eid]] fresh logs rowf(3) True
    show ?thesis by (simp add: find_event_None)
  next
    case False
    with q parents have "q \<in> set (db_parents db)"
      by (auto simp: set_upd_where materialize_def split: if_splits)
    with False logs inv show ?thesis by (simp add: store_inv_def)
  qed
  ultimately show "store_inv env db'"
    using inv ids ids_set events outbox rowf fresh mem
    by (auto simp: store_inv_def find_event_None)
qed

lemma append_event_inv:
  assumes "store_inv env db" and "well_named env a" and "append_event env a db = Inr (row, db')"
  shows "store_inv env db'"
  using assms(3)
proof (cases rule: append_eventE)
  case (1 eid p)
  then show ?thesis using assms(1) store_inv_frame [of db' db env] by auto
next
  case (2 eid p db0)
  with assms(1) store_inv_frame [of db0 db env] have "store_inv env db0" by auto
  with 2 append_to_parent_inv [of env db0 a p eid row db'] assms(2) show ?thesis by auto
qed

lemma append_event_fills:
  assumes "append_event env a db = Inr (row, db')"
  shows "db_fills db' = db_fills db \<and> db_children db' = db_children db
    \<and> db_settlements db' = db_settlements db \<and> db_swaps db' = db_swaps db"
  using assms by (cases rule: append_eventE) (auto elim!: append_to_parentE)

lemma record_fillE:
  assumes "record_fill env g db = Inr (f, db')"
  obtains (existing) p where "find_parent (g_parent_order_id g) db = Some p"
      "find_fill (strip (g_external_source g)) (strip (g_external_fill_id g)) db = Some f"
      "f_parent_order_id f = p_id p" "db' = db"
  | (new) p rid db2 row where "find_parent (g_parent_order_id g) db = Some p"
      "find_fill (strip (g_external_source g)) (strip (g_external_fill_id g)) db = None"
      "f = fill_row env g rid (p_id p) (strip (g_external_source g)) (strip (g_external_fill_id g))"
      "db2 = (snd (draw env db))\<lparr>db_fills := db_fills db @ [f]\<rparr>"
      "append_event env (fill_event env g rid (p_id p) (strip (g_external_source g))
         (strip (g_external_fill_id g))) db2 = Inr (row, db')"
  using assms
  by (auto simp: record_fill_def Let_def case_prod_beta insert_fill_def monad_simps
      split: option.splits if_splits)

lemma fill_event_named_ok: "\<forall>n. uuid5 env n \<noteq> [] \<Longrightarrow> well_named env (fill_event env g rid pid src fid)"
  by (simp add: well_named_def fill_event_def append_defaults_def jget_def fill_identity_def fill_event_id_def)

lemma record_fill_inv:
  assumes "store_inv env db" and "\<forall>n. uuid5 env n \<noteq> []" and "record_fill env g db = Inr (f, db')"
  shows "store_inv env db'"
  using assms(3)
proof (cases rule: record_fillE)
  case (new p rid db2 row)
  with assms(1) store_inv_frame [of db2 db env] have "store_inv env db2" by simp
  with new(5) fill_event_named_ok [OF assms(2)] show ?thesis by (blast intro: append_event_inv)
qed (use assms(1) in simp)

lemma ensure_racingE:
  assumes "ensure_legacy_parent_racing env between a db = Inr (p, db')"
  obtains (existing) "find_source (strip (n_source_type a)) (strip (n_source_ref a)) db = Some p" "db' = db"
  | (created) iid kid pid n where
      "find_source (strip (n_source_type a)) (strip (n_source_ref a)) db = None"
      "p = new_parent env a iid kid pid"
      "insert_parent_rows (new_intent env a iid) (new_candidate env a iid kid) p
         ((between db)\<lparr>db_draws := n\<rparr>) = Inr db'"
  | (lost) n where "find_source (strip (n_source_type a)) (strip (n_source_ref a)) db = None"
      "find_source (strip (n_source_type a)) (strip (n_source_ref a)) ((between db)\<lparr>db_draws := n\<rparr>) = Some p"
      "db' = (between db)\<lparr>db_draws := n\<rparr>"
proof (cases "find_source (strip (n_source_type a)) (strip (n_source_ref a)) db")
  case (Some q)
  with assms have "q = p" "db' = db" by (auto simp: ensure_legacy_parent_racing_def Let_def split: if_splits)
  with Some show ?thesis by (simp add: existing)
next
  case None
  let ?d = "between db" and ?u = "uuid4 env"
  let ?n = "Suc (Suc (Suc (db_draws ?d)))"
  let ?i = "?u (db_draws ?d)" and ?k = "?u (Suc (db_draws ?d))" and ?p = "?u (Suc (Suc (db_draws ?d)))"
  from None assms have *: "(case insert_parent_rows (new_intent env a ?i) (new_candidate env a ?i ?k)
        (new_parent env a ?i ?k ?p) (?d\<lparr>db_draws := ?n\<rparr>) of
      Inr db'' \<Rightarrow> Inr (new_parent env a ?i ?k ?p, db'')
    | Inl e \<Rightarrow> (case find_source (strip (n_source_type a)) (strip (n_source_ref a)) (?d\<lparr>db_draws := ?n\<rparr>) of
         Some q \<Rightarrow> Inr (q, ?d\<lparr>db_draws := ?n\<rparr>) | None \<Rightarrow> Inl e)) = Inr (p, db')"
    by (simp add: ensure_legacy_parent_racing_def Let_def draw_def split: if_split_asm cong: sum.case_cong option.case_cong)
  show ?thesis
  proof (cases "insert_parent_rows (new_intent env a ?i) (new_candidate env a ?i ?k)
        (new_parent env a ?i ?k ?p) (?d\<lparr>db_draws := ?n\<rparr>)")
    case (Inr db'')
    with * have "p = new_parent env a ?i ?k ?p" "db'' = db'" by simp_all
    with Inr created [OF None] show ?thesis by blast
  next
    case (Inl e)
    with * have "find_source (strip (n_source_type a)) (strip (n_source_ref a)) (?d\<lparr>db_draws := ?n\<rparr>) = Some p"
      "db' = ?d\<lparr>db_draws := ?n\<rparr>" by (simp_all split: option.splits)
    with lost [OF None] show ?thesis by blast
  qed
qed

lemma insert_parent_rows_Inr:
  assumes "insert_parent_rows i k p db = Inr db'"
  shows "db_parents db' = db_parents db @ [p]" "p_id p \<notin> p_id ` set (db_parents db)"
    "db_events db' = db_events db" "db_outbox db' = db_outbox db" "db_fills db' = db_fills db"
    "db_children db' = db_children db" "db_settlements db' = db_settlements db" "db_swaps db' = db_swaps db"
    "p_source_type p \<noteq> None \<and> p_source_ref p \<noteq> None \<Longrightarrow>
       \<forall>r\<in>set (db_parents db). p_source_type r \<noteq> p_source_type p \<or> p_source_ref r \<noteq> p_source_ref p"
  using assms by (auto simp: insert_parent_rows_def split: if_splits)

lemma new_parent_replay: "is_replay (new_parent env a iid kid pid) []"
  by (simp add: is_replay_def new_parent_def initial_snapshot_def row_matches_def TERMINAL_STATES_def
      dec_zero_def dec_body_def nat_digits.simps zero_char split: sum.splits)

lemma store_inv_events:
  "store_inv env db \<Longrightarrow> \<forall>r\<in>set (db_events db). e_parent_order_id r \<in> p_id ` set (db_parents db)"
  unfolding store_inv_def by (elim conjE)

lemma insert_parent_rows_inv:
  assumes inv: "store_inv env db" and ins: "insert_parent_rows i k (new_parent env a iid kid pid) db = Inr db'"
  shows "store_inv env db'"
proof -
  let ?p = "new_parent env a iid kid pid"
  note rows = insert_parent_rows_Inr(1-4) [OF ins]
  have logs: "log_of q db' = log_of q db" for q by (simp add: log_of_def rows)
  have "\<forall>r\<in>set (db_events db). e_parent_order_id r \<in> p_id ` set (db_parents db)"
    using inv by (rule store_inv_events)
  then have "filter (\<lambda>r. e_parent_order_id r = p_id ?p) (db_events db) = []"
    using rows(2) by (intro filter_False ballI notI) (drule (1) bspec, simp)
  then have "log_of (p_id ?p) db = []" by (simp add: log_of_def)
  then have "is_replay ?p (log_of (p_id ?p) db')" by (simp add: logs new_parent_replay)
  with inv rows logs show ?thesis by (simp add: store_inv_def)
qed

lemma ensure_inv:
  assumes inv: "store_inv env db" and between: "store_inv env (between db)"
    and ok: "ensure_legacy_parent_racing env between a db = Inr (p, db')"
  shows "store_inv env db'"
proof -
  have inv': "store_inv env ((between db)\<lparr>db_draws := n\<rparr>)" for n
    using between store_inv_frame [of "(between db)\<lparr>db_draws := n\<rparr>" "between db" env] by simp
  from ok show ?thesis
  proof (cases rule: ensure_racingE)
    case (created iid kid pid n)
    from created(3) [unfolded created(2)] show ?thesis by (rule insert_parent_rows_inv [OF inv'])
  qed (use inv inv' in simp_all)
qed

subsection \<open>Reachable databases\<close>

text \<open>
  One committed step of any session: an operation of the store, or a write to the
  other tables.  Creation may race with steps committed in between.
\<close>

inductive store_step :: "env \<Rightarrow> ExecDB \<Rightarrow> ExecDB \<Rightarrow> bool" for env where
  ensure: "ensure_legacy_parent env a db = Inr (p, db') \<Longrightarrow> store_step env db db'"
| append: "a_event_type a \<noteq> ''fill_recorded'' \<Longrightarrow> append_event env a db = Inr (r, db') \<Longrightarrow>
    store_step env db db'"
| fill: "record_fill env g db = Inr (f, db') \<Longrightarrow> store_step env db db'"
| other: "store_step env db (db\<lparr>db_children := cs, db_settlements := ss, db_swaps := ws, db_draws := n\<rparr>)"

inductive_cases store_stepE: "store_step env db db'"

abbreviation store_run :: "env \<Rightarrow> ExecDB \<Rightarrow> ExecDB \<Rightarrow> bool" where
  "store_run env \<equiv> (store_step env)\<^sup>*\<^sup>*"

lemma store_inv_empty: "store_inv env empty_db"
  by (simp add: store_inv_def empty_db_def)

lemma store_step_inv:
  assumes "\<forall>n. uuid5 env n \<noteq> []" and "store_step env db db'" and "store_inv env db"
  shows "store_inv env db'"
  using assms(2,3)
proof cases
  case (ensure a p)
  then show ?thesis
    using ensure_inv [of env db "\<lambda>d. d"] assms(3) by (simp add: ensure_legacy_parent_def)
next
  case (append a r)
  then show ?thesis
    using append_event_inv [OF assms(3) _ append(2)] by (simp add: well_named_def)
next
  case (fill g f)
  then show ?thesis using assms record_fill_inv by blast
next
  case (other cs ss ws n)
  then show ?thesis using assms(3) store_inv_frame [of db' db env] by simp
qed

lemma store_run_inv:
  assumes "\<forall>n. uuid5 env n \<noteq> []" and "store_run env db db'" and "store_inv env db"
  shows "store_inv env db'"
  using assms(2,3) by (induction rule: rtranclp_induct) (auto intro: store_step_inv [OF assms(1)])

text \<open>Fills are never lost or changed by a step.\<close>

lemma store_step_fills: "store_step env db db' \<Longrightarrow> \<exists>fs. db_fills db' = db_fills db @ fs"
proof (induction rule: store_step.induct)
  case (ensure a db p db')
  then show ?case
    by (auto simp: ensure_legacy_parent_def elim!: ensure_racingE dest: insert_parent_rows_Inr(5))
next
  case (append a db r db')
  then show ?case by (auto dest: append_event_fills)
next
  case (fill g db f db')
  then show ?case by (cases rule: record_fillE) (auto dest: append_event_fills)
qed auto

lemma store_run_fills: "store_run env db db' \<Longrightarrow> \<exists>fs. db_fills db' = db_fills db @ fs"
  by (induction rule: rtranclp_induct) (auto dest: store_step_fills)

lemma store_run_find_fill:
  "store_run env db db' \<Longrightarrow> find_fill src fid db = Some f \<Longrightarrow> find_fill src fid db' = Some f"
  by (auto dest!: store_run_fills simp: find_fill_def find_append)

subsection \<open>Stable identities\<close>

text \<open>Events are only added, and no step changes the identity columns of a parent.\<close>

definition parent_key :: "ExecutionParentOrder \<Rightarrow> string \<times> string option \<times> string option" where
  "parent_key p = (p_id p, p_source_type p, p_source_ref p)"

definition extends :: "ExecDB \<Rightarrow> ExecDB \<Rightarrow> bool" where
  "extends db db' = ((\<exists>es. db_events db' = db_events db @ es) \<and> (\<exists>fs. db_fills db' = db_fills db @ fs)
     \<and> (\<exists>ks. map parent_key (db_parents db') = map parent_key (db_parents db) @ ks))"

lemma extends_same:
  "db_events db' = db_events db \<Longrightarrow> db_fills db' = db_fills db \<Longrightarrow> db_parents db' = db_parents db \<Longrightarrow>
   extends db db'"
  by (simp add: extends_def)

lemma extends_trans: "extends a b \<Longrightarrow> extends b c \<Longrightarrow> extends a c"
  by (auto simp: extends_def)

lemma append_to_parent_ids:
  assumes "append_to_parent env a eid p db = Inr (row, db')"
  shows "map p_id (db_parents db') = map p_id (db_parents db)"
  using assms
proof (rule append_to_parentE)
  fix sn1
  assume parents: "db_parents db' = upd_where (\<lambda>r. p_id r = p_id p) (\<lambda>_. materialize env sn1 p) (db_parents db)"
  show ?thesis unfolding parents by (rule map_upd_where) (simp add: materialize_def)
qed

lemma append_to_parent_extends:
  assumes "append_to_parent env a eid p db = Inr (row, db')" and "p \<in> set (db_parents db)"
    and "distinct (map p_id (db_parents db))"
  shows "extends db db'"
  using assms(1)
proof (rule append_to_parentE)
  fix sn1
  assume parents: "db_parents db' = upd_where (\<lambda>r. p_id r = p_id p) (\<lambda>_. materialize env sn1 p) (db_parents db)"
    and ev: "db_events db' = db_events db @ [row]" and fills: "db_fills db' = db_fills db"
  have "map parent_key (db_parents db') = map parent_key (db_parents db)"
    unfolding parents upd_where_def map_map
  proof (rule map_cong [OF refl])
    fix r assume "r \<in> set (db_parents db)"
    with assms(2,3) have "p_id r = p_id p \<Longrightarrow> r = p" by (simp add: eq_key_imp_eq_value distinct_map inj_on_def)
    then show "(parent_key \<circ> (\<lambda>r. if p_id r = p_id p then materialize env sn1 p else r)) r = parent_key r"
      by (auto simp: parent_key_def materialize_def)
  qed
  with ev fills show "extends db db'" by (simp add: extends_def)
qed

lemma append_event_extends:
  assumes "append_event env a db = Inr (row, db')" and "distinct (map p_id (db_parents db))"
  shows "extends db db'"
  using assms(1)
proof (cases rule: append_eventE)
  case (1 eid p)
  then show ?thesis by (auto intro: extends_same)
next
  case (2 eid p db0)
  then have "extends db db0" and "db_parents db0 = db_parents db" by (auto intro: extends_same)
  with 2 assms(2) append_to_parent_extends [of env a eid p db0 row db'] show ?thesis
    by (auto intro: extends_trans dest: find_parentD)
qed

lemma record_fill_extends:
  assumes "record_fill env g db = Inr (f, db')" and "distinct (map p_id (db_parents db))"
  shows "extends db db'"
  using assms(1)
proof (cases rule: record_fillE)
  case (new p rid db2 row)
  then have "extends db db2" by (simp add: extends_def)
  with new assms(2) append_event_extends [OF new(5)] show ?thesis by (auto intro: extends_trans)
qed (simp add: extends_same)

lemma ensure_extends:
  assumes "ensure_legacy_parent_racing env between a db = Inr (p, db')"
  shows "extends db db' \<or> extends (between db) db'"
  using assms
proof (cases rule: ensure_racingE)
  case (created iid kid pid n)
  from insert_parent_rows_Inr [OF created(3)] show ?thesis by (simp add: extends_def)
qed (simp_all add: extends_same)

lemma store_step_extends:
  "store_step env db db' \<Longrightarrow> distinct (map p_id (db_parents db)) \<Longrightarrow> extends db db'"
  by (erule store_stepE)
    (auto simp: ensure_legacy_parent_def extends_same dest: ensure_extends append_event_extends record_fill_extends)

lemma append_event_ids:
  assumes "append_event env a db = Inr (row, db')"
  shows "map p_id (db_parents db') = map p_id (db_parents db)"
  using assms
proof (cases rule: append_eventE)
  case (2 eid p db0)
  then have "db_parents db0 = db_parents db" by auto
  with 2(5) show ?thesis by (auto simp: append_to_parent_ids)
qed auto

lemma insert_parent_rows_ids:
  assumes "insert_parent_rows i k p db = Inr db'" and "distinct (map p_id (db_parents db))"
  shows "distinct (map p_id (db_parents db'))"
  using insert_parent_rows_Inr(1,2) [OF assms(1)] assms(2) by simp

lemma store_step_distinct:
  assumes "store_step env db db'" and "distinct (map p_id (db_parents db))"
  shows "distinct (map p_id (db_parents db'))"
  using assms(1)
proof cases
  case (ensure a p)
  then show ?thesis using assms(2)
    by (auto simp: ensure_legacy_parent_def elim!: ensure_racingE dest: insert_parent_rows_ids)
next
  case (append a r)
  with assms(2) show ?thesis by (simp add: append_event_ids)
next
  case (fill g f)
  from fill show ?thesis
  proof (cases rule: record_fillE)
    case (new p rid db2 row)
    with assms(2) append_event_ids [OF new(5)] show ?thesis by simp
  qed (use assms(2) in simp)
next
  case other
  with assms(2) show ?thesis by simp
qed

lemma store_run_extends:
  assumes "store_run env db db'" and "distinct (map p_id (db_parents db))"
  shows "extends db db' \<and> distinct (map p_id (db_parents db'))"
  using assms
  by (induction rule: rtranclp_induct)
    (auto intro: extends_same store_step_distinct dest: store_step_extends extends_trans)

subsection \<open>Writers keyed by an identity\<close>

text \<open>
  The contract the adapters rely on: a write is keyed by a stable identity, it stores
  a value under it, it does nothing but return that value when the identity is already
  taken, and no committed step of any session changes what an identity stands for.
\<close>

locale idempotent_writer =
  fixes put :: "'a \<Rightarrow> 'db \<Rightarrow> 'e + ('r \<times> 'db)"
    and keyed :: "'a \<Rightarrow> bool" and key :: "'a \<Rightarrow> 'k" and res :: "'r \<Rightarrow> 'v"
    and look :: "'k \<Rightarrow> 'db \<Rightarrow> 'v option" and steps :: "'db \<Rightarrow> 'db \<Rightarrow> bool"
    and valid :: "'db \<Rightarrow> bool"
  assumes write_stores: "valid db \<Longrightarrow> keyed a \<Longrightarrow> put a db = Inr (r, db') \<Longrightarrow>
      look (key a) db' = Some (res r) \<and> valid db'"
    and write_again: "valid db \<Longrightarrow> keyed a \<Longrightarrow> look (key a) db = Some v \<Longrightarrow>
      \<exists>r. put a db = Inr (r, db) \<and> res r = v"
    and steps_keep: "valid db \<Longrightarrow> steps db db' \<Longrightarrow> look k db = Some v \<Longrightarrow> look k db' = Some v"
    and steps_valid: "valid db \<Longrightarrow> steps db db' \<Longrightarrow> valid db'"
begin

lemma redelivered:
  assumes "valid db" and "keyed a" and "put a db = Inr (r, db1)" and "steps db1 db2"
    and "keyed a'" and "key a' = key a"
  shows "\<exists>r'. put a' db2 = Inr (r', db2) \<and> res r' = res r"
proof -
  from write_stores [OF assms(1-3)] have l: "look (key a') db1 = Some (res r)" and v: "valid db1"
    by (simp_all add: assms(6))
  show ?thesis
    by (rule write_again [OF steps_valid [OF v assms(4)] assms(5) steps_keep [OF v assms(4) l]])
qed

end

definition look_event :: "string \<times> string \<Rightarrow> ExecDB \<Rightarrow> ExecutionEvent option" where
  "look_event k db = (case find_event (snd k) db of
     Some r \<Rightarrow> if e_parent_order_id r = fst k \<and> find_parent (fst k) db \<noteq> None then Some r else None
   | None \<Rightarrow> None)"

definition look_fill :: "string \<times> string \<times> string \<Rightarrow> ExecDB \<Rightarrow> ExecutionFill option" where
  "look_fill k db = (case find_fill (fst (snd k)) (snd (snd k)) db of
     Some f \<Rightarrow> if f_parent_order_id f = fst k \<and> find_parent (fst k) db \<noteq> None then Some f else None
   | None \<Rightarrow> None)"

definition look_source :: "string \<times> string \<Rightarrow> ExecDB \<Rightarrow> string option" where
  "look_source k db = map_option p_id (find_source (fst k) (snd k) db)"

definition ids_distinct :: "ExecDB \<Rightarrow> bool" where
  "ids_distinct db = distinct (map p_id (db_parents db))"

lemma find_parent_iff: "find_parent pid db \<noteq> None \<longleftrightarrow> pid \<in> set (map fst (map parent_key (db_parents db)))"
proof -
  have ids: "map fst (map parent_key (db_parents db)) = map p_id (db_parents db)"
    by (simp add: parent_key_def)
  show ?thesis unfolding ids by (auto simp: find_parent_def find_None_iff_all)
qed

lemma extends_find_parent:
  assumes "extends db db'" and "find_parent pid db = Some p"
  shows "\<exists>p'. find_parent pid db' = Some p'"
proof -
  from assms(1) obtain ks where "map parent_key (db_parents db') = map parent_key (db_parents db) @ ks"
    unfolding extends_def by blast
  with assms(2) find_parent_iff [of pid db] find_parent_iff [of pid db'] show ?thesis
    by (simp del: map_map)
qed

lemma look_source_keys: "look_source k db = map_option fst
   (List.find (\<lambda>(i, t, r). t = Some (fst k) \<and> r = Some (snd k)) (map parent_key (db_parents db)))"
proof -
  have "map_option p_id (List.find (\<lambda>p. p_source_type p = Some t \<and> p_source_ref p = Some r) ps)
    = map_option fst (List.find (\<lambda>(i, t', r'). t' = Some t \<and> r' = Some r) (map parent_key ps))" for t r ps
    by (induction ps) (auto simp: parent_key_def)
  then show ?thesis by (simp add: look_source_def find_source_def)
qed

lemma extends_look:
  assumes "extends db db'"
  shows "look_event k db = Some r \<Longrightarrow> look_event k db' = Some r"
    and "look_fill k3 db = Some f \<Longrightarrow> look_fill k3 db' = Some f"
    and "look_source k2 db = Some i \<Longrightarrow> look_source k2 db' = Some i"
proof -
  from assms obtain es fs ks where e: "db_events db' = db_events db @ es"
    and f: "db_fills db' = db_fills db @ fs"
    and k: "map parent_key (db_parents db') = map parent_key (db_parents db) @ ks"
    unfolding extends_def by blast
  note fp = extends_find_parent [OF assms]
  show "look_event k db = Some r \<Longrightarrow> look_event k db' = Some r"
    using fp [of "fst k"] by (auto simp: look_event_def find_event_def e find_append split: option.splits if_splits)
  show "look_fill k3 db = Some f \<Longrightarrow> look_fill k3 db' = Some f"
    using fp [of "fst k3"] by (auto simp: look_fill_def find_fill_def f find_append split: option.splits if_splits)
  show "look_source k2 db = Some i \<Longrightarrow> look_source k2 db' = Some i"
    by (auto simp: look_source_keys k find_append)
qed

lemma run_keeps:
  assumes "store_run env db db'" and "ids_distinct db"
  shows "ids_distinct db'" and "extends db db'"
  using store_run_extends [OF assms(1)] assms(2) by (simp_all add: ids_distinct_def)

lemma append_stores:
  assumes "ids_distinct db" and "append_event env a db = Inr (r, db')" and "truthy (a_event_id a)"
  shows "look_event (a_parent_order_id a, the (a_event_id a)) db' = Some r \<and> ids_distinct db'"
  using assms(2)
proof (cases rule: append_eventE)
  case (1 eid p)
  then have "the (a_event_id a) = eid" "find_parent (a_parent_order_id a) db' = Some p"
    "find_event eid db' = Some r" "p_id p = a_parent_order_id a"
    using assms(3) by (auto dest: find_parentD)
  with 1 assms(1) show ?thesis by (auto simp: look_event_def ids_distinct_def)
next
  case (2 eid p db0)
  then have eid: "the (a_event_id a) = eid" and p: "p_id p = a_parent_order_id a"
    and p0: "find_parent (a_parent_order_id a) db0 \<noteq> None" and d0: "distinct (map p_id (db_parents db0))"
    and f0: "find_event eid db0 = None" and mem: "p \<in> set (db_parents db0)"
    using assms(1,3) by (auto simp: ids_distinct_def dest: find_parentD)
  from append_to_parent_extends [OF 2(5) mem d0] p0
  have "find_parent (a_parent_order_id a) db' \<noteq> None" by (auto dest: extends_find_parent)
  moreover have "find_event eid db' = Some r \<and> e_parent_order_id r = a_parent_order_id a
      \<and> distinct (map p_id (db_parents db'))"
    using 2(5) d0 f0 append_to_parent_ids [OF 2(5)]
    by (elim append_to_parentE) (simp add: find_event_def find_append del: upd_where_def)
  ultimately show ?thesis by (auto simp: look_event_def eid ids_distinct_def)
qed

lemma append_again:
  assumes "look_event (a_parent_order_id a, the (a_event_id a)) db = Some r" and "truthy (a_event_id a)"
  shows "append_event env a db = Inr (r, db)"
proof -
  from assms(1) obtain p where "find_parent (a_parent_order_id a) db = Some p"
    "find_event (the (a_event_id a)) db = Some r" "e_parent_order_id r = a_parent_order_id a"
    by (auto simp: look_event_def split: option.splits if_splits)
  with assms(2) find_parentD [of "a_parent_order_id a" db p] show ?thesis by (simp add: append_event_def)
qed

definition fill_args_key :: "FillArgs \<Rightarrow> string \<times> string \<times> string" where
  "fill_args_key g = (g_parent_order_id g, strip (g_external_source g), strip (g_external_fill_id g))"

lemma record_stores:
  assumes "ids_distinct db" and "record_fill env g db = Inr (f, db')"
  shows "look_fill (fill_args_key g) db' = Some f \<and> ids_distinct db'"
  using assms(2)
proof (cases rule: record_fillE)
  case (existing p)
  with assms(1) show ?thesis by (auto simp: look_fill_def fill_args_key_def dest: find_parentD)
next
  case (new p rid db2 row)
  have d2: "ids_distinct db2" using assms(1) new(4) by (simp add: ids_distinct_def)
  have key: "f_external_source f = strip (g_external_source g)"
      "f_external_fill_id f = strip (g_external_fill_id g)" "f_parent_order_id f = g_parent_order_id g"
    using new(1,3) by (auto simp: fill_row_def dest: find_parentD)
  have l2: "look_fill (fill_args_key g) db2 = Some f"
    using new(1,2,4) key by (simp add: look_fill_def fill_args_key_def find_fill_def find_append find_parent_def)
  have e: "extends db2 db'" using append_event_extends [OF new(5)] d2 by (simp add: ids_distinct_def)
  have "ids_distinct db'" using append_event_ids [OF new(5)] d2 by (simp add: ids_distinct_def)
  with extends_look(2) [OF e l2] show ?thesis by simp
qed

lemma record_again:
  assumes "look_fill (fill_args_key g) db = Some f"
    and "strip (g_external_source g) \<noteq> []" and "strip (g_external_fill_id g) \<noteq> []"
  shows "record_fill env g db = Inr (f, db)"
proof -
  from assms(1) obtain p where "find_parent (g_parent_order_id g) db = Some p"
    "find_fill (strip (g_external_source g)) (strip (g_external_fill_id g)) db = Some f"
    "f_parent_order_id f = g_parent_order_id g"
    by (auto simp: look_fill_def fill_args_key_def split: option.splits if_splits)
  with assms(2,3) find_parentD [of "g_parent_order_id g" db p] show ?thesis by (simp add: record_fill_def)
qed

definition source_key :: "EnsureArgs \<Rightarrow> string \<times> string" where
  "source_key a = (strip (n_source_type a), strip (n_source_ref a))"

lemma ensure_stores:
  assumes "ids_distinct db" and "ensure_legacy_parent env a db = Inr (p, db')"
  shows "look_source (source_key a) db' = Some (p_id p) \<and> ids_distinct db'"
  using assms(2) unfolding ensure_legacy_parent_def
proof (cases rule: ensure_racingE)
  case (created iid kid pid n)
  have none: "find_source (strip (n_source_type a)) (strip (n_source_ref a)) (db\<lparr>db_draws := n\<rparr>) = None"
    using created(1) by (simp add: find_source_def)
  with created(2) insert_parent_rows_Inr(1) [OF created(3)] insert_parent_rows_ids [OF created(3)] assms(1)
  show ?thesis
    by (simp add: look_source_def source_key_def find_source_def find_append new_parent_def ids_distinct_def)
qed (use assms(1) in \<open>auto simp: look_source_def source_key_def find_source_def ids_distinct_def\<close>)

lemma ensure_again:
  assumes "look_source (source_key a) db = Some i"
    and "strip (n_source_type a) \<noteq> []" and "strip (n_source_ref a) \<noteq> []"
  shows "\<exists>p. ensure_legacy_parent env a db = Inr (p, db) \<and> p_id p = i"
  using assms by (auto simp: look_source_def source_key_def ensure_legacy_parent_def
      ensure_legacy_parent_racing_def split: option.splits)

lemma steps_look:
  assumes "ids_distinct db" and "store_run env db db'"
  shows "look_event k db = Some r \<Longrightarrow> look_event k db' = Some r"
    and "look_fill k3 db = Some f \<Longrightarrow> look_fill k3 db' = Some f"
    and "look_source k2 db = Some i \<Longrightarrow> look_source k2 db' = Some i"
  using extends_look [OF run_keeps(2) [OF assms(2,1)]] by blast+

interpretation event_writer: idempotent_writer "append_event env" "\<lambda>a. truthy (a_event_id a)"
  "\<lambda>a. (a_parent_order_id a, the (a_event_id a))" "\<lambda>r. r" look_event "store_run env" ids_distinct for env
  by unfold_locales (use append_stores append_again steps_look(1) run_keeps(1) in blast)+

interpretation fill_writer: idempotent_writer "record_fill env"
  "\<lambda>g. strip (g_external_source g) \<noteq> [] \<and> strip (g_external_fill_id g) \<noteq> []"
  fill_args_key "\<lambda>f. f" look_fill "store_run env" ids_distinct for env
  by unfold_locales (use record_stores record_again steps_look(2) run_keeps(1) in blast)+

interpretation parent_writer: idempotent_writer "ensure_legacy_parent env"
  "\<lambda>a. strip (n_source_type a) \<noteq> [] \<and> strip (n_source_ref a) \<noteq> []"
  source_key p_id look_source "store_run env" ids_distinct for env
  by unfold_locales (use ensure_stores ensure_again steps_look(3) run_keeps(1) in blast)+

lemma log_numbered:
  assumes "store_inv env db" and "reduce_all (initial_snapshot pid req) (log_of pid db) = Inr sn"
  shows "numbered 0 (log_of pid db)"
proof -
  have "map ev_id (log_of pid db) = map e_id (filter (\<lambda>r. e_parent_order_id r = pid) (db_events db))"
    by (simp add: log_of_def event_of_row_def)
  then have "distinct (map ev_id (log_of pid db))"
    using assms(1) by (simp add: store_inv_def distinct_map_filter)
  with reduce_all_contiguous [OF assms(2)] show ?thesis by (simp add: initial_snapshot_def)
qed

subsection \<open>A sample run\<close>

definition sample_env :: env where
  "sample_env = \<lparr>uuid4 = (\<lambda>n. replicate n CHR ''u''), uuid5 = (\<lambda>s. CHR ''5'' # s), now = 7\<rparr>"

definition sample_source :: EnsureArgs where
  "sample_source = \<lparr>n_source_type = ''swap'', n_source_ref = ''1'', n_principal_key = ''user:1'',
     n_intent_type = ''swap'', n_substrate = ''direct_tx'', n_provider = None, n_user_id = Some 1,
     n_side = None, n_amount_mode = None, n_from_chain = None, n_to_chain = None, n_from_asset = None,
     n_to_asset = None, n_requested_quantity = Some ''2'', n_quantity_asset = None,
     n_requested_notional = None, n_idempotency_key = None, n_constraints = [], n_metadata = []\<rparr>"

definition sample_order :: ExecutionParentOrder where
  "sample_order = new_parent sample_env sample_source [] ''u'' ''uu''"

definition sample_db1 :: ExecDB where
  "sample_db1 = empty_db\<lparr>db_draws := 3, db_intents := [new_intent sample_env sample_source []],
     db_candidates := [new_candidate sample_env sample_source [] ''u''], db_parents := [sample_order]\<rparr>"

definition sample_append :: AppendArgs where
  "sample_append = (append_defaults ''uu'' ''parent_state_changed'')
     \<lparr>a_event_id := Some ''x'', a_to_state := Some QUOTING\<rparr>"

definition sample_moved :: ExecutionParentOrder where
  "sample_moved = sample_order\<lparr>p_state := ''quoting'', p_state_version := 1, p_updated_at := 7\<rparr>"

definition sample_row :: ExecutionEvent where
  "sample_row = event_row sample_env sample_append ''x'' 1"

definition sample_db2 :: ExecDB where
  "sample_db2 = sample_db1\<lparr>db_draws := 4, db_parents := [sample_moved], db_events := [sample_row],
     db_outbox := [outbox_row sample_env sample_append sample_row ''uuu'']\<rparr>"

lemma sample_ensure: "ensure_legacy_parent sample_env sample_source empty_db = Inr (sample_order, sample_db1)"
  by (simp add: ensure_legacy_parent_def ensure_legacy_parent_racing_def sample_source_def sample_db1_def
      sample_order_def empty_db_def find_source_def draw_def sample_env_def insert_parent_rows_def strip_def
      is_space_def eval_nat_numeral Let_def)

lemma strip_sample: "strip ''swap'' = ''swap''" "strip ''1'' = ''1''"
  by (simp_all add: strip_def is_space_def)

lemma sample_appended: "append_event sample_env sample_append sample_db1 = Inr (sample_row, sample_db2)"
  by (simp add: append_event_def append_to_parent_def sample_append_def append_defaults_def sample_db1_def
      sample_order_def new_parent_def find_parent_def find_event_def empty_db_def snapshot_from_parent_def
      parent_state_def decimal_or_none_def decimal_or_zero_def reducer_compute dec_compute lifecycle_event_def
      materialize_def dec_body_def nat_digits.simps zero_char [symmetric] draw_def sample_env_def insert_event_def
      put_parent_def sample_db2_def sample_moved_def sample_row_def sample_source_def strip_sample
      event_row_def outbox_row_def ps_of_value_def all_states_def eval_nat_numeral Let_def)

lemma sample_uuid5: "\<forall>n. uuid5 sample_env n \<noteq> []"
  by (simp add: sample_env_def)

lemma sample_run1: "store_run sample_env empty_db sample_db1"
  by (rule r_into_rtranclp, rule store_step.ensure [OF sample_ensure])

lemma sample_step2: "store_step sample_env sample_db1 sample_db2"
  by (rule store_step.append [OF _ sample_appended]) (simp add: sample_append_def append_defaults_def)

lemma sample_run2: "store_run sample_env empty_db sample_db2"
  by (rule rtranclp.rtrancl_into_rtrancl [OF sample_run1 sample_step2])

lemma sample_moved_in: "sample_moved \<in> set (db_parents sample_db2)"
  by (simp add: sample_db2_def)

lemma sample_requested: "decimal_or_none (p_requested_quantity sample_moved) = Inr (Some (Dec False 2 0))"
  by (simp add: sample_moved_def sample_order_def new_parent_def sample_source_def decimal_or_none_def dec_compute)

subsection \<open>Properties of the store\<close>

text \<open>C1: The materialised parent row is the replay of its event log: in every database
  reachable from the empty one by the store's operations, replaying the persisted events
  of a parent succeeds and yields exactly the state, version, filled quantity, average
  price and completion mark that its row carries.\<close>

theorem parent_row_is_replay:
  assumes "\<forall>n. uuid5 env n \<noteq> []" and "store_run env empty_db db" and "p \<in> set (db_parents db)"
    and "decimal_or_none (p_requested_quantity p) = Inr req"
  shows "\<exists>sn. replay (p_id p) (log_of (p_id p) db) req = Inr sn \<and> row_matches p sn"
proof -
  have inv: "store_inv env db" by (rule store_run_inv [OF assms(1,2) store_inv_empty])
  then have "is_replay p (log_of (p_id p) db)" using assms(3) unfolding store_inv_def by blast
  with assms(4) obtain sn where run: "reduce_all (initial_snapshot (p_id p) req) (log_of (p_id p) db) = Inr sn"
    and row: "row_matches p sn" by (auto simp: is_replay_def split: sum.splits)
  have "sort_key ev_sequence (log_of (p_id p) db) = log_of (p_id p) db"
    by (rule sort_key_id_if_sorted [OF numbered_sorted [OF log_numbered [OF inv run]]])
  with run row show ?thesis by (simp add: replay_def)
qed

theorem parent_row_is_replay_witness:
  "\<exists>sn. replay ''uu'' (log_of ''uu'' sample_db2) (Some (Dec False 2 0)) = Inr sn \<and> sn_state sn = QUOTING"
  using parent_row_is_replay [OF sample_uuid5 sample_run2 sample_moved_in sample_requested]
  by (auto simp: row_matches_def sample_moved_def sample_order_def new_parent_def intro!: ps_value_inj)

text \<open>C30: Event logs are gapless and published once: in every reachable database the
  events of one parent are numbered 1, 2, 3 and so on in insertion order, no event id
  occurs twice, and the outbox holds exactly one message per event, in the same order.\<close>

theorem event_log_gapless:
  assumes "\<forall>n. uuid5 env n \<noteq> []" and "store_run env empty_db db"
  shows "numbered 0 (log_of pid db) \<and> distinct (map e_id (db_events db))
    \<and> map x_event_id (db_outbox db) = map e_id (db_events db)"
proof -
  have inv: "store_inv env db" by (rule store_run_inv [OF assms store_inv_empty])
  have "numbered 0 (log_of pid db)"
  proof (cases "log_of pid db = []")
    case False
    then obtain r where "r \<in> set (db_events db)" "e_parent_order_id r = pid"
      by (auto simp: log_of_def filter_empty_conv)
    with store_inv_events [OF inv] obtain p where p: "p \<in> set (db_parents db)" "p_id p = pid" by auto
    with inv have "is_replay p (log_of pid db)" by (auto simp: store_inv_def)
    with False obtain req sn where "reduce_all (initial_snapshot pid req) (log_of pid db) = Inr sn"
      by (auto simp: is_replay_def p(2) split: sum.splits)
    then show ?thesis by (rule log_numbered [OF inv])
  qed simp
  with inv show ?thesis by (simp add: store_inv_def)
qed

theorem event_log_gapless_witness:
  "map ev_sequence (log_of ''uu'' sample_db2) = [1] \<and> numbered 0 (log_of ''uu'' sample_db2)"
  using event_log_gapless [OF sample_uuid5 sample_run2, of "''uu''"]
  by (simp add: log_of_def sample_db2_def sample_row_def event_row_def sample_append_def append_defaults_def
      event_of_row_def)

text \<open>Redelivering an event is a no-op for ever: once an append under some event id
  has committed, any later append for the same parent under that id, whatever was
  committed in between and whatever else the arguments say, returns the stored row and
  writes nothing.\<close>

theorem append_event_redelivered:
  assumes "ids_distinct db" and "truthy (a_event_id a)" and "append_event env a db = Inr (r, db1)"
    and "store_run env db1 db2" and "a_event_id a' = a_event_id a"
    and "a_parent_order_id a' = a_parent_order_id a"
  shows "append_event env a' db2 = Inr (r, db2)"
  using event_writer.redelivered [OF assms(1-4), of a'] assms(2,5,6) by simp

theorem append_event_redelivered_witness:
  "append_event sample_env (sample_append\<lparr>a_payload := [(''k'', PNone)]\<rparr>) sample_db2 = Inr (sample_row, sample_db2)"
  by (rule append_event_redelivered [OF _ _ sample_appended rtranclp.rtrancl_refl])
    (simp_all add: ids_distinct_def sample_db1_def sample_append_def append_defaults_def)

subsection \<open>Parent rows along a run\<close>

definition row_step :: "ExecutionParentOrder \<Rightarrow> ExecutionParentOrder \<Rightarrow> bool" where
  "row_step p q = (p_id q = p_id p \<and>
     (\<forall>s. p_state p = ps_value s \<longrightarrow> (\<exists>t. state_step s t \<and> p_state q = ps_value t)))"

lemma row_step_refl [simp]: "row_step p p"
  by (auto simp: row_step_def state_step_def)

lemma append_event_rows:
  assumes "append_event env a db = Inr (row, db')" and "p \<in> set (db_parents db)"
    and "distinct (map p_id (db_parents db))"
  shows "\<exists>q\<in>set (db_parents db'). row_step p q"
  using assms(1)
proof (cases rule: append_eventE)
  case (1 eid q)
  then have "p \<in> set (db_parents db')" using assms(2) by auto
  then show ?thesis by (rule bexI [rotated]) simp
next
  case (2 eid q db0)
  then have q: "q \<in> set (db_parents db)" and d0: "db_parents db0 = db_parents db"
    by (auto dest: find_parentD)
  from 2(5) obtain cur sn1 where cur: "snapshot_from_parent q = Inr cur"
    and step: "reduce_event cur (lifecycle_event a eid (sn_sequence cur + 1)) = Inr sn1"
    and parents: "db_parents db' = upd_where (\<lambda>r. p_id r = p_id q) (\<lambda>_. materialize env sn1 q) (db_parents db)"
    by (elim append_to_parentE) (auto simp: d0)
  have new: "row_step q (materialize env sn1 q)"
    using reduce_event_step [OF step] cur
    by (auto simp: row_step_def materialize_def snapshot_from_parent_def parent_state_def monad_simps)
  show ?thesis
  proof (cases "p_id p = p_id q")
    case True
    then have "p = q" using assms(2,3) q by (simp add: eq_key_imp_eq_value distinct_map inj_on_def)
    with new q parents show ?thesis by (auto simp: set_upd_where)
  next
    case False
    with assms(2) parents show ?thesis by (auto simp: set_upd_where intro!: bexI [of _ p])
  qed
qed

lemma store_step_rows:
  assumes "store_step env db db'" and "p \<in> set (db_parents db)" and "distinct (map p_id (db_parents db))"
  shows "\<exists>q\<in>set (db_parents db'). row_step p q"
  using assms(1)
proof cases
  case (ensure a r)
  then have "p \<in> set (db_parents db')"
    unfolding ensure_legacy_parent_def
    by (cases rule: ensure_racingE) (use assms(2) in \<open>auto dest: insert_parent_rows_Inr(1)\<close>)
  then show ?thesis by (auto intro: bexI [of _ p])
next
  case (append a r)
  then show ?thesis using append_event_rows assms(2,3) by blast
next
  case (fill g f)
  then show ?thesis
  proof (cases rule: record_fillE)
    case existing
    with assms(2) have "p \<in> set (db_parents db')" by simp
    then show ?thesis by (rule bexI [rotated]) simp
  next
    case (new q rid db2 row)
    then show ?thesis using append_event_rows [OF new(5)] assms(2,3) by simp
  qed
next
  case other
  with assms(2) have "p \<in> set (db_parents db')" by simp
  then show ?thesis by (rule bexI [rotated]) simp
qed

lemma store_run_rows:
  assumes "store_run env db db'" and "p \<in> set (db_parents db)" and "ids_distinct db"
    and "p_state p = ps_value s" and "s \<in> set TERMINAL_STATES"
  shows "\<exists>q\<in>set (db_parents db'). p_id q = p_id p \<and> p_state q = p_state p"
  using assms(1)
proof (induction rule: rtranclp_induct)
  case base
  then show ?case using assms(2) by blast
next
  case (step d d')
  then obtain q where q: "q \<in> set (db_parents d)" "p_id q = p_id p" "p_state q = p_state p" by blast
  have "distinct (map p_id (db_parents d))"
    using run_keeps(1) [OF step(1) assms(3)] by (simp add: ids_distinct_def)
  from store_step_rows [OF step(2) q(1) this] obtain r t where "r \<in> set (db_parents d')" "p_id r = p_id q"
    "state_step s t" "p_state r = ps_value t" using q(3) assms(4) by (auto simp: row_step_def)
  moreover from this(3) have "t = s" by (rule state_step_terminal [OF assms(5)])
  ultimately show ?case using q assms(4) by auto
qed

text \<open>A finished parent stays finished in the database: once a parent row is in a
  terminal state, every later database has a row of the same id in the same state,
  whatever events, fills and retries are committed afterwards.\<close>

theorem finished_parent_stays:
  assumes "ids_distinct db" and "p \<in> set (db_parents db)" and "p_state p = ps_value s"
    and "s \<in> set TERMINAL_STATES" and "store_run env db db'"
  shows "\<exists>q\<in>set (db_parents db'). p_id q = p_id p \<and> p_state q = ps_value s"
  using store_run_rows [OF assms(5,2,1,3,4)] assms(3) by simp

theorem finished_parent_stays_witness:
  "\<exists>q\<in>set (db_parents (sample_db2\<lparr>db_children := [],
      db_parents := [sample_order\<lparr>p_state := ''failed''\<rparr>], db_settlements := [], db_swaps := [], db_draws := 9\<rparr>)).
     p_id q = ''uu'' \<and> p_state q = ''failed''"
proof -
  let ?db = "sample_db2\<lparr>db_parents := [sample_order\<lparr>p_state := ''failed''\<rparr>]\<rparr>"
  have "store_run sample_env ?db (?db\<lparr>db_children := [], db_settlements := [], db_swaps := [], db_draws := 9\<rparr>)"
    by (rule r_into_rtranclp) (rule store_step.other)
  from finished_parent_stays [OF _ _ _ _ this, of "sample_order\<lparr>p_state := ''failed''\<rparr>" FAILED]
  show ?thesis
    by (simp add: ids_distinct_def TERMINAL_STATES_def sample_order_def new_parent_def)
qed

text \<open>C2: Fills are recorded exactly once: after a fill has been recorded for a parent
  under a venue identity, every later call with that parent and that identity (up to
  surrounding white space) returns the same fill row and changes nothing, so neither the
  fill table nor the parent's filled quantity can count it twice.\<close>

theorem record_fill_exactly_once:
  assumes "ids_distinct db" and "record_fill env g db = Inr (f, db1)" and "store_run env db1 db2"
    and "fill_args_key g' = fill_args_key g"
  shows "record_fill env g' db2 = Inr (f, db2)"
proof -
  have ok: "strip (g_external_source g) \<noteq> [] \<and> strip (g_external_fill_id g) \<noteq> []"
    using assms(2) by (auto simp: record_fill_def split: if_splits)
  with assms(4) have "strip (g_external_source g') \<noteq> [] \<and> strip (g_external_fill_id g') \<noteq> []"
    by (simp add: fill_args_key_def)
  with fill_writer.redelivered [OF assms(1) ok assms(2,3)] assms(4) show ?thesis by simp
qed

text \<open>One canonical parent per legacy row: after a call of \<open>ensure_legacy_parent\<close> any
  later call for the same source identity returns a parent of the same id and inserts
  nothing.\<close>

theorem ensure_parent_idempotent:
  assumes "ids_distinct db" and "strip (n_source_type a) \<noteq> []" and "strip (n_source_ref a) \<noteq> []"
    and "ensure_legacy_parent env a db = Inr (p, db1)" and "store_run env db1 db2"
    and "source_key a' = source_key a"
  shows "\<exists>q. ensure_legacy_parent env a' db2 = Inr (q, db2) \<and> p_id q = p_id p"
  using parent_writer.redelivered [OF assms(1) _ assms(4,5), of a'] assms(2,3,6)
  by (simp add: source_key_def)

theorem ensure_parent_idempotent_witness:
  "\<exists>q. ensure_legacy_parent sample_env sample_source sample_db2 = Inr (q, sample_db2) \<and> p_id q = ''uu''"
proof -
  have "ids_distinct empty_db" by (simp add: ids_distinct_def empty_db_def)
  have step: "store_run sample_env sample_db1 sample_db2" by (rule r_into_rtranclp) (rule sample_step2)
  from ensure_parent_idempotent [OF \<open>ids_distinct empty_db\<close> _ _ sample_ensure step refl]
  show ?thesis by (simp add: sample_source_def strip_sample sample_order_def new_parent_def)
qed

text \<open>The creation race is benign: if another session commits a parent for the same
  source identity between the lookup and the insert, the call returns that parent, and
  nothing but the winner's rows is in the tables.\<close>

theorem ensure_race_loser:
  assumes "strip (n_source_type a) \<noteq> []" and "strip (n_source_ref a) \<noteq> []"
    and "find_source (strip (n_source_type a)) (strip (n_source_ref a)) db = None"
    and "find_source (strip (n_source_type a)) (strip (n_source_ref a)) (between db) = Some q"
  shows "\<exists>n. ensure_legacy_parent_racing env between a db = Inr (q, (between db)\<lparr>db_draws := n\<rparr>)"
proof -
  have "p_source_type q = Some (strip (n_source_type a)) \<and> p_source_ref q = Some (strip (n_source_ref a))
      \<and> q \<in> set (db_parents (between db))"
    using assms(4) by (auto simp: find_source_def dest: find_SomeD)
  then have "insert_parent_rows i k (new_parent env a iid kid pid) ((between db)\<lparr>db_draws := n\<rparr>) = Inl IntegrityError"
    for i k iid kid pid n
    by (auto simp: insert_parent_rows_def new_parent_def)
  with assms show ?thesis
    by (auto simp: ensure_legacy_parent_racing_def Let_def draw_def find_source_def)
qed

theorem ensure_race_loser_witness:
  "\<exists>n. ensure_legacy_parent_racing sample_env (\<lambda>_. sample_db1) sample_source empty_db
     = Inr (sample_order, sample_db1\<lparr>db_draws := n\<rparr>)"
  by (rule ensure_race_loser)
    (simp_all add: sample_source_def strip_sample empty_db_def find_source_def sample_db1_def
      sample_order_def new_parent_def)

lemma look_event_frame:
  "db_events db' = db_events db \<Longrightarrow> db_parents db' = db_parents db \<Longrightarrow> look_event k db' = look_event k db"
  by (simp add: look_event_def find_event_def find_parent_def split: option.split)

lemma record_new_event:
  assumes "ids_distinct db" and "\<forall>n. uuid5 env n \<noteq> []" and "record_fill env g db = Inr (f, db1)"
    and "find_fill (strip (g_external_source g)) (strip (g_external_fill_id g)) db = None"
  shows "\<exists>r. look_event (g_parent_order_id g, fill_event_id env
      (fill_identity (strip (g_external_source g)) (strip (g_external_fill_id g)))) db1 = Some r"
  using assms(3)
proof (cases rule: record_fillE)
  case (new p rid db2 row)
  have "ids_distinct db2" using new(4) assms(1) by (simp add: ids_distinct_def)
  from append_stores [OF this new(5)] find_parentD [OF new(1)] assms(2) show ?thesis
    by (auto simp: fill_event_def append_defaults_def fill_event_id_def)
qed (use assms(4) in simp)

text \<open>Two venue identities whose names coincide lose a fill: the event id and the fill
  key are made from \<open>source:fill_id\<close>, so if a recorded fill and a new one differ as pairs
  but agree as that string (a colon inside the source or the id), the new fill row is
  stored while no event is appended and no parent row, hence no filled quantity, changes.\<close>

theorem colliding_fill_not_counted:
  assumes "ids_distinct db" and "\<forall>n. uuid5 env n \<noteq> []" and "record_fill env g db = Inr (f, db1)"
    and "find_fill (strip (g_external_source g)) (strip (g_external_fill_id g)) db = None"
    and "fill_identity (strip (g_external_source g')) (strip (g_external_fill_id g'))
       = fill_identity (strip (g_external_source g)) (strip (g_external_fill_id g))"
    and "find_fill (strip (g_external_source g')) (strip (g_external_fill_id g')) db1 = None"
    and "strip (g_external_source g') \<noteq> []" and "strip (g_external_fill_id g') \<noteq> []"
    and "g_parent_order_id g' = g_parent_order_id g"
    and "uuid4 env (db_draws db1) \<notin> f_id ` set (db_fills db1)"
  shows "\<exists>f' db2. record_fill env g' db1 = Inr (f', db2) \<and> db_fills db2 = db_fills db1 @ [f']
    \<and> db_events db2 = db_events db1 \<and> db_parents db2 = db_parents db1"
proof -
  let ?src = "strip (g_external_source g')" and ?fid = "strip (g_external_fill_id g')"
  let ?rid = "uuid4 env (db_draws db1)"
  from record_new_event [OF assms(1-4)] obtain r where
    r: "look_event (g_parent_order_id g', fill_event_id env (fill_identity ?src ?fid)) db1 = Some r"
    by (auto simp: assms(5,9))
  then obtain p where p: "find_parent (g_parent_order_id g') db1 = Some p"
    by (auto simp: look_event_def split: option.splits if_splits)
  then have pid: "p_id p = g_parent_order_id g'" by (simp add: find_parentD)
  let ?f = "fill_row env g' ?rid (p_id p) ?src ?fid"
  let ?db2 = "db1\<lparr>db_draws := Suc (db_draws db1), db_fills := db_fills db1 @ [?f]\<rparr>"
  have ins: "insert_fill ?f (db1\<lparr>db_draws := Suc (db_draws db1)\<rparr>) = Inr ?db2"
    using assms(6,10) by (force simp: insert_fill_def fill_row_def find_fill_def find_None_iff_all)
  have "append_event env (fill_event env g' ?rid (p_id p) ?src ?fid) ?db2 = Inr (r, ?db2)"
  proof (rule append_again)
    show "truthy (a_event_id (fill_event env g' ?rid (p_id p) ?src ?fid))"
      using assms(2) by (simp add: fill_event_def fill_event_id_def)
    show "look_event (a_parent_order_id (fill_event env g' ?rid (p_id p) ?src ?fid),
        the (a_event_id (fill_event env g' ?rid (p_id p) ?src ?fid))) ?db2 = Some r"
      using r look_event_frame [of ?db2 db1] by (simp add: fill_event_def append_defaults_def pid)
  qed
  with p ins assms(6-8) show ?thesis by (simp add: record_fill_def draw_def Let_def)
qed

subsection \<open>A recorded fill\<close>

definition sample_active_order :: ExecutionParentOrder where
  "sample_active_order = sample_order\<lparr>p_state := ''active''\<rparr>"

definition sample_active :: ExecDB where
  "sample_active = empty_db\<lparr>db_parents := [sample_active_order], db_draws := 3\<rparr>"

definition sample_fill_args :: "string \<Rightarrow> string \<Rightarrow> FillArgs" where
  "sample_fill_args src fid = \<lparr>g_parent_order_id = ''uu'', g_external_source = src, g_external_fill_id = fid,
     g_quantity = ''1'', g_price = ''3'', g_occurred_at = 5, g_child_placement_id = None,
     g_quantity_asset = None, g_price_asset = None, g_input_asset = None, g_input_amount = None,
     g_output_asset = None, g_output_amount = None, g_fee_amount = None, g_fee_asset = None,
     g_liquidity_role = None, g_metadata = []\<rparr>"

definition sample_active_snapshot :: ExecutionSnapshot where
  "sample_active_snapshot = (initial_snapshot ''uu'' (Some (Dec False 2 0)))\<lparr>sn_state := ACTIVE\<rparr>"

definition sample_filled_snapshot :: "string \<Rightarrow> string \<Rightarrow> ExecutionSnapshot" where
  "sample_filled_snapshot eid key = sample_active_snapshot\<lparr>sn_state := PARTIAL, sn_sequence := 1,
     sn_filled_quantity := Dec False 1 0, sn_average_fill_price := Some (Dec False 3 0),
     sn_applied_event_ids := {eid}, sn_applied_fill_keys := {key}\<rparr>"

lemma sample_active_snapshot: "snapshot_from_parent sample_active_order = Inr sample_active_snapshot"
  by (simp add: sample_active_order_def sample_active_snapshot_def sample_order_def new_parent_def sample_source_def
      snapshot_from_parent_def parent_state_def decimal_or_none_def decimal_or_zero_def initial_snapshot_def
      ps_of_value_def all_states_def dec_compute strip_sample sample_env_def)

lemma sample_reduce_fill:
  assumes "src \<noteq> []"
  shows "reduce_event sample_active_snapshot
     (lifecycle_event (fill_event env (sample_fill_args src0 fid0) rid ''uu'' src fid) eid 1)
   = Inr (sample_filled_snapshot eid (fill_identity src fid))"
  using assms by (simp add: sample_active_snapshot_def sample_filled_snapshot_def lifecycle_event_def fill_event_def
      append_defaults_def sample_fill_args_def reducer_compute dec_compute fill_identity_def)

definition sample_filled :: "string \<Rightarrow> string \<Rightarrow> ExecDB" where
  "sample_filled src fid =
     (let f = fill_row sample_env (sample_fill_args src fid) ''uuu'' ''uu'' src fid;
          a = fill_event sample_env (sample_fill_args src fid) ''uuu'' ''uu'' src fid;
          eid = fill_event_id sample_env (fill_identity src fid);
          r = event_row sample_env a eid 1
      in empty_db\<lparr>db_draws := 5, db_fills := [f], db_events := [r],
           db_outbox := [outbox_row sample_env a r ''uuuu''],
           db_parents := [materialize sample_env (sample_filled_snapshot eid (fill_identity src fid)) sample_active_order]\<rparr>)"

lemma sample_recorded:
  assumes "strip src = src" and "strip fid = fid" and "src \<noteq> []" and "fid \<noteq> []"
  shows "record_fill sample_env (sample_fill_args src fid) sample_active
    = Inr (fill_row sample_env (sample_fill_args src fid) ''uuu'' ''uu'' src fid, sample_filled src fid)"
proof -
  let ?g = "sample_fill_args src fid"
  let ?f = "fill_row sample_env ?g ''uuu'' ''uu'' src fid" and ?a = "fill_event sample_env ?g ''uuu'' ''uu'' src fid"
  let ?eid = "fill_event_id sample_env (fill_identity src fid)"
  let ?db = "sample_active\<lparr>db_draws := 4, db_fills := [?f]\<rparr>"
  have pid: "p_id sample_active_order = ''uu''"
    by (simp add: sample_active_order_def sample_order_def new_parent_def)
  have seq: "sn_sequence sample_active_snapshot = 0"
    by (simp add: sample_active_snapshot_def initial_snapshot_def)
  have par: "find_parent ''uu'' sample_active = Some sample_active_order" "find_parent ''uu'' ?db = Some sample_active_order"
    by (simp_all add: find_parent_def sample_active_def pid)
  have ev: "ev_sequence (lifecycle_event a eid n) = n" for a eid n by (simp add: lifecycle_event_def)
  have mat: "p_id (materialize env sn p) = p_id p" for env sn p by (simp add: materialize_def)
  have ids: "uuid4 sample_env 4 = ''uuuu''" by (simp add: sample_env_def eval_nat_numeral)
  have "append_to_parent sample_env ?a ?eid sample_active_order ?db
      = Inr (event_row sample_env ?a ?eid 1, sample_filled src fid)"
    using assms(3) by (simp add: append_to_parent_def sample_active_snapshot sample_reduce_fill seq draw_def
        insert_event_def put_parent_def sample_filled_def sample_active_def empty_db_def Let_def pid ev mat ids)
  moreover have "a_event_id ?a = Some ?eid" "a_parent_order_id ?a = ''uu''" "?eid \<noteq> []"
    by (simp_all add: fill_event_def append_defaults_def fill_event_id_def sample_env_def)
  moreover have "find_event ?eid ?db = None" by (simp add: find_event_def sample_active_def empty_db_def)
  ultimately have app: "append_event sample_env ?a ?db = Inr (event_row sample_env ?a ?eid 1, sample_filled src fid)"
    by (simp add: append_event_def par)
  have "draw sample_env sample_active = (''uuu'', sample_active\<lparr>db_draws := 4\<rparr>)"
    by (simp add: draw_def sample_active_def sample_env_def eval_nat_numeral)
  moreover have "insert_fill ?f (sample_active\<lparr>db_draws := 4\<rparr>) = Inr ?db"
    by (simp add: insert_fill_def sample_active_def empty_db_def)
  moreover have "find_fill src fid sample_active = None"
    by (simp add: find_fill_def sample_active_def empty_db_def)
  ultimately show ?thesis using assms app
    by (simp add: record_fill_def par pid) (simp add: sample_fill_args_def par pid)
qed

lemma strip_colons: "strip ''a:b'' = ''a:b''" "strip ''c'' = ''c''" "strip ''a'' = ''a''" "strip ''b:c'' = ''b:c''"
  by (simp_all add: strip_def is_space_def)

lemma sample_active_ids: "ids_distinct sample_active"
  by (simp add: ids_distinct_def sample_active_def)

lemma sample_filled_simps [simp]:
  "db_draws (sample_filled src fid) = 5"
  "db_fills (sample_filled src fid) = [fill_row sample_env (sample_fill_args src fid) ''uuu'' ''uu'' src fid]"
  by (simp_all add: sample_filled_def Let_def empty_db_def)

theorem record_fill_exactly_once_witness:
  "record_fill sample_env (sample_fill_args ''a:b'' ''c'') (sample_filled ''a:b'' ''c'')
    = Inr (fill_row sample_env (sample_fill_args ''a:b'' ''c'') ''uuu'' ''uu'' ''a:b'' ''c'', sample_filled ''a:b'' ''c'')"
  by (rule record_fill_exactly_once [OF sample_active_ids sample_recorded rtranclp.rtrancl_refl refl])
    (simp_all add: strip_colons)

theorem colliding_fill_not_counted_witness:
  "\<exists>f db2. record_fill sample_env (sample_fill_args ''a'' ''b:c'') (sample_filled ''a:b'' ''c'') = Inr (f, db2)
     \<and> length (db_fills db2) = 2 \<and> db_parents db2 = db_parents (sample_filled ''a:b'' ''c'')"
proof -
  have "record_fill sample_env (sample_fill_args ''a:b'' ''c'') sample_active
    = Inr (fill_row sample_env (sample_fill_args ''a:b'' ''c'') ''uuu'' ''uu'' ''a:b'' ''c'', sample_filled ''a:b'' ''c'')"
    by (rule sample_recorded) (simp_all add: strip_colons)
  from colliding_fill_not_counted [OF sample_active_ids sample_uuid5 this, of "sample_fill_args ''a'' ''b:c''"]
  show ?thesis
    by (auto simp: sample_fill_args_def strip_colons find_fill_def sample_active_def empty_db_def fill_identity_def
        fill_row_def sample_env_def eval_nat_numeral)
qed

end
