(* ===== verification/LegacyAdapter.thy ===== *)
theory LegacyAdapter
  imports ExecStore
begin

text \<open>
  \<open>bot/services/legacy_swap_execution_adapter.py\<close>: the projection of a legacy swap row
  into the execution tables.  A projection is one transaction made of calls of the
  store and of writes to the child and settlement tables.
\<close>

subsection \<open>Status mapping and paths\<close>

definition STATUS_TARGET :: "(string \<times> ParentState) list" where
  "STATUS_TARGET = [
     (sw_value PENDING, DRAFT), (sw_value QUOTE_RECEIVED, READY),
     (sw_value AWAITING_APPROVAL, AUTHORIZING), (sw_value APPROVED, AUTHORIZING),
     (sw_value SIGNED, AUTHORIZING), (sw_value EXECUTING, ACTIVE), (sw_value SUBMITTED, ACTIVE),
     (sw_value CONFIRMING, ACTIVE), (sw_value SCANCELLED, CANCELLED)]"

definition FORWARD_PATH :: "ParentState list" where
  "FORWARD_PATH = [DRAFT, QUOTING, READY, AUTHORIZING, ACTIVE]"

fun index_of :: "'a list \<Rightarrow> 'a \<Rightarrow> nat option" where
  "index_of [] x = None"
| "index_of (y # ys) x = (if y = x then Some 0 else map_option Suc (index_of ys x))"

definition status_path :: "ParentState \<Rightarrow> ParentState \<Rightarrow> exec_error + ParentState list" where
  "status_path current target =
     (if current = target then Inr []
      else
        let final = (if target = RECONCILING \<and> current \<in> set FORWARD_PATH
                     then Inr (drop (the (index_of FORWARD_PATH current) + 1) FORWARD_PATH @ [RECONCILING])
                     else if target \<in> {CANCELLED, FAILED} then Inr [target]
                     else Inl LegacySwapProjectionError)
        in if current \<in> set FORWARD_PATH \<and> target \<in> set FORWARD_PATH then
             let start = the (index_of FORWARD_PATH current); stop = the (index_of FORWARD_PATH target)
             in if stop \<ge> start then Inr (drop (start + 1) (take (stop + 1) FORWARD_PATH)) else final
           else final)"

definition stable_event_id :: "env \<Rightarrow> int \<Rightarrow> string \<Rightarrow> string" where
  "stable_event_id env swap_id what = uuid5 env (''suwappu:legacy-swap:'' @ int_str swap_id @ '':'' @ what)"

definition swap_decimal :: "string option \<Rightarrow> exec_error + dec" where
  "swap_decimal v =
     (case dec_parse (py_str (opt_val v)) of
        None \<Rightarrow> Inl LegacySwapProjectionError
      | Some d \<Rightarrow> if \<not> dec_finite d \<or> \<not> dec_pos d then Inl LegacySwapProjectionError else Inr d)"

subsection \<open>The child placement\<close>

definition find_child :: "string \<Rightarrow> ExecDB \<Rightarrow> ExecutionChildPlacement option" where
  "find_child pid db = List.find (\<lambda>c. c_parent_order_id c = pid \<and> c_child_sequence c = 0) (db_children db)"

definition swap_time :: "env \<Rightarrow> SwapTransaction \<Rightarrow> datetime" where
  "swap_time env w = (case w_updated_at w of Some t \<Rightarrow> t | None \<Rightarrow> now env)"

definition new_child :: "env \<Rightarrow> string \<Rightarrow> SwapTransaction \<Rightarrow> string \<Rightarrow> ExecutionChildPlacement" where
  "new_child env pid w cid =
     \<lparr>c_id = cid, c_parent_order_id = pid, c_child_sequence = 0, c_substrate = ''direct_tx'',
      c_provider = w_route_provider w, c_venue = None, c_chain = Some (w_from_chain w), c_side = None,
      c_requested_quantity = Some (w_from_amount w), c_quantity_asset = Some (w_from_token w),
      c_limit_price = None, c_state = (if truthy (w_tx_hash w) then ''submitted'' else ''created''),
      c_idempotency_key = w_idempotency_key w, c_request_fingerprint = None, c_external_order_id = None,
      c_external_tx_hash = w_tx_hash w, c_external_intent_id = None,
      c_submitted_at = (if truthy (w_tx_hash w) then Some (swap_time env w) else None),
      c_created_at = now env, c_updated_at = now env\<rparr>"

definition ensure_child ::
  "env \<Rightarrow> string \<Rightarrow> SwapTransaction \<Rightarrow> ExecDB \<Rightarrow> exec_error + (ExecutionChildPlacement \<times> ExecDB)" where
  "ensure_child env pid w db =
     (case find_child pid db of
        None \<Rightarrow>
          let (cid, db1) = draw env db; child = new_child env pid w cid
          in bindE (insert_child child db1) (\<lambda>db'. Inr (child, db'))
      | Some child \<Rightarrow>
          if truthy (w_tx_hash w) \<and> \<not> truthy (c_external_tx_hash child) then
            let child' = child\<lparr>c_external_tx_hash := w_tx_hash w,
                  c_submitted_at := (case c_submitted_at child of Some t \<Rightarrow> Some t | None \<Rightarrow> Some (swap_time env w)),
                  c_state := ''submitted'', c_updated_at := now env\<rparr>
            in Inr (child', put_child child' db)
          else if truthy (w_tx_hash w) \<and> c_external_tx_hash child \<noteq> w_tx_hash w
            then Inl LegacySwapProjectionError
          else Inr (child, db))"

subsection \<open>Moving the parent\<close>

definition state_of :: "string \<Rightarrow> ExecDB \<Rightarrow> exec_error + ParentState" where
  "state_of pid db = (case find_parent pid db of None \<Rightarrow> Inl ParentNotFoundError | Some p \<Rightarrow> parent_state p)"

definition swap_event :: "env \<Rightarrow> SwapTransaction \<Rightarrow> string \<Rightarrow> string \<Rightarrow> string \<Rightarrow> AppendArgs" where
  "swap_event env w pid ty what =
     (append_defaults pid ty)\<lparr>a_event_id := Some (stable_event_id env (w_id w) what),
        a_correlation_id := Some (''swap:'' @ int_str (w_id w))\<rparr>"

definition move_event :: "env \<Rightarrow> SwapTransaction \<Rightarrow> string \<Rightarrow> ParentState \<Rightarrow> ParentState \<Rightarrow> AppendArgs" where
  "move_event env w pid from next_state =
     (swap_event env w pid ''parent_state_changed'' (''state:'' @ ps_value next_state))
       \<lparr>a_from_state := Some from, a_to_state := Some next_state,
        a_payload := [(''legacy_swap_status'', PStr (w_status w))]\<rparr>"

fun append_states :: "env \<Rightarrow> SwapTransaction \<Rightarrow> string \<Rightarrow> ParentState list \<Rightarrow> ExecDB \<Rightarrow> exec_error + ExecDB" where
  "append_states env w pid [] db = Inr db"
| "append_states env w pid (next_state # rest) db =
     bindE (state_of pid db) (\<lambda>from.
     bindE (append_event env (move_event env w pid from next_state) db) (\<lambda>(_, db').
     append_states env w pid rest db'))"

definition append_path :: "env \<Rightarrow> SwapTransaction \<Rightarrow> string \<Rightarrow> ParentState \<Rightarrow> ExecDB \<Rightarrow> exec_error + ExecDB" where
  "append_path env w pid target db =
     bindE (state_of pid db) (\<lambda>current.
     bindE (status_path current target) (\<lambda>path.
     append_states env w pid path db))"

definition prepare_realized_fill :: "env \<Rightarrow> SwapTransaction \<Rightarrow> string \<Rightarrow> ExecDB \<Rightarrow> exec_error + ExecDB" where
  "prepare_realized_fill env w pid db =
     bindE (state_of pid db) (\<lambda>current.
     if current \<in> {ACTIVE, PARTIAL, RECONCILING, FILLED} then Inr db
     else if current \<in> set TERMINAL_STATES then Inl LegacySwapProjectionError
     else append_path env w pid ACTIVE db)"

subsection \<open>The realised fill and the settlement\<close>

definition opt_float :: "string option \<Rightarrow> pyval" where
  "opt_float v = (case v of None \<Rightarrow> PNone | Some s \<Rightarrow> PFloat s)"

definition realized_fill_args ::
  "env \<Rightarrow> SwapTransaction \<Rightarrow> string \<Rightarrow> string \<Rightarrow> dec \<Rightarrow> dec \<Rightarrow> dec \<Rightarrow> FillArgs" where
  "realized_fill_args env w pid cid input_amount output_amount execution_rate =
     \<lparr>g_parent_order_id = pid, g_external_source = py_or (w_route_provider w) ''legacy_swap'',
      g_external_fill_id = ''swap:'' @ int_str (w_id w) @ '':realized'',
      g_quantity = dec_str input_amount, g_price = dec_str execution_rate,
      g_occurred_at = (case w_completed_at w of Some t \<Rightarrow> t | None \<Rightarrow> swap_time env w),
      g_child_placement_id = Some cid, g_quantity_asset = Some (w_from_token w),
      g_price_asset = Some (w_to_token w), g_input_asset = Some (w_from_token w),
      g_input_amount = Some (dec_str input_amount), g_output_asset = Some (w_to_token w),
      g_output_amount = Some (dec_str output_amount), g_fee_amount = None, g_fee_asset = None,
      g_liquidity_role = None,
      g_metadata = [(''legacy_swap_id'', PInt (w_id w)), (''tx_hash'', opt_val (w_tx_hash w)),
        (''destination_tx_hash'', opt_val (w_destination_tx_hash w)),
        (''quote_to_amount'', opt_val (w_to_amount w)), (''rate_convention'', PStr ''output_per_input''),
        (''legacy_gas_fee_usd_estimate'', opt_float (w_gas_fee w)),
        (''legacy_bridge_fee_usd_estimate'', opt_float (w_bridge_fee w))]\<rparr>"

definition record_realized_fill ::
  "env \<Rightarrow> SwapTransaction \<Rightarrow> string \<Rightarrow> string \<Rightarrow> ExecDB \<Rightarrow> exec_error + ExecDB" where
  "record_realized_fill env w pid cid db =
     bindE (swap_decimal (Some (w_from_amount w))) (\<lambda>input_amount.
     bindE (swap_decimal (w_realized_to_amount w)) (\<lambda>output_amount.
     bindE (mapErr DecimalFault (dec_div output_amount input_amount)) (\<lambda>execution_rate.
     bindE (record_fill env (realized_fill_args env w pid cid input_amount output_amount execution_rate) db)
       (\<lambda>(_, db'). Inr db'))))"

definition find_settlement :: "string \<Rightarrow> string \<Rightarrow> ExecDB \<Rightarrow> ExecutionSettlement option" where
  "find_settlement src ref db =
     List.find (\<lambda>s. s_external_source s = src \<and> s_external_ref s = ref
                    \<and> s_settlement_type s = ''swap_delivery'') (db_settlements db)"

definition recovery_note :: "SwapTransaction \<Rightarrow> jobj" where
  "recovery_note w = [(''reason'', PStr ''missing_authoritative_realized_output''),
     (''destination_tx_hash'', opt_val (w_destination_tx_hash w))]"

definition new_settlement ::
  "env \<Rightarrow> SwapTransaction \<Rightarrow> string \<Rightarrow> string \<Rightarrow> string \<Rightarrow> string \<Rightarrow> string \<Rightarrow> string \<Rightarrow> ExecutionSettlement" where
  "new_settlement env w pid cid src ref state sid =
     \<lparr>s_id = sid, s_parent_order_id = pid, s_child_placement_id = Some cid,
      s_settlement_type = ''swap_delivery'', s_external_source = src, s_external_ref = ref,
      s_state = state, s_chain = Some (w_to_chain w), s_asset = Some (w_to_token w),
      s_amount = (if state = ''settled'' then w_realized_to_amount w else None),
      s_confirmations = None, s_finality_target = None,
      s_recovery_json = (if state = ''settled'' then None else Some (recovery_note w)),
      s_created_at = now env, s_updated_at = now env\<rparr>"

text \<open>An assignment that changes nothing issues no UPDATE and leaves \<open>updated_at\<close>.\<close>

definition touched :: "env \<Rightarrow> ExecutionSettlement \<Rightarrow> ExecutionSettlement \<Rightarrow> ExecutionSettlement" where
  "touched env old new = (if new = old then old else new\<lparr>s_updated_at := now env\<rparr>)"

definition update_settlement ::
  "env \<Rightarrow> SwapTransaction \<Rightarrow> string \<Rightarrow> string \<Rightarrow> string \<Rightarrow> ExecutionSettlement \<Rightarrow> exec_error + ExecutionSettlement" where
  "update_settlement env w pid cid state s =
     (if s_parent_order_id s \<noteq> pid then Inl LegacySwapProjectionError
      else if s_child_placement_id s \<notin> {None, Some cid} then Inl LegacySwapProjectionError
      else
        let s1 = s\<lparr>s_child_placement_id := Some cid\<rparr> in
        if state = ''settled'' then
          bindE (swap_decimal (w_realized_to_amount w)) (\<lambda>d.
          let realized = dec_str d in
          if truthy (s_amount s1) \<and> s_amount s1 \<noteq> Some realized then Inl LegacySwapProjectionError
          else Inr (touched env s (s1\<lparr>s_state := ''settled'', s_chain := Some (w_to_chain w),
                 s_asset := Some (w_to_token w), s_amount := Some realized, s_recovery_json := None\<rparr>)))
        else if s_state s1 \<noteq> ''settled'' then
          Inr (touched env s (s1\<lparr>s_state := ''reconciling'', s_recovery_json := Some (recovery_note w)\<rparr>))
        else Inr (touched env s s1))"

definition settlement_event ::
  "env \<Rightarrow> SwapTransaction \<Rightarrow> string \<Rightarrow> ExecutionSettlement \<Rightarrow> string \<Rightarrow> string \<Rightarrow> AppendArgs" where
  "settlement_event env w pid s src ref =
     (swap_event env w pid ''settlement_observed'' (''settlement:'' @ s_state s))
       \<lparr>a_payload := [(''settlement_id'', PStr (s_id s)), (''settlement_state'', PStr (s_state s)),
          (''external_source'', PStr src), (''external_ref'', PStr ref),
          (''destination_tx_hash'', opt_val (w_destination_tx_hash w)),
          (''realized_output'', opt_val (s_amount s))]\<rparr>"

definition project_settlement ::
  "env \<Rightarrow> SwapTransaction \<Rightarrow> string \<Rightarrow> string \<Rightarrow> string \<Rightarrow> ExecDB \<Rightarrow> exec_error + ExecDB" where
  "project_settlement env w pid cid state db =
     (if \<not> truthy (w_tx_hash w) then Inr db
      else
        let src = py_or (w_route_provider w) ''legacy_swap''; ref = the (w_tx_hash w) in
        bindE (case find_settlement src ref db of
                 None \<Rightarrow>
                   let (sid, db1) = draw env db; s = new_settlement env w pid cid src ref state sid
                   in bindE (insert_settlement s db1) (\<lambda>db2. Inr (s, db2))
               | Some s \<Rightarrow> bindE (update_settlement env w pid cid state s) (\<lambda>s'. Inr (s', put_settlement s' db)))
          (\<lambda>(s, db2).
        bindE (append_event env (settlement_event env w pid s src ref) db2) (\<lambda>(_, db'). Inr db')))"

subsection \<open>The projection\<close>

definition swap_source :: "SwapTransaction \<Rightarrow> EnsureArgs" where
  "swap_source w =
     \<lparr>n_source_type = ''swap'', n_source_ref = int_str (w_id w),
      n_principal_key = ''user:'' @ int_str (w_user_id w), n_intent_type = ''swap'',
      n_substrate = ''direct_tx'', n_provider = w_route_provider w, n_user_id = Some (w_user_id w),
      n_side = None, n_amount_mode = Some ''exact_in'', n_from_chain = Some (w_from_chain w),
      n_to_chain = Some (w_to_chain w), n_from_asset = Some (w_from_token w),
      n_to_asset = Some (w_to_token w), n_requested_quantity = Some (w_from_amount w),
      n_quantity_asset = Some (w_from_token w), n_requested_notional = None,
      n_idempotency_key = w_idempotency_key w,
      n_constraints = [(''slippage_bps'', case w_slippage w of None \<Rightarrow> PNone | Some i \<Rightarrow> PInt i)],
      n_metadata = [(''legacy_swap_id'', PInt (w_id w))]\<rparr>"

definition status_event :: "env \<Rightarrow> SwapTransaction \<Rightarrow> string \<Rightarrow> AppendArgs" where
  "status_event env w pid =
     (swap_event env w pid ''legacy_status_observed'' (''legacy-status:'' @ w_status w))
       \<lparr>a_payload := [(''status'', PStr (w_status w)), (''tx_hash'', opt_val (w_tx_hash w)),
          (''error_category'', opt_val (w_error_category w))]\<rparr>"

definition project_outcome :: "env \<Rightarrow> SwapTransaction \<Rightarrow> string \<Rightarrow> string \<Rightarrow> ExecDB \<Rightarrow> exec_error + ExecDB" where
  "project_outcome env w pid cid db =
     (if w_status w = sw_value COMPLETED then
        (if truthy (w_realized_to_amount w) then
           bindE (prepare_realized_fill env w pid db) (\<lambda>db1.
           bindE (record_realized_fill env w pid cid db1) (\<lambda>db2.
           project_settlement env w pid cid ''settled'' db2))
         else
           bindE (append_path env w pid RECONCILING db) (\<lambda>db1.
           project_settlement env w pid cid ''reconciling'' db1))
      else if w_status w = sw_value SFAILED then
        bindE (append_path env w pid (if truthy (w_tx_hash w) then RECONCILING else FAILED) db) (\<lambda>db1.
        if truthy (w_tx_hash w) then project_settlement env w pid cid ''reconciling'' db1 else Inr db1)
      else
        (case map_of STATUS_TARGET (w_status w) of
           None \<Rightarrow> Inl LegacySwapProjectionError
         | Some target \<Rightarrow> append_path env w pid target db))"

definition project_legacy_swap :: "env \<Rightarrow> SwapTransaction \<Rightarrow> ExecDB \<Rightarrow> exec_error + (string \<times> ExecDB)" where
  "project_legacy_swap env w db =
     bindE (ensure_legacy_parent env (swap_source w) db) (\<lambda>(parent, db1).
     bindE (ensure_child env (p_id parent) w db1) (\<lambda>(child, db2).
     bindE (append_event env (status_event env w (p_id parent)) db2) (\<lambda>(_, db3).
     bindE (project_outcome env w (p_id parent) (c_id child) db3) (\<lambda>db4.
     Inr (p_id parent, db4)))))"

subsection \<open>Paths\<close>

fun legal_chain :: "ParentState \<Rightarrow> ParentState list \<Rightarrow> bool" where
  "legal_chain s [] = True"
| "legal_chain s (t # ts) = (t \<in> set (ALLOWED_TRANSITIONS s) \<and> legal_chain t ts)"

lemmas path_compute = status_path_def FORWARD_PATH_def TERMINAL_STATES_def Let_def

text \<open>The synthesised path is legal: from any state that is not final, the states the
  adapter appends to bring a parent to a legacy status are each allowed by the lifecycle
  table from the one before, and the last of them is the target.\<close>

theorem status_path_legal:
  assumes "status_path current target = Inr path" and "current \<notin> set TERMINAL_STATES"
  shows "legal_chain current path \<and> last (current # path) = target"
  using assms by (cases current; cases target) (auto simp: path_compute)

theorem status_path_legal_witness:
  "legal_chain QUOTING [READY, AUTHORIZING, ACTIVE, RECONCILING]"
  using status_path_legal [of QUOTING RECONCILING "[READY, AUTHORIZING, ACTIVE, RECONCILING]"]
  by (simp add: path_compute)

lemma status_path_states:
  "status_path c t = Inr path \<Longrightarrow> s \<in> set path \<Longrightarrow> s \<in> set FORWARD_PATH \<or> s = t"
  by (cases c; cases t) (auto simp: path_compute)

lemma status_path_active_suffix:
  assumes "status_path c ACTIVE = Inr path" and "c' \<in> insert c (set path)"
  obtains path' where "status_path c' ACTIVE = Inr path'" "set path' \<subseteq> set path"
proof -
  have "\<exists>path'. status_path c' ACTIVE = Inr path' \<and> set path' \<subseteq> set path"
    using assms by (cases c) (auto simp: path_compute)
  with that show ?thesis by blast
qed

subsection \<open>Every projection is a run of the store\<close>

lemma store_step_frame:
  assumes "db_parents db' = db_parents db" "db_events db' = db_events db" "db_fills db' = db_fills db"
    "db_outbox db' = db_outbox db" "db_intents db' = db_intents db" "db_candidates db' = db_candidates db"
  shows "store_run env db db'"
proof -
  have "db' = db\<lparr>db_children := db_children db', db_settlements := db_settlements db',
      db_swaps := db_swaps db', db_draws := db_draws db'\<rparr>"
    using assms by (cases db; cases db') simp
  then show ?thesis by (metis store_step.other r_into_rtranclp)
qed

lemma append_run:
  "append_event env a db = Inr (r, db') \<Longrightarrow> a_event_type a \<noteq> ''fill_recorded'' \<Longrightarrow> store_run env db db'"
  by (blast intro: store_step.append)

lemma event_types [simp]:
  "a_event_type (swap_event env w pid ty what) = ty"
  "a_event_type (move_event env w pid c t) = ''parent_state_changed''"
  "a_event_type (settlement_event env w pid s src ref) = ''settlement_observed''"
  "a_event_type (status_event env w pid) = ''legacy_status_observed''"
  "a_parent_order_id (swap_event env w pid ty what) = pid"
  "a_parent_order_id (move_event env w pid c t) = pid"
  "a_parent_order_id (settlement_event env w pid s src ref) = pid"
  "a_parent_order_id (status_event env w pid) = pid"
  "a_event_id (swap_event env w pid ty what) = Some (stable_event_id env (w_id w) what)"
  "a_event_id (move_event env w pid c t) = Some (stable_event_id env (w_id w) (''state:'' @ ps_value t))"
  "a_event_id (settlement_event env w pid s src ref) = Some (stable_event_id env (w_id w) (''settlement:'' @ s_state s))"
  "a_event_id (status_event env w pid) = Some (stable_event_id env (w_id w) (''legacy-status:'' @ w_status w))"
  by (simp_all add: swap_event_def move_event_def settlement_event_def status_event_def append_defaults_def)

lemma ensure_child_frame:
  assumes "ensure_child env pid w db = Inr (c, db')"
  shows "db_parents db' = db_parents db \<and> db_events db' = db_events db \<and> db_fills db' = db_fills db
    \<and> db_settlements db' = db_settlements db \<and> store_run env db db'"
proof -
  have "db_parents db' = db_parents db \<and> db_events db' = db_events db \<and> db_fills db' = db_fills db
    \<and> db_outbox db' = db_outbox db \<and> db_intents db' = db_intents db \<and> db_candidates db' = db_candidates db
    \<and> db_settlements db' = db_settlements db"
    using assms
    by (auto simp: ensure_child_def Let_def draw_def insert_child_def monad_simps put_child_def
        split: option.splits if_splits)
  then show ?thesis using store_step_frame [of db' db env] by simp
qed

lemma append_states_run:
  "append_states env w pid path db = Inr db' \<Longrightarrow> store_run env db db' \<and> db_fills db' = db_fills db
     \<and> db_children db' = db_children db \<and> db_settlements db' = db_settlements db"
proof (induction path arbitrary: db)
  case (Cons s path)
  then obtain cur r db1 where ap: "append_event env (move_event env w pid cur s) db = Inr (r, db1)"
    and rest: "append_states env w pid path db1 = Inr db'" by (auto simp: monad_simps)
  from append_run [OF ap] Cons.IH [OF rest] append_event_fills [OF ap]
  show ?case by (auto intro: rtranclp_trans)
qed simp

lemma append_path_run:
  "append_path env w pid t db = Inr db' \<Longrightarrow> store_run env db db' \<and> db_fills db' = db_fills db
     \<and> db_children db' = db_children db \<and> db_settlements db' = db_settlements db"
  by (auto simp: append_path_def monad_simps dest: append_states_run)

lemma prepare_run:
  "prepare_realized_fill env w pid db = Inr db' \<Longrightarrow> store_run env db db' \<and> db_fills db' = db_fills db
     \<and> db_children db' = db_children db \<and> db_settlements db' = db_settlements db"
  by (auto simp: prepare_realized_fill_def monad_simps dest: append_path_run split: if_splits)

lemma settlement_run:
  assumes "project_settlement env w pid cid st db = Inr db'"
  shows "store_run env db db' \<and> db_fills db' = db_fills db \<and> db_children db' = db_children db"
proof (cases "truthy (w_tx_hash w)")
  case True
  let ?src = "py_or (w_route_provider w) ''legacy_swap''" and ?ref = "the (w_tx_hash w)"
  from assms True obtain s db2 r where
    upd: "(case find_settlement ?src ?ref db of
                 None \<Rightarrow>
                   let (sid, db1) = draw env db; s = new_settlement env w pid cid ?src ?ref st sid
                   in bindE (insert_settlement s db1) (\<lambda>db2. Inr (s, db2))
               | Some s \<Rightarrow> bindE (update_settlement env w pid cid st s) (\<lambda>s'. Inr (s', put_settlement s' db)))
        = Inr (s, db2)"
    and ap: "append_event env (settlement_event env w pid s ?src ?ref) db2 = Inr (r, db')"
    by (auto simp: project_settlement_def Let_def monad_simps)
  from upd have "db_parents db2 = db_parents db \<and> db_events db2 = db_events db \<and> db_fills db2 = db_fills db
    \<and> db_outbox db2 = db_outbox db \<and> db_intents db2 = db_intents db \<and> db_candidates db2 = db_candidates db
    \<and> db_children db2 = db_children db"
    by (auto simp: Let_def draw_def insert_settlement_def monad_simps put_settlement_def
        split: option.splits if_splits)
  moreover from this have "store_run env db db2" using store_step_frame [of db2 db env] by simp
  ultimately show ?thesis using append_run [OF ap] append_event_fills [OF ap]
    by (auto intro: rtranclp_trans)
qed (use assms in \<open>simp add: project_settlement_def\<close>)

lemma record_realized_run:
  "record_realized_fill env w pid cid db = Inr db' \<Longrightarrow> store_run env db db'"
  by (auto simp: record_realized_fill_def monad_simps intro: store_step.fill)

lemma project_outcome_run:
  "project_outcome env w pid cid db = Inr db' \<Longrightarrow> store_run env db db'"
  by (auto simp: project_outcome_def monad_simps
      dest!: prepare_run record_realized_run settlement_run append_path_run
      split: if_splits option.splits intro: rtranclp_trans)

lemma project_run:
  assumes "project_legacy_swap env w db = Inr (pid, db')"
  shows "store_run env db db'"
proof -
  from assms obtain p db1 c db2 r db3 where
    e: "ensure_legacy_parent env (swap_source w) db = Inr (p, db1)"
    and c: "ensure_child env (p_id p) w db1 = Inr (c, db2)"
    and s: "append_event env (status_event env w (p_id p)) db2 = Inr (r, db3)"
    and o: "project_outcome env w (p_id p) (c_id c) db3 = Inr db'"
    by (auto simp: project_legacy_swap_def monad_simps)
  have "store_run env db db1" using store_step.ensure [OF e] by blast
  moreover have "store_run env db1 db2" using ensure_child_frame [OF c] by blast
  moreover have "store_run env db2 db3" using append_run [OF s] by simp
  ultimately show ?thesis using project_outcome_run [OF o] by (meson rtranclp_trans)
qed

lemma ensure_fills:
  "ensure_legacy_parent env a db = Inr (p, db') \<Longrightarrow> db_fills db' = db_fills db \<and> db_children db' = db_children db
    \<and> db_settlements db' = db_settlements db"
  unfolding ensure_legacy_parent_def
  by (erule ensure_racingE) (auto dest: insert_parent_rows_Inr)

subsection \<open>Fills come from realised amounts only\<close>

definition realised_fill :: "SwapTransaction \<Rightarrow> string \<Rightarrow> ExecutionFill \<Rightarrow> bool" where
  "realised_fill w pid f =
     (case (swap_decimal (Some (w_from_amount w)), swap_decimal (w_realized_to_amount w)) of
        (Inr i, Inr q) \<Rightarrow> f_parent_order_id f = pid \<and> f_quantity f = dec_str i
          \<and> f_input_amount f = Some (dec_str i) \<and> f_output_amount f = Some (dec_str q)
          \<and> (case dec_div q i of Inr rate \<Rightarrow> f_price f = dec_str rate | Inl _ \<Rightarrow> False)
      | _ \<Rightarrow> False)"

lemma record_realized_fills:
  assumes "record_realized_fill env w pid cid db = Inr db'"
  shows "db_fills db' = db_fills db \<or> (\<exists>f. db_fills db' = db_fills db @ [f] \<and> realised_fill w pid f)"
proof -
  from assms obtain i q rate f where
    d: "swap_decimal (Some (w_from_amount w)) = Inr i" "swap_decimal (w_realized_to_amount w) = Inr q"
       "dec_div q i = Inr rate"
    and rec: "record_fill env (realized_fill_args env w pid cid i q rate) db = Inr (f, db')"
    by (auto simp: record_realized_fill_def monad_simps)
  from rec show ?thesis
  proof (cases rule: record_fillE)
    case (new p rid db2 row)
    have "db_fills db' = db_fills db @ [f]" using append_event_fills [OF new(5)] new(4) by simp
    moreover have "realised_fill w pid f"
      using new(3) d find_parentD [OF new(1)]
      by (simp add: realised_fill_def fill_row_def realized_fill_args_def)
    ultimately show ?thesis by blast
  qed simp
qed

lemma project_outcome_fills:
  assumes "project_outcome env w pid cid db = Inr db'"
  shows "db_fills db' = db_fills db \<or> (w_status w = ''completed'' \<and> truthy (w_realized_to_amount w)
     \<and> (\<exists>f. db_fills db' = db_fills db @ [f] \<and> realised_fill w pid f))"
proof (cases "w_status w = ''completed'' \<and> truthy (w_realized_to_amount w)")
  case True
  with assms obtain db1 db2 where "prepare_realized_fill env w pid db = Inr db1"
    "record_realized_fill env w pid cid db1 = Inr db2" "project_settlement env w pid cid ''settled'' db2 = Inr db'"
    by (auto simp: project_outcome_def monad_simps)
  with prepare_run record_realized_fills settlement_run True show ?thesis by metis
next
  case False
  with assms show ?thesis
    by (auto simp: project_outcome_def monad_simps dest!: settlement_run append_path_run
        split: if_splits option.splits)
qed

text \<open>C4: The adapter never manufactures a fill: a projection adds at most one fill row; it
  adds one only for a completed swap with an observed realised output, and then the
  quantity is the swap's input amount, the output is the realised amount and the price is
  their quotient.  The quoted \<open>to_amount\<close> plays no part.\<close>

theorem no_fill_without_realised_output:
  assumes "project_legacy_swap env w db = Inr (pid, db')"
  shows "db_fills db' = db_fills db \<or> (w_status w = ''completed'' \<and> truthy (w_realized_to_amount w)
     \<and> (\<exists>f. db_fills db' = db_fills db @ [f] \<and> realised_fill w pid f))"
proof -
  from assms obtain p db1 c db2 r db3 where
    e: "ensure_legacy_parent env (swap_source w) db = Inr (p, db1)"
    and c: "ensure_child env (p_id p) w db1 = Inr (c, db2)"
    and s: "append_event env (status_event env w (p_id p)) db2 = Inr (r, db3)"
    and o: "project_outcome env w (p_id p) (c_id c) db3 = Inr db'" and pid: "pid = p_id p"
    by (auto simp: project_legacy_swap_def monad_simps)
  show ?thesis
    using project_outcome_fills [OF o] ensure_fills [OF e] ensure_child_frame [OF c] append_event_fills [OF s]
    by (simp add: pid)
qed

subsection \<open>States reached by a path\<close>

lemma state_of_frame: "db_parents db' = db_parents db \<Longrightarrow> state_of pid db' = state_of pid db"
  by (simp add: state_of_def find_parent_def split: option.split)

lemma find_parent_row:
  "ids_distinct db \<Longrightarrow> p \<in> set (db_parents db) \<Longrightarrow> find_parent (p_id p) db = Some p"
  by (simp add: find_parent_def ids_distinct_def find_unique)

text \<open>An appended event either was stored before, or moves the parent along the reducer.\<close>

lemma append_event_state:
  assumes "append_event env a db = Inr (r, db')" and "ids_distinct db"
    and "state_of (a_parent_order_id a) db = Inr s"
  shows "\<exists>s'. state_of (a_parent_order_id a) db' = Inr s' \<and> state_step s s'
    \<and> (\<forall>t. a_event_type a = ''parent_state_changed'' \<longrightarrow> a_to_state a = Some t \<longrightarrow> s' = s \<or> s' = t)
    \<and> (a_event_type a \<in> {''settlement_observed'', ''legacy_status_observed''} \<longrightarrow> s' = s)
    \<and> (a_event_type a = ''fill_recorded'' \<longrightarrow> s' \<in> {s, PARTIAL, FILLED})"
  using assms(1)
proof (cases rule: append_eventE)
  case (1 eid p)
  then show ?thesis using assms(3) state_of_frame [of db' db] by (auto simp: state_step_def)
next
  case (2 eid p db0)
  then have d0: "db_parents db0 = db_parents db" by auto
  from 2(5) obtain cur sn1 where cur: "snapshot_from_parent p = Inr cur"
    and step: "reduce_event cur (lifecycle_event a eid (sn_sequence cur + 1)) = Inr sn1"
    and parents: "db_parents db' = upd_where (\<lambda>r. p_id r = p_id p) (\<lambda>_. materialize env sn1 p) (db_parents db)"
    by (elim append_to_parentE) (auto simp: d0)
  have s: "sn_state cur = s"
    using assms(3) 2(2) cur
    by (auto simp: state_of_def snapshot_from_parent_def parent_state_def monad_simps split: option.splits)
  have "materialize env sn1 p \<in> set (db_parents db')"
    using parents find_parentD [OF 2(2)] by (auto simp: set_upd_where)
  moreover have "ids_distinct db'"
    using append_event_ids [OF assms(1)] assms(2) by (simp add: ids_distinct_def)
  ultimately have "find_parent (a_parent_order_id a) db' = Some (materialize env sn1 p)"
    using find_parent_row [of db' "materialize env sn1 p"] find_parentD [OF 2(2)] by (simp add: materialize_def)
  then have "state_of (a_parent_order_id a) db' = Inr (sn_state sn1)"
    by (simp add: state_of_def parent_state_def materialize_def)
  moreover have "a_event_type a = ''parent_state_changed'' \<Longrightarrow> a_to_state a = Some t \<Longrightarrow>
      sn_state sn1 = sn_state cur \<or> sn_state sn1 = t" for t
    using step by (auto simp: reduce_event_def lifecycle_event_def raw_target_def monad_simps split: if_splits)
  moreover have "a_event_type a \<in> {''settlement_observed'', ''legacy_status_observed''} \<Longrightarrow>
      sn_state sn1 = sn_state cur"
    using step by (auto simp: reduce_event_def lifecycle_event_def advance_def split: if_splits)
  moreover have "a_event_type a = ''fill_recorded'' \<Longrightarrow> sn_state sn1 \<in> {sn_state cur, PARTIAL, FILLED}"
    using step by (cases rule: reduce_event_cases) (auto simp: lifecycle_event_def elim!: reduce_fill_cases)
  ultimately show ?thesis using reduce_event_step [OF step] s by auto
qed

text \<open>The event that a path appends for state \<open>t\<close> is on file.\<close>

definition move_stored :: "env \<Rightarrow> SwapTransaction \<Rightarrow> string \<Rightarrow> ExecDB \<Rightarrow> ParentState \<Rightarrow> bool" where
  "move_stored env w pid db t =
     (look_event (pid, stable_event_id env (w_id w) (''state:'' @ ps_value t)) db \<noteq> None)"

lemma append_states_state:
  assumes "append_states env w pid path db = Inr db'" and "ids_distinct db" and "state_of pid db = Inr s"
    and u: "\<forall>n. uuid5 env n \<noteq> []"
  shows "\<exists>s'. state_of pid db' = Inr s' \<and> s' \<in> insert s (set path) \<and> list_all (move_stored env w pid db') path"
  using assms(1-3)
proof (induction path arbitrary: db s)
  case (Cons t path)
  then obtain r db1 where ap: "append_event env (move_event env w pid s t) db = Inr (r, db1)"
    and rest: "append_states env w pid path db1 = Inr db'" by (auto simp: monad_simps)
  have to: "a_to_state (move_event env w pid s t) = Some t" by (simp add: move_event_def)
  from append_event_state [OF ap Cons.prems(2)] Cons.prems(3) to
  obtain s1 where s1: "state_of pid db1 = Inr s1" "s1 = s \<or> s1 = t" by auto
  have d1: "ids_distinct db1"
    using append_event_ids [OF ap] Cons.prems(2) by (simp add: ids_distinct_def)
  have "stable_event_id env (w_id w) (''state:'' @ ps_value t) \<noteq> []" using u by (simp add: stable_event_id_def)
  with append_stores [OF Cons.prems(2) ap]
  have "look_event (pid, stable_event_id env (w_id w) (''state:'' @ ps_value t)) db1 = Some r" by simp
  from steps_look(1) [OF d1 conjunct1 [OF append_states_run [OF rest]] this]
  have "move_stored env w pid db' t" by (simp add: move_stored_def)
  with Cons.IH [OF rest d1 s1(1)] s1(2) show ?case by auto
qed simp

lemma append_path_state:
  assumes "append_path env w pid t db = Inr db'" and "ids_distinct db" and "\<forall>n. uuid5 env n \<noteq> []"
  obtains s path s' where "state_of pid db = Inr s" "status_path s t = Inr path" "state_of pid db' = Inr s'"
    "s' \<in> insert s (set path)" "list_all (move_stored env w pid db') path"
proof -
  from assms(1) obtain s path where s: "state_of pid db = Inr s" "status_path s t = Inr path"
    "append_states env w pid path db = Inr db'" by (auto simp: append_path_def monad_simps)
  with append_states_state [OF s(3) assms(2) s(1) assms(3)] that show ?thesis by blast
qed

lemma settlement_state:
  assumes "project_settlement env w pid cid st db = Inr db'" and "ids_distinct db" and "state_of pid db = Inr s"
  shows "state_of pid db' = Inr s"
proof (cases "truthy (w_tx_hash w)")
  case True
  let ?src = "py_or (w_route_provider w) ''legacy_swap''" and ?ref = "the (w_tx_hash w)"
  from assms(1) True obtain x db2 r where
    upd: "(case find_settlement ?src ?ref db of
                 None \<Rightarrow>
                   let (sid, db1) = draw env db; s = new_settlement env w pid cid ?src ?ref st sid
                   in bindE (insert_settlement s db1) (\<lambda>db2. Inr (s, db2))
               | Some s \<Rightarrow> bindE (update_settlement env w pid cid st s) (\<lambda>s'. Inr (s', put_settlement s' db)))
        = Inr (x, db2)"
    and ap: "append_event env (settlement_event env w pid x ?src ?ref) db2 = Inr (r, db')"
    by (auto simp: project_settlement_def Let_def monad_simps)
  from upd have p2: "db_parents db2 = db_parents db"
    by (auto simp: Let_def draw_def insert_settlement_def monad_simps put_settlement_def
        split: option.splits if_splits)
  have "ids_distinct db2" "state_of pid db2 = Inr s"
    using assms(2,3) state_of_frame [OF p2] by (simp_all add: p2 ids_distinct_def)
  with append_event_state [OF ap] show ?thesis by auto
qed (use assms in \<open>simp add: project_settlement_def\<close>)

lemma run_ids: "store_run env db db' \<Longrightarrow> ids_distinct db \<Longrightarrow> ids_distinct db'"
  by (rule run_keeps(1))

text \<open>C31: A failure after broadcast is not final: projecting a failed swap that has a
  transaction hash leaves the parent in a forward state or in reconciling, never in
  failed or any other final state.\<close>

theorem broadcast_failure_stays_open:
  assumes "project_legacy_swap env w db = Inr (pid, db')" and "ids_distinct db"
    and "\<forall>n. uuid5 env n \<noteq> []" and "w_status w = ''failed''" and "truthy (w_tx_hash w)"
  shows "\<exists>s. state_of pid db' = Inr s \<and> s \<in> insert RECONCILING (set FORWARD_PATH)"
proof -
  from assms(1) obtain p db1 c db2 r db3 where
    e: "ensure_legacy_parent env (swap_source w) db = Inr (p, db1)"
    and c: "ensure_child env (p_id p) w db1 = Inr (c, db2)"
    and s: "append_event env (status_event env w (p_id p)) db2 = Inr (r, db3)"
    and o: "project_outcome env w (p_id p) (c_id c) db3 = Inr db'" and pid: "pid = p_id p"
    by (auto simp: project_legacy_swap_def monad_simps)
  have "store_run env db db1" using store_step.ensure [OF e] by blast
  then have d1: "ids_distinct db1" using run_ids assms(2) by blast
  then have d2: "ids_distinct db2" using run_ids ensure_child_frame [OF c] by blast
  then have d3: "ids_distinct db3" using append_event_ids [OF s] by (simp add: ids_distinct_def)
  from o assms(4,5) obtain db4 where
    path: "append_path env w pid RECONCILING db3 = Inr db4"
    and st: "project_settlement env w pid (c_id c) ''reconciling'' db4 = Inr db'"
    by (auto simp: project_outcome_def monad_simps pid)
  from append_path_state [OF path d3 assms(3)] obtain x xs y where
    x: "status_path x RECONCILING = Inr xs" "state_of pid db4 = Inr y" "y \<in> insert x (set xs)" by metis
  have "x \<in> insert RECONCILING (set FORWARD_PATH)" using x(1) by (cases x) (auto simp: path_compute)
  with x(1,3) have "y \<in> insert RECONCILING (set FORWARD_PATH)" using status_path_states by blast
  moreover have "ids_distinct db4" using append_path_run [OF path] d3 run_ids by blast
  ultimately show ?thesis using settlement_state [OF st _ x(2)] by blast
qed

subsection \<open>Projecting twice\<close>

lemma find_put:
  assumes "List.find Q rows = Some x" and "Q y" and "P x"
  shows "List.find Q (upd_where P (\<lambda>_. y) rows) = Some y"
  using assms by (induction rows) (auto split: if_splits)

text \<open>What a finished projection of a completed swap has left in the tables.\<close>

definition child_settled :: "SwapTransaction \<Rightarrow> ExecutionChildPlacement \<Rightarrow> bool" where
  "child_settled w c = (truthy (w_tx_hash w) \<longrightarrow> c_external_tx_hash c = w_tx_hash w)"

lemma ensure_child_finds:
  assumes "ensure_child env pid w db = Inr (c, db')"
  shows "find_child pid db' = Some c \<and> child_settled w c"
proof (cases "find_child pid db")
  case None
  with assms show ?thesis
    by (auto simp: ensure_child_def draw_def insert_child_def find_child_def find_append new_child_def
        child_settled_def Let_def monad_simps split: if_splits)
next
  case (Some child)
  show ?thesis
  proof (cases "truthy (w_tx_hash w) \<and> \<not> truthy (c_external_tx_hash child)")
    case True
    let ?Q = "\<lambda>c. c_parent_order_id c = pid \<and> c_child_sequence c = 0"
    from assms Some True have c: "c = child\<lparr>c_external_tx_hash := w_tx_hash w,
        c_submitted_at := (case c_submitted_at child of Some t \<Rightarrow> Some t | None \<Rightarrow> Some (swap_time env w)),
        c_state := ''submitted'', c_updated_at := now env\<rparr>" and db': "db' = put_child c db"
      by (auto simp: ensure_child_def Let_def)
    have Q: "?Q child" "child \<in> set (db_children db)" using Some by (auto simp: find_child_def dest: find_SomeD)
    have fields: "c_id child = c_id c" "?Q c" "c_external_tx_hash c = w_tx_hash w" using Q c by simp_all
    have "find_child pid db' = Some c"
      using find_put [of ?Q "db_children db" child c "\<lambda>r. c_id r = c_id c"] Some fields
      by (simp add: find_child_def put_child_def db')
    with fields(3) show ?thesis by (simp add: child_settled_def)
  next
    case False
    with assms Some show ?thesis by (auto simp: ensure_child_def child_settled_def split: if_splits)
  qed
qed

lemma ensure_child_again:
  "find_child pid db = Some c \<Longrightarrow> child_settled w c \<Longrightarrow> ensure_child env pid w db = Inr (c, db)"
  by (auto simp: ensure_child_def child_settled_def)

lemma append_states_again:
  assumes "list_all (move_stored env w pid db) path" and "state_of pid db = Inr s" and "\<forall>n. uuid5 env n \<noteq> []"
  shows "append_states env w pid path db = Inr db"
  using assms(1)
proof (induction path)
  case (Cons t path)
  then obtain r where "look_event (pid, stable_event_id env (w_id w) (''state:'' @ ps_value t)) db = Some r"
    by (auto simp: move_stored_def)
  then have "append_event env (move_event env w pid s t) db = Inr (r, db)"
    using assms(3) by (intro append_again) (simp_all add: stable_event_id_def)
  with Cons assms(2) show ?case by simp
qed simp

lemma move_stored_run:
  assumes "move_stored env w pid db t" and "ids_distinct db" and "store_run env db db'"
  shows "move_stored env w pid db' t"
  using assms(1) steps_look(1) [OF assms(2,3)] by (fastforce simp: move_stored_def)

text \<open>
  A parent is ready for its fill if it is in an executing state, or the events on the
  way to \<open>active\<close> are all on file; preparing it again then does nothing.
\<close>

definition prepared :: "env \<Rightarrow> SwapTransaction \<Rightarrow> string \<Rightarrow> ExecDB \<Rightarrow> bool" where
  "prepared env w pid db = (\<exists>s. state_of pid db = Inr s \<and>
     (s \<in> {ACTIVE, PARTIAL, RECONCILING, FILLED} \<or>
      (s \<notin> set TERMINAL_STATES \<and> (\<exists>path. status_path s ACTIVE = Inr path \<and> list_all (move_stored env w pid db) path))))"

lemma prepare_again:
  "prepared env w pid db \<Longrightarrow> \<forall>n. uuid5 env n \<noteq> [] \<Longrightarrow> prepare_realized_fill env w pid db = Inr db"
  by (auto simp: prepared_def prepare_realized_fill_def append_path_def append_states_again)

lemma prepare_prepared:
  assumes "prepare_realized_fill env w pid db = Inr db'" and "ids_distinct db" and u: "\<forall>n. uuid5 env n \<noteq> []"
  shows "prepared env w pid db'"
proof -
  from assms(1) obtain c where c: "state_of pid db = Inr c"
    by (auto simp: prepare_realized_fill_def monad_simps)
  show ?thesis
  proof (cases "c \<in> {ACTIVE, PARTIAL, RECONCILING, FILLED}")
    case True
    with assms(1) c have "db' = db" by (auto simp: prepare_realized_fill_def)
    with True c show ?thesis by (auto simp: prepared_def)
  next
    case False
    with assms(1) c have ap: "append_path env w pid ACTIVE db = Inr db'"
      by (auto simp: prepare_realized_fill_def split: if_splits)
    from append_path_state [OF ap assms(2) u] obtain path s' where
      p: "status_path c ACTIVE = Inr path" "state_of pid db' = Inr s'" "s' \<in> insert c (set path)"
        "list_all (move_stored env w pid db') path" by (metis c sum.inject(2))
    from status_path_active_suffix [OF p(1,3)] obtain path' where
      q: "status_path s' ACTIVE = Inr path'" "set path' \<subseteq> set path" .
    have "s' \<notin> set TERMINAL_STATES"
      using q(1) False p(1,3) by (cases s') (auto simp: path_compute)
    with p(2,4) q show ?thesis by (auto simp: prepared_def list_all_iff)
  qed
qed

lemma audit_prepared:
  assumes "prepared env w pid db" and "ids_distinct db" and "store_run env db db'" and "state_of pid db' = state_of pid db"
  shows "prepared env w pid db'"
  using assms move_stored_run [OF _ assms(2,3)] by (fastforce simp: prepared_def list_all_iff)

text \<open>Recording the fill moves the parent to partial or filled, or leaves it alone.\<close>

lemma record_fill_state:
  assumes "record_fill env g db = Inr (f, db')" and "ids_distinct db" and "state_of (g_parent_order_id g) db = Inr s"
  shows "\<exists>s'. state_of (g_parent_order_id g) db' = Inr s' \<and> s' \<in> {s, PARTIAL, FILLED}"
  using assms(1)
proof (cases rule: record_fillE)
  case (new p rid db2 row)
  let ?a = "fill_event env g rid (p_id p) (strip (g_external_source g)) (strip (g_external_fill_id g))"
  have pid: "p_id p = g_parent_order_id g" using find_parentD [OF new(1)] by simp
  have d2: "ids_distinct db2" "state_of (p_id p) db2 = Inr s"
    using assms(2,3) new(4) state_of_frame [of db2 db] by (simp_all add: ids_distinct_def pid)
  have a: "a_parent_order_id ?a = p_id p" "a_event_type ?a = ''fill_recorded''"
    by (simp_all add: fill_event_def append_defaults_def)
  show ?thesis
    using append_event_state [OF new(5)] d2 a pid by auto
qed (use assms(3) in auto)

definition settlement_ids :: "ExecDB \<Rightarrow> bool" where
  "settlement_ids db = distinct (map s_id (db_settlements db))"

text \<open>The settlement row that a settled projection leaves, with amount \<open>amt\<close>.\<close>

definition settled_row :: "SwapTransaction \<Rightarrow> string \<Rightarrow> string \<Rightarrow> string option \<Rightarrow> ExecutionSettlement \<Rightarrow> bool" where
  "settled_row w pid cid amt s = (s_parent_order_id s = pid \<and> s_child_placement_id s = Some cid
     \<and> s_state s = ''settled'' \<and> s_chain s = Some (w_to_chain w) \<and> s_asset s = Some (w_to_token w)
     \<and> s_amount s = amt \<and> s_recovery_json s = None)"

lemma insert_settlement_Inr:
  assumes "insert_settlement s db = Inr db'"
  shows "db_settlements db' = db_settlements db @ [s]" "s_id s \<notin> s_id ` set (db_settlements db)"
    "db_parents db' = db_parents db" "db_events db' = db_events db"
  using assms by (auto simp: insert_settlement_def split: if_splits)

lemma touched_simps [simp]:
  "s_id (touched env old new) = s_id new" "s_parent_order_id (touched env old new) = s_parent_order_id new"
  "s_child_placement_id (touched env old new) = s_child_placement_id new"
  "s_settlement_type (touched env old new) = s_settlement_type new"
  "s_external_source (touched env old new) = s_external_source new"
  "s_external_ref (touched env old new) = s_external_ref new" "s_state (touched env old new) = s_state new"
  "s_chain (touched env old new) = s_chain new" "s_asset (touched env old new) = s_asset new"
  "s_amount (touched env old new) = s_amount new" "s_recovery_json (touched env old new) = s_recovery_json new"
  by (simp_all add: touched_def)

lemma update_settled:
  assumes "update_settlement env w pid cid ''settled'' s0 = Inr s" and "swap_decimal (w_realized_to_amount w) = Inr d"
  shows "s_id s = s_id s0 \<and> s_external_source s = s_external_source s0 \<and> s_external_ref s = s_external_ref s0
    \<and> s_settlement_type s = s_settlement_type s0 \<and> settled_row w pid cid (Some (dec_str d)) s"
proof -
  from assms have "s_parent_order_id s0 = pid" and "s = touched env s0 (s0\<lparr>s_child_placement_id := Some cid,
      s_state := ''settled'', s_chain := Some (w_to_chain w), s_asset := Some (w_to_token w),
      s_amount := Some (dec_str d), s_recovery_json := None\<rparr>)"
    by (auto simp: update_settlement_def Let_def split: if_split_asm)
  then show ?thesis by (simp add: settled_row_def)
qed

lemma settled_find:
  assumes "project_settlement env w pid cid ''settled'' db = Inr db'" and "truthy (w_tx_hash w)"
    and "settlement_ids db" and "ids_distinct db" and u: "\<forall>n. uuid5 env n \<noteq> []"
    and "swap_decimal (w_realized_to_amount w) = Inr d"
  obtains s where "find_settlement (py_or (w_route_provider w) ''legacy_swap'') (the (w_tx_hash w)) db' = Some s"
    "settled_row w pid cid (if find_settlement (py_or (w_route_provider w) ''legacy_swap'') (the (w_tx_hash w)) db = None
       then w_realized_to_amount w else Some (dec_str d)) s"
    "settlement_ids db'" "s \<in> set (db_settlements db')"
    "look_event (pid, stable_event_id env (w_id w) ''settlement:settled'') db' \<noteq> None"
proof -
  let ?src = "py_or (w_route_provider w) ''legacy_swap''" and ?ref = "the (w_tx_hash w)"
  let ?amt = "if find_settlement ?src ?ref db = None then w_realized_to_amount w else Some (dec_str d)"
  let ?Q = "\<lambda>s. s_external_source s = ?src \<and> s_external_ref s = ?ref \<and> s_settlement_type s = ''swap_delivery''"
  from assms(1,2) obtain s db2 r where
    upd: "(case find_settlement ?src ?ref db of
                 None \<Rightarrow>
                   let (sid, db1) = draw env db; s = new_settlement env w pid cid ?src ?ref ''settled'' sid
                   in bindE (insert_settlement s db1) (\<lambda>db2. Inr (s, db2))
               | Some s \<Rightarrow> bindE (update_settlement env w pid cid ''settled'' s) (\<lambda>s'. Inr (s', put_settlement s' db)))
        = Inr (s, db2)"
    and ap: "append_event env (settlement_event env w pid s ?src ?ref) db2 = Inr (r, db')"
    by (auto simp: project_settlement_def Let_def monad_simps)
  have mid: "find_settlement ?src ?ref db2 = Some s \<and> settled_row w pid cid ?amt s \<and> settlement_ids db2
    \<and> s \<in> set (db_settlements db2) \<and> ids_distinct db2"
  proof (cases "find_settlement ?src ?ref db")
    case None
    then have s: "s = new_settlement env w pid cid ?src ?ref ''settled'' (fst (draw env db))"
      and ins: "insert_settlement s (snd (draw env db)) = Inr db2"
      using upd by (auto simp: case_prod_beta Let_def monad_simps)
    note rows = insert_settlement_Inr [OF ins]
    have "?Q s" by (simp add: s new_settlement_def)
    moreover have "settled_row w pid cid ?amt s" using None by (simp add: s new_settlement_def settled_row_def)
    ultimately show ?thesis
      using None rows assms(3,4)
      by (simp add: find_settlement_def find_append settlement_ids_def ids_distinct_def)
  next
    case (Some s0)
    with upd have us: "update_settlement env w pid cid ''settled'' s0 = Inr s" and db2: "db2 = put_settlement s db"
      by (auto simp: monad_simps)
    have Q0: "?Q s0" "s0 \<in> set (db_settlements db)" using Some by (auto simp: find_settlement_def dest: find_SomeD)
    have s: "s_id s = s_id s0 \<and> ?Q s \<and> settled_row w pid cid ?amt s"
      using update_settled [OF us assms(6)] Q0 Some by simp
    have "find_settlement ?src ?ref db2 = Some s"
      using find_put [of ?Q "db_settlements db" s0 s "\<lambda>r. s_id r = s_id s"] Some s
      by (simp add: find_settlement_def put_settlement_def db2)
    moreover have "map s_id (db_settlements db2) = map s_id (db_settlements db)"
      unfolding db2 put_settlement_def by simp (rule map_upd_where, simp)
    then have "settlement_ids db2" using assms(3) by (simp add: settlement_ids_def)
    moreover have "s \<in> set (db_settlements db2)"
      using Q0(2) s by (auto simp: db2 put_settlement_def set_upd_where)
    ultimately show ?thesis using s assms(4) by (simp add: db2 put_settlement_def ids_distinct_def)
  qed
  have rows: "db_settlements db' = db_settlements db2" using append_event_fills [OF ap] by simp
  have ev: "stable_event_id env (w_id w) (''settlement:'' @ s_state s) \<noteq> []"
    using u by (simp add: stable_event_id_def)
  from append_stores [OF _ ap] mid ev
  have "look_event (pid, stable_event_id env (w_id w) ''settlement:settled'') db' \<noteq> None"
    by (auto simp: settled_row_def)
  with mid rows show ?thesis
    by (intro that [of s]) (simp_all add: find_settlement_def settlement_ids_def)
qed

lemma project_settlement_again:
  assumes "find_settlement (py_or (w_route_provider w) ''legacy_swap'') (the (w_tx_hash w)) db = Some s"
    and "settled_row w pid cid (Some (dec_str d)) s" and "settlement_ids db" and "s \<in> set (db_settlements db)"
    and "look_event (pid, stable_event_id env (w_id w) ''settlement:settled'') db \<noteq> None"
    and "swap_decimal (w_realized_to_amount w) = Inr d" and "\<forall>n. uuid5 env n \<noteq> []"
  shows "project_settlement env w pid cid ''settled'' db = Inr db"
proof (cases "truthy (w_tx_hash w)")
  case True
  have same: "update_settlement env w pid cid ''settled'' s = Inr s"
    using assms(2,6) by (cases s) (auto simp: update_settlement_def settled_row_def touched_def Let_def)
  have "upd_where (\<lambda>r. s_id r = s_id s) (\<lambda>_. s) (db_settlements db) = db_settlements db"
    using assms(3,4) by (intro upd_where_idem) (auto simp: settlement_ids_def eq_key_imp_eq_value distinct_map inj_on_def)
  then have put: "put_settlement s db = db" by (simp add: put_settlement_def)
  from assms(5) obtain r where r: "look_event (pid, stable_event_id env (w_id w) ''settlement:settled'') db = Some r"
    by blast
  have "append_event env (settlement_event env w pid s (py_or (w_route_provider w) ''legacy_swap'') (the (w_tx_hash w))) db
      = Inr (r, db)"
    using r assms(2,7) by (intro append_again) (simp_all add: settled_row_def stable_event_id_def)
  with True assms(1) same put show ?thesis by (simp add: project_settlement_def)
qed (simp add: project_settlement_def)

lemma project_settlement_changed:
  assumes "find_settlement (py_or (w_route_provider w) ''legacy_swap'') (the (w_tx_hash w)) db = Some s"
    and "settled_row w pid cid amt s" and "truthy amt" and "amt \<noteq> Some (dec_str d)"
    and "swap_decimal (w_realized_to_amount w) = Inr d" and "truthy (w_tx_hash w)"
  shows "project_settlement env w pid cid ''settled'' db = Inl LegacySwapProjectionError"
  using assms by (simp add: project_settlement_def update_settlement_def settled_row_def Let_def)

lemma ensure_again_run:
  assumes "ensure_legacy_parent env a db = Inr (p, db1)" and "ids_distinct db" and "store_run env db1 db'"
  shows "\<exists>q. ensure_legacy_parent env a db' = Inr (q, db') \<and> p_id q = p_id p"
proof -
  have "strip (n_source_type a) \<noteq> [] \<and> strip (n_source_ref a) \<noteq> []"
    using assms(1) by (auto simp: ensure_legacy_parent_def ensure_legacy_parent_racing_def Let_def split: if_splits)
  with parent_writer.redelivered [OF assms(2) _ assms(1,3), of a] show ?thesis by simp
qed

lemma record_realized_again:
  assumes "record_realized_fill env w pid cid db = Inr db1" and "ids_distinct db" and "store_run env db1 db'"
  shows "record_realized_fill env w pid cid db' = Inr db'"
proof -
  from assms(1) obtain i q rate f where
    d: "swap_decimal (Some (w_from_amount w)) = Inr i" "swap_decimal (w_realized_to_amount w) = Inr q"
       "dec_div q i = Inr rate"
    and rec: "record_fill env (realized_fill_args env w pid cid i q rate) db = Inr (f, db1)"
    by (auto simp: record_realized_fill_def monad_simps)
  have ok: "strip (g_external_source (realized_fill_args env w pid cid i q rate)) \<noteq> []
      \<and> strip (g_external_fill_id (realized_fill_args env w pid cid i q rate)) \<noteq> []"
    using rec by (auto simp: record_fill_def split: if_splits)
  from fill_writer.redelivered [OF assms(2) ok rec assms(3) ok refl] d show ?thesis
    by (simp add: record_realized_fill_def)
qed

text \<open>
  A settlement created by a projection carries the raw amount, an updated one the
  normalised amount.
\<close>

definition first_amount :: "SwapTransaction \<Rightarrow> dec \<Rightarrow> ExecDB \<Rightarrow> string option" where
  "first_amount w d db =
     (if find_settlement (py_or (w_route_provider w) ''legacy_swap'') (the (w_tx_hash w)) db = None
      then w_realized_to_amount w else Some (dec_str d))"

definition settled_on_file ::
  "env \<Rightarrow> SwapTransaction \<Rightarrow> string \<Rightarrow> string \<Rightarrow> string option \<Rightarrow> ExecDB \<Rightarrow> bool" where
  "settled_on_file env w pid cid amt db =
     (case find_settlement (py_or (w_route_provider w) ''legacy_swap'') (the (w_tx_hash w)) db of
        None \<Rightarrow> False
      | Some s \<Rightarrow> settled_row w pid cid amt s \<and> settlement_ids db \<and> s \<in> set (db_settlements db)
          \<and> look_event (pid, stable_event_id env (w_id w) ''settlement:settled'') db \<noteq> None)"

text \<open>
  The parts of a projection of a completed swap whose output has been observed, and
  what each of them has left behind in the final database.
\<close>

lemma completed_projection_parts:
  assumes proj: "project_legacy_swap env w db = Inr (pid, db')" and ids: "ids_distinct db"
    and sids: "settlement_ids db" and u: "\<forall>n. uuid5 env n \<noteq> []"
    and st: "w_status w = ''completed''" and realised: "truthy (w_realized_to_amount w)"
  obtains q cid c r d where "ensure_legacy_parent env (swap_source w) db' = Inr (q, db')" "p_id q = pid"
    "ensure_child env pid w db' = Inr (c, db')" "c_id c = cid"
    "append_event env (status_event env w pid) db' = Inr (r, db')"
    "prepare_realized_fill env w pid db' = Inr db'" "record_realized_fill env w pid cid db' = Inr db'"
    "swap_decimal (w_realized_to_amount w) = Inr d"
    "truthy (w_tx_hash w) \<Longrightarrow> settled_on_file env w pid cid (first_amount w d db) db'"
proof -
  from proj obtain p db1 c db2 r db3 where
    e: "ensure_legacy_parent env (swap_source w) db = Inr (p, db1)"
    and c: "ensure_child env (p_id p) w db1 = Inr (c, db2)"
    and s: "append_event env (status_event env w (p_id p)) db2 = Inr (r, db3)"
    and o: "project_outcome env w (p_id p) (c_id c) db3 = Inr db'" and pid: "pid = p_id p"
    by (auto simp: project_legacy_swap_def monad_simps)
  from o st realised obtain db4 db5 where
    pre: "prepare_realized_fill env w pid db3 = Inr db4"
    and rec: "record_realized_fill env w pid (c_id c) db4 = Inr db5"
    and setl: "project_settlement env w pid (c_id c) ''settled'' db5 = Inr db'"
    by (auto simp: project_outcome_def monad_simps pid)
  have r1: "store_run env db db1" using store_step.ensure [OF e] by blast
  have r2: "store_run env db1 db2" using ensure_child_frame [OF c] by blast
  have r3: "store_run env db2 db3" using append_run [OF s] by simp
  have r4: "store_run env db3 db4" using prepare_run [OF pre] by simp
  have r5: "store_run env db4 db5" by (rule record_realized_run [OF rec])
  have r6: "store_run env db5 db'" using settlement_run [OF setl] by simp
  note d1 = run_ids [OF r1 ids] note d2 = run_ids [OF r2 d1] note d3 = run_ids [OF r3 d2]
  note d4 = run_ids [OF r4 d3] note d5 = run_ids [OF r5 d4]
  note r56 = rtranclp_trans [OF r5 r6] note r46 = rtranclp_trans [OF r4 r56]
  note r36 = rtranclp_trans [OF r3 r46] note r26 = rtranclp_trans [OF r2 r36]
  from ensure_again_run [OF e ids r26] obtain q where
    q: "ensure_legacy_parent env (swap_source w) db' = Inr (q, db')" "p_id q = pid" by (auto simp: pid)
  from rec obtain f i qd rate where dec: "swap_decimal (w_realized_to_amount w) = Inr qd"
    and rf: "record_fill env (realized_fill_args env w pid (c_id c) i qd rate) db4 = Inr (f, db5)"
    by (auto simp: record_realized_fill_def monad_simps)
  have kids: "db_children db' = db_children db2"
  proof -
    have "db_children db5 = db_children db4"
      using rf by (cases rule: record_fillE) (auto dest: append_event_fills)
    then show ?thesis
      using append_event_fills [OF s] prepare_run [OF pre] settlement_run [OF setl] by simp
  qed
  have child: "ensure_child env pid w db' = Inr (c, db')"
    using ensure_child_finds [OF c] kids by (intro ensure_child_again) (auto simp: find_child_def pid)
  have "stable_event_id env (w_id w) (''legacy-status:'' @ w_status w) \<noteq> []"
    using u by (simp add: stable_event_id_def)
  then have status: "append_event env (status_event env w pid) db' = Inr (r, db')"
    using event_writer.redelivered [OF d2 _ s r46] by (simp add: pid)
  have prep: "prepare_realized_fill env w pid db' = Inr db'"
  proof -
    have p4: "prepared env w pid db4" by (rule prepare_prepared [OF pre d3 u])
    then obtain s4 where s4: "state_of pid db4 = Inr s4" by (auto simp: prepared_def)
    have "g_parent_order_id (realized_fill_args env w pid (c_id c) i qd rate) = pid"
      by (simp add: realized_fill_args_def)
    from record_fill_state [OF rf d4, unfolded this, OF s4] obtain s5 where
      s5: "state_of pid db5 = Inr s5" "s5 \<in> {s4, PARTIAL, FILLED}" by blast
    have s6: "state_of pid db' = Inr s5" by (rule settlement_state [OF setl d5 s5(1)])
    have "prepared env w pid db'"
    proof (cases "s5 = s4")
      case True
      with s4 s6 show ?thesis by (intro audit_prepared [OF p4 d4 r56]) simp
    next
      case False
      with s5 s6 show ?thesis by (auto simp: prepared_def)
    qed
    then show ?thesis by (rule prepare_again [OF _ u])
  qed
  have rec': "record_realized_fill env w pid (c_id c) db' = Inr db'"
    by (rule record_realized_again [OF rec d4 r6])
  have before: "db_settlements db5 = db_settlements db"
  proof -
    have "db_settlements db5 = db_settlements db4"
      using rf by (cases rule: record_fillE) (auto dest: append_event_fills)
    then show ?thesis
      using append_event_fills [OF s] prepare_run [OF pre] ensure_child_frame [OF c] ensure_fills [OF e] by simp
  qed
  then have f5: "find_settlement src ref db5 = find_settlement src ref db" for src ref
    by (simp add: find_settlement_def)
  have sids5: "settlement_ids db5" using sids before by (simp add: settlement_ids_def)
  show ?thesis
  proof (rule that [OF q child refl status prep rec' dec])
    assume "truthy (w_tx_hash w)"
    then show "settled_on_file env w pid (c_id c) (first_amount w qd db) db'"
    proof (rule settled_find [OF setl _ sids5 d5 u dec])
      fix s
      assume "find_settlement (py_or (w_route_provider w) ''legacy_swap'') (the (w_tx_hash w)) db' = Some s"
        "settled_row w pid (c_id c) (if find_settlement (py_or (w_route_provider w) ''legacy_swap'')
           (the (w_tx_hash w)) db5 = None then w_realized_to_amount w else Some (dec_str qd)) s"
        "settlement_ids db'" "s \<in> set (db_settlements db')"
        "look_event (pid, stable_event_id env (w_id w) ''settlement:settled'') db' \<noteq> None"
      then show ?thesis by (simp only: settled_on_file_def first_amount_def f5 option.case simp_thms)
    qed
  qed
qed

text \<open>C3: Projecting a completed swap is idempotent when its realised output is present and spelled the way
  \<open>str(Decimal(...))\<close> prints it: projecting the same row again succeeds, returns the same parent and
  leaves the whole database unchanged.  (\<open>reprojection_rejects_other_spelling\<close> shows what another
  spelling does.)\<close>

theorem projection_idempotent:
  assumes "project_legacy_swap env w db = Inr (pid, db')" and "ids_distinct db" and "settlement_ids db"
    and "\<forall>n. uuid5 env n \<noteq> []" and "w_status w = ''completed''"
    and "w_realized_to_amount w = Some amount" and "dec_parse amount = Some d" and "dec_str d = amount"
    and "amount \<noteq> []"
  shows "project_legacy_swap env w db' = Inr (pid, db')"
proof -
  have real: "truthy (w_realized_to_amount w)" using assms(6,9) by simp
  from completed_projection_parts [OF assms(1-5) real] obtain q cid c r d' where
    parts: "ensure_legacy_parent env (swap_source w) db' = Inr (q, db')" "p_id q = pid"
    "ensure_child env pid w db' = Inr (c, db')" "c_id c = cid"
    "append_event env (status_event env w pid) db' = Inr (r, db')"
    "prepare_realized_fill env w pid db' = Inr db'" "record_realized_fill env w pid cid db' = Inr db'"
    and d': "swap_decimal (w_realized_to_amount w) = Inr d'"
    and setl: "truthy (w_tx_hash w) \<Longrightarrow> settled_on_file env w pid cid (first_amount w d' db) db'" by metis
  have "d' = d" using d' assms(6,7) by (auto simp: swap_decimal_def opt_val_def split: if_splits)
  then have amt: "first_amount w d' db = Some (dec_str d')" using assms(6,8) by (simp add: first_amount_def)
  have "project_settlement env w pid cid ''settled'' db' = Inr db'"
  proof (cases "truthy (w_tx_hash w)")
    case True
    from setl [OF this] d' assms(4) show ?thesis
      by (auto simp: settled_on_file_def amt intro: project_settlement_again split: option.splits)
  qed (simp add: project_settlement_def)
  with parts assms(5) real show ?thesis
    by (simp add: project_legacy_swap_def project_outcome_def)
qed

text \<open>A realised output in any other spelling breaks the second projection: if the
  settlement was created by the first projection and the amount is not in the printed
  form of its value (\<open>+5\<close>, \<open>05\<close>, \<open>1e3\<close>), then projecting the same, unchanged row again
  raises, because the stored raw text is compared with the normalised one.\<close>

theorem reprojection_rejects_other_spelling:
  assumes "project_legacy_swap env w db = Inr (pid, db')" and "ids_distinct db" and "settlement_ids db"
    and "\<forall>n. uuid5 env n \<noteq> []" and "w_status w = ''completed''"
    and "w_realized_to_amount w = Some amount" and "dec_parse amount = Some d" and "dec_str d \<noteq> amount"
    and "amount \<noteq> []" and "truthy (w_tx_hash w)"
    and "find_settlement (py_or (w_route_provider w) ''legacy_swap'') (the (w_tx_hash w)) db = None"
  shows "project_legacy_swap env w db' = Inl LegacySwapProjectionError"
proof -
  have real: "truthy (w_realized_to_amount w)" using assms(6,9) by simp
  from completed_projection_parts [OF assms(1-5) real] obtain q cid c r d' where
    parts: "ensure_legacy_parent env (swap_source w) db' = Inr (q, db')" "p_id q = pid"
    "ensure_child env pid w db' = Inr (c, db')" "c_id c = cid"
    "append_event env (status_event env w pid) db' = Inr (r, db')"
    "prepare_realized_fill env w pid db' = Inr db'" "record_realized_fill env w pid cid db' = Inr db'"
    and d': "swap_decimal (w_realized_to_amount w) = Inr d'"
    and setl: "truthy (w_tx_hash w) \<Longrightarrow> settled_on_file env w pid cid (first_amount w d' db) db'" by metis
  from setl [OF assms(10)] assms(11) obtain s where
    s: "find_settlement (py_or (w_route_provider w) ''legacy_swap'') (the (w_tx_hash w)) db' = Some s"
      "settled_row w pid cid (w_realized_to_amount w) s"
    by (auto simp: settled_on_file_def first_amount_def split: option.splits)
  have "d' = d" using d' assms(6,7) by (auto simp: swap_decimal_def opt_val_def split: if_splits)
  then have "project_settlement env w pid cid ''settled'' db' = Inl LegacySwapProjectionError"
    using assms(6,8) by (intro project_settlement_changed [OF s real _ d' assms(10)]) simp
  with parts assms(5) real show ?thesis
    by (simp add: project_legacy_swap_def project_outcome_def)
qed

subsection \<open>Sample projections\<close>

definition sample_swap :: "string \<Rightarrow> string option \<Rightarrow> SwapTransaction" where
  "sample_swap status realized =
    \<lparr>w_id = 5, w_user_id = 1, w_from_chain = ''a'', w_from_token = ''A'', w_from_amount = ''2'',
     w_to_chain = ''b'', w_to_token = ''B'', w_to_amount = Some ''9'', w_realized_to_amount = realized,
     w_realized_to_amount_usd = None, w_status = status, w_tx_hash = Some ''0x'', w_destination_tx_hash = None,
     w_idempotency_key = None, w_route_provider = None, w_gas_fee = None, w_bridge_fee = None,
     w_slippage = None, w_updated_at = None, w_completed_at = None, w_error_category = None\<rparr>"

definition projected :: "exec_error + (string \<times> ExecDB) \<Rightarrow> bool" where
  "projected r = (case r of Inl e \<Rightarrow> False | Inr (pid, db) \<Rightarrow> pid = ''uu'')"

lemma projectedD: "projected r \<Longrightarrow> \<exists>db. r = Inr (''uu'', db)"
  by (auto simp: projected_def split: sum.splits)

lemma sample_completed: "projected (project_legacy_swap sample_env (sample_swap ''completed'' (Some ''8'')) empty_db)"
  by code_simp

lemma sample_plus: "projected (project_legacy_swap sample_env (sample_swap ''completed'' (Some ''+8'')) empty_db)"
  by code_simp

lemma sample_failed: "projected (project_legacy_swap sample_env (sample_swap ''failed'' None) empty_db)"
  by code_simp

lemma empty_ids: "ids_distinct empty_db" "settlement_ids empty_db" "find_settlement src ref empty_db = None"
  by (simp_all add: ids_distinct_def settlement_ids_def find_settlement_def empty_db_def)

lemma sample_eight: "dec_parse ''8'' = Some (Dec False 8 0)" "dec_parse ''+8'' = Some (Dec False 8 0)"
  "dec_str (Dec False 8 0) = ''8''"
  by (simp_all add: dec_compute) (code_simp)

theorem no_fill_without_realised_output_witness:
  "\<exists>db. project_legacy_swap sample_env (sample_swap ''failed'' None) empty_db = Inr (''uu'', db) \<and> db_fills db = []"
proof -
  from projectedD [OF sample_failed] obtain db where
    db: "project_legacy_swap sample_env (sample_swap ''failed'' None) empty_db = Inr (''uu'', db)" by blast
  from no_fill_without_realised_output [OF db] db show ?thesis by (simp add: sample_swap_def empty_db_def)
qed

theorem broadcast_failure_stays_open_witness:
  "\<exists>db s. project_legacy_swap sample_env (sample_swap ''failed'' None) empty_db = Inr (''uu'', db)
     \<and> state_of ''uu'' db = Inr s \<and> s \<in> {DRAFT, QUOTING, READY, AUTHORIZING, ACTIVE, RECONCILING}"
proof -
  from projectedD [OF sample_failed] obtain db where
    db: "project_legacy_swap sample_env (sample_swap ''failed'' None) empty_db = Inr (''uu'', db)" by blast
  have "w_status (sample_swap ''failed'' None) = ''failed''" "truthy (w_tx_hash (sample_swap ''failed'' None))"
    by (simp_all add: sample_swap_def)
  from broadcast_failure_stays_open [OF db empty_ids(1) sample_uuid5 this] db show ?thesis
    by (auto simp: FORWARD_PATH_def)
qed

theorem projection_idempotent_witness:
  "\<exists>db. project_legacy_swap sample_env (sample_swap ''completed'' (Some ''8'')) empty_db = Inr (''uu'', db)
     \<and> project_legacy_swap sample_env (sample_swap ''completed'' (Some ''8'')) db = Inr (''uu'', db)"
proof -
  from projectedD [OF sample_completed] obtain db where
    db: "project_legacy_swap sample_env (sample_swap ''completed'' (Some ''8'')) empty_db = Inr (''uu'', db)" by blast
  have "w_status (sample_swap ''completed'' (Some ''8'')) = ''completed''"
    "w_realized_to_amount (sample_swap ''completed'' (Some ''8'')) = Some ''8''"
    by (simp_all add: sample_swap_def)
  from projection_idempotent [OF db empty_ids(1,2) sample_uuid5 this sample_eight(1,3)] db show ?thesis by simp
qed

theorem reprojection_rejects_other_spelling_witness:
  "\<exists>db. project_legacy_swap sample_env (sample_swap ''completed'' (Some ''+8'')) empty_db = Inr (''uu'', db)
     \<and> project_legacy_swap sample_env (sample_swap ''completed'' (Some ''+8'')) db = Inl LegacySwapProjectionError"
proof -
  from projectedD [OF sample_plus] obtain db where
    db: "project_legacy_swap sample_env (sample_swap ''completed'' (Some ''+8'')) empty_db = Inr (''uu'', db)" by blast
  have "w_status (sample_swap ''completed'' (Some ''+8'')) = ''completed''"
    "w_realized_to_amount (sample_swap ''completed'' (Some ''+8'')) = Some ''+8''"
    "truthy (w_tx_hash (sample_swap ''completed'' (Some ''+8'')))"
    by (simp_all add: sample_swap_def)
  from reprojection_rejects_other_spelling [OF db empty_ids(1,2) sample_uuid5 this(1,2) sample_eight(2) _ _ this(3) empty_ids(3)]
    db sample_eight(3) show ?thesis by simp
qed

end
