(* ===== verification/Reconciler.thy ===== *)
theory Reconciler
  imports LegacyAdapter "HOL-Library.List_Lexorder" "HOL-Library.Char_ord"
begin

text \<open>
  \<open>bot/services/execution_reconciler.py\<close>: the worker that resolves parents stuck in
  reconciling.  A pass selects candidates in one session, asks the provider about each
  of them outside any transaction, and commits each resolution in a transaction of its
  own that revalidates what was read.  The provider is a parameter: its answer to a
  lookup, or \<open>None\<close> when the lookup raises or times out.  Between two transactions of a
  pass other sessions commit; they are a parameter too.  A lookup has no session, so commits
  before, during and after it are the same; a transaction itself is one step.
\<close>

record LiFiStatus =
  l_status :: string
  l_substatus :: "string option"
  l_receiving_chain_id :: "int option"
  l_receiving_tx_hash :: "string option"
  l_sending_tx_hash :: "string option"
  l_tool :: "string option"
  l_receiving_amount :: "string option"
  l_receiving_amount_usd :: "string option"

record Candidate =
  q_parent_id :: string
  q_swap_id :: int
  q_tx_hash :: string
  q_from_chain :: string
  q_to_chain :: string

type_synonym provider = "string \<Rightarrow> string \<Rightarrow> string \<Rightarrow> LiFiStatus option"

subsection \<open>Checks\<close>

definition eligible_swap :: "SwapTransaction option \<Rightarrow> bool" where
  "eligible_swap sw =
     (case sw of
        None \<Rightarrow> False
      | Some w \<Rightarrow>
          if \<not> truthy (w_tx_hash w) then False
          else if lower (py_or (w_route_provider w) []) \<noteq> ''lifi'' then False
          else if w_from_chain w = w_to_chain w then False
          else w_status w \<in> {sw_value COMPLETED, sw_value SFAILED})"

definition authoritative_amount :: "LiFiStatus \<Rightarrow> string option" where
  "authoritative_amount st =
     (if l_status st \<noteq> ''DONE'' \<or> \<not> truthy (l_receiving_amount st) then None
      else case dec_parse (the (l_receiving_amount st)) of
             None \<Rightarrow> None
           | Some d \<Rightarrow>
               if \<not> dec_finite d \<or> \<not> dec_pos d \<or> \<not> dec_integral d then None
               else Some (dec_format_f d))"

definition normalize_tx_identity :: "string option \<Rightarrow> string option" where
  "normalize_tx_identity v =
     (case v of
        None \<Rightarrow> None
      | Some s \<Rightarrow>
          let t = strip s in
          if t = [] then None
          else Some (if take 2 t = ''0x'' \<or> take 2 t = ''0X'' then lower t else t))"

definition same_persisted_tx_identity :: "string option \<Rightarrow> string option \<Rightarrow> bool" where
  "same_persisted_tx_identity l r =
     (let nl = normalize_tx_identity l; nr = normalize_tx_identity r
      in nl \<noteq> None \<and> nr \<noteq> None \<and> nl = nr)"

definition provider_sending_identity_matches :: "string \<Rightarrow> string option \<Rightarrow> bool" where
  "provider_sending_identity_matches expected observed =
     (if \<not> truthy observed then True else same_persisted_tx_identity (Some expected) observed)"

subsection \<open>Committing one resolution\<close>

definition find_swap :: "int \<Rightarrow> ExecDB \<Rightarrow> SwapTransaction option" where
  "find_swap i db = List.find (\<lambda>w. w_id w = i) (db_swaps db)"

text \<open>An output observed earlier must agree with the new one; an unreadable text counts as it is.\<close>

definition amount_conflict :: "string option \<Rightarrow> string \<Rightarrow> bool" where
  "amount_conflict existing amount =
     (truthy existing \<and>
      (case dec_parse (the existing) of
         Some d \<Rightarrow> dec_format_f d \<noteq> amount
       | None \<Rightarrow> the existing \<noteq> amount))"

definition destination_conflict :: "SwapTransaction \<Rightarrow> LiFiStatus \<Rightarrow> bool" where
  "destination_conflict w st =
     (truthy (l_receiving_tx_hash st) \<and> truthy (w_destination_tx_hash w)
      \<and> \<not> same_persisted_tx_identity (w_destination_tx_hash w) (l_receiving_tx_hash st))"

definition observed_swap :: "env \<Rightarrow> LiFiStatus \<Rightarrow> string \<Rightarrow> SwapTransaction \<Rightarrow> SwapTransaction" where
  "observed_swap env st amount w =
     (let w1 = w\<lparr>w_realized_to_amount := Some amount,
                 w_realized_to_amount_usd := l_receiving_amount_usd st\<rparr>;
          w2 = (if truthy (l_receiving_tx_hash st) \<and> \<not> truthy (w_destination_tx_hash w)
                then w1\<lparr>w_destination_tx_hash := l_receiving_tx_hash st\<rparr> else w1);
          w3 = (if w_status w2 = sw_value SFAILED
                then w2\<lparr>w_status := sw_value COMPLETED,
                        w_completed_at := (case w_completed_at w2 of Some t \<Rightarrow> Some t | None \<Rightarrow> Some (now env))\<rparr>
                else w2)
      in if w3 = w then w else w3\<lparr>w_updated_at := Some (now env)\<rparr>)"

definition resolution_allowed :: "Candidate \<Rightarrow> LiFiStatus \<Rightarrow> string \<Rightarrow> ExecDB \<Rightarrow> SwapTransaction option" where
  "resolution_allowed c st amount db =
     (case find_parent (q_parent_id c) db of
        None \<Rightarrow> None
      | Some parent \<Rightarrow>
          if p_state parent \<noteq> ''reconciling'' then None
          else if p_source_type parent \<noteq> Some ''swap'' \<or> p_source_ref parent \<noteq> Some (int_str (q_swap_id c))
            then None
          else
            let sw = find_swap (q_swap_id c) db in
            if \<not> eligible_swap sw then None
            else
              let w = the sw in
              if \<not> same_persisted_tx_identity (Some (q_tx_hash c)) (w_tx_hash w) then None
              else
                (case find_child (p_id parent) db of
                   None \<Rightarrow> None
                 | Some child \<Rightarrow>
                     if \<not> same_persisted_tx_identity (w_tx_hash w) (c_external_tx_hash child) then None
                     else if amount_conflict (w_realized_to_amount w) amount then None
                     else if destination_conflict w st then None
                     else Some w))"

definition commit_resolution ::
  "env \<Rightarrow> Candidate \<Rightarrow> LiFiStatus \<Rightarrow> string \<Rightarrow> ExecDB \<Rightarrow> bool \<times> ExecDB" where
  "commit_resolution env c st amount db =
     (case resolution_allowed c st amount db of
        None \<Rightarrow> (False, db)
      | Some w \<Rightarrow>
          let w' = observed_swap env st amount w in
          (case project_legacy_swap env w' (put_swap w' db) of
             Inl _ \<Rightarrow> (False, db)
           | Inr (_, db') \<Rightarrow> (True, db')))"

subsection \<open>One pass\<close>

definition candidate_row :: "ExecutionParentOrder \<Rightarrow> SwapTransaction \<Rightarrow> bool" where
  "candidate_row p w =
     (p_source_ref p = Some (int_str (w_id w)) \<and> p_state p = ''reconciling'' \<and> p_source_type p = Some ''swap''
      \<and> map_option lower (w_route_provider w) = Some ''lifi'' \<and> w_tx_hash w \<noteq> None
      \<and> w_from_chain w \<noteq> w_to_chain w \<and> w_status w \<in> {sw_value COMPLETED, sw_value SFAILED})"

definition candidate_of :: "ExecutionParentOrder \<times> SwapTransaction \<Rightarrow> Candidate" where
  "candidate_of pw = \<lparr>q_parent_id = p_id (fst pw), q_swap_id = w_id (snd pw), q_tx_hash = the (w_tx_hash (snd pw)),
     q_from_chain = w_from_chain (snd pw), q_to_chain = w_to_chain (snd pw)\<rparr>"

definition select_candidates :: "nat \<Rightarrow> ExecDB \<Rightarrow> Candidate list" where
  "select_candidates batch db =
     map candidate_of (take batch
       (sort_key (\<lambda>pw. p_updated_at (fst pw)) (sort_key (\<lambda>pw. p_id (fst pw))
         (filter (\<lambda>pw. candidate_row (fst pw) (snd pw))
           (List.product (db_parents db) (db_swaps db))))))"

text \<open>\<open>others\<close>: what other sessions commit before the transaction of a candidate.\<close>

fun resolve_all ::
  "env \<Rightarrow> provider \<Rightarrow> (Candidate \<Rightarrow> ExecDB \<Rightarrow> ExecDB) \<Rightarrow> Candidate list \<Rightarrow> ExecDB \<Rightarrow> nat \<times> ExecDB" where
  "resolve_all env lifi others [] db = (0, db)"
| "resolve_all env lifi others (c # cs) db =
     (let db0 = others c db in
      case lifi (q_tx_hash c) (q_from_chain c) (q_to_chain c) of
        None \<Rightarrow> resolve_all env lifi others cs db0
      | Some st \<Rightarrow>
          (case authoritative_amount st of
             None \<Rightarrow> resolve_all env lifi others cs db0
           | Some amount \<Rightarrow>
               if l_status st \<noteq> ''DONE'' then resolve_all env lifi others cs db0
               else if \<not> provider_sending_identity_matches (q_tx_hash c) (l_sending_tx_hash st)
                 then resolve_all env lifi others cs db0
               else
                 let (ok, db1) = commit_resolution env c st amount db0;
                     (n, db2) = resolve_all env lifi others cs db1
                 in ((if ok then Suc n else n), db2)))"

definition reconcile_once ::
  "env \<Rightarrow> provider \<Rightarrow> (Candidate \<Rightarrow> ExecDB \<Rightarrow> ExecDB) \<Rightarrow> nat \<Rightarrow> ExecDB \<Rightarrow> nat \<times> ExecDB" where
  "reconcile_once env lifi others batch db =
     resolve_all env lifi others (select_candidates batch db) db"

subsection \<open>A pass is a run of the store\<close>

lemma put_swap_run: "store_run env db (put_swap w db)"
  by (rule store_step_frame) (simp_all add: put_swap_def)

lemma commit_run:
  assumes "commit_resolution env c st amount db = (ok, db')"
  shows "store_run env db db'"
proof (cases "resolution_allowed c st amount db")
  case (Some w)
  let ?w = "observed_swap env st amount w"
  show ?thesis
  proof (cases "project_legacy_swap env ?w (put_swap ?w db)")
    case (Inr r)
    then obtain pid where r: "project_legacy_swap env ?w (put_swap ?w db) = Inr (pid, db')"
      using assms Some by (cases r) (simp add: commit_resolution_def Let_def)
    from rtranclp_trans [OF put_swap_run project_run [OF r]] show ?thesis .
  qed (use assms Some in \<open>simp add: commit_resolution_def Let_def\<close>)
qed (use assms in \<open>simp add: commit_resolution_def\<close>)

lemma resolve_all_run:
  assumes "\<And>c d. store_run env d (others c d)"
  shows "resolve_all env lifi others cs db = (n, db') \<Longrightarrow> store_run env db db'"
proof (induction cs arbitrary: db n)
  case (Cons c cs)
  let ?db = "others c db"
  have o: "store_run env db ?db" by (rule assms)
  have skip: "resolve_all env lifi others cs ?db = (n, db') \<Longrightarrow> store_run env db db'"
    using Cons.IH o by (blast intro: rtranclp_trans)
  show ?case
  proof (cases "\<exists>st amount. lifi (q_tx_hash c) (q_from_chain c) (q_to_chain c) = Some st
      \<and> authoritative_amount st = Some amount \<and> l_status st = ''DONE''
      \<and> provider_sending_identity_matches (q_tx_hash c) (l_sending_tx_hash st)")
    case True
    then obtain st amount where st: "lifi (q_tx_hash c) (q_from_chain c) (q_to_chain c) = Some st"
      "authoritative_amount st = Some amount" "l_status st = ''DONE''"
      "provider_sending_identity_matches (q_tx_hash c) (l_sending_tx_hash st)" by blast
    obtain ok db1 where c1: "commit_resolution env c st amount ?db = (ok, db1)" by fastforce
    obtain m where c2: "resolve_all env lifi others cs db1 = (m, db')"
      using Cons.prems st c1 by (cases "resolve_all env lifi others cs db1") (simp add: Let_def)
    with o commit_run [OF c1] Cons.IH [OF c2] show ?thesis by (metis rtranclp_trans)
  next
    case False
    with Cons.prems have "resolve_all env lifi others cs ?db = (n, db')"
      by (auto simp: Let_def split: option.splits if_splits)
    then show ?thesis by (rule skip)
  qed
qed simp

text \<open>A reconciliation pass, interleaved in any way with commits of other sessions,
  is a run of the store: whatever the provider answers, the rows it leaves are reached by
  the store's own operations, so the log refinement and the exactly-once facts hold of
  them.\<close>

theorem reconcile_pass_is_store_run:
  assumes "\<And>c d. store_run env d (others c d)"
    and "reconcile_once env lifi others batch db = (n, db')"
  shows "store_run env db db'"
  using resolve_all_run [OF assms(1)] assms(2) by (simp add: reconcile_once_def)

subsection \<open>What a resolution writes\<close>

lemma append_swaps: "append_event env a db = Inr (r, db') \<Longrightarrow> db_swaps db' = db_swaps db"
  by (simp add: append_event_fills)

lemma append_path_swaps: "append_path env w pid t db = Inr db' \<Longrightarrow> db_swaps db' = db_swaps db"
proof -
  have "append_states env w pid path d = Inr db' \<Longrightarrow> db_swaps db' = db_swaps d" for path d
    by (induction path arbitrary: d) (auto simp: monad_simps dest!: append_swaps)
  then show "append_path env w pid t db = Inr db' \<Longrightarrow> ?thesis" by (auto simp: append_path_def monad_simps)
qed

lemma record_fill_swaps: "record_fill env g db = Inr (f, db') \<Longrightarrow> db_swaps db' = db_swaps db"
  by (erule record_fillE) (auto dest: append_swaps)

lemma settlement_swaps: "project_settlement env w pid cid st db = Inr db' \<Longrightarrow> db_swaps db' = db_swaps db"
  by (auto simp: project_settlement_def Let_def draw_def insert_settlement_def put_settlement_def monad_simps
      dest!: append_swaps split: if_splits option.splits)

lemma project_swaps:
  assumes "project_legacy_swap env w db = Inr (pid, db')"
  shows "db_swaps db' = db_swaps db"
proof -
  from assms obtain p db1 c db2 r db3 where
    e: "ensure_legacy_parent env (swap_source w) db = Inr (p, db1)"
    and c: "ensure_child env (p_id p) w db1 = Inr (c, db2)"
    and s: "append_event env (status_event env w (p_id p)) db2 = Inr (r, db3)"
    and o: "project_outcome env w (p_id p) (c_id c) db3 = Inr db'"
    by (auto simp: project_legacy_swap_def monad_simps)
  have "db_swaps db1 = db_swaps db"
    using e unfolding ensure_legacy_parent_def by (cases rule: ensure_racingE) (auto dest: insert_parent_rows_Inr)
  moreover have "db_swaps db2 = db_swaps db1"
    using c by (auto simp: ensure_child_def Let_def draw_def insert_child_def monad_simps put_child_def
        split: option.splits if_splits)
  moreover have "db_swaps db' = db_swaps db3"
    using o by (auto simp: project_outcome_def prepare_realized_fill_def record_realized_fill_def monad_simps
        dest!: append_path_swaps record_fill_swaps settlement_swaps split: if_splits option.splits)
  ultimately show ?thesis using append_swaps [OF s] by simp
qed

lemma observed_swap_simps [simp]:
  "w_id (observed_swap env st amount w) = w_id w"
  "w_realized_to_amount (observed_swap env st amount w) = Some amount"
  "w_to_amount (observed_swap env st amount w) = w_to_amount w"
  "w_tx_hash (observed_swap env st amount w) = w_tx_hash w"
  "w_from_amount (observed_swap env st amount w) = w_from_amount w"
  "w_route_provider (observed_swap env st amount w) = w_route_provider w"
  "truthy (w_destination_tx_hash w) \<Longrightarrow>
     w_destination_tx_hash (observed_swap env st amount w) = w_destination_tx_hash w"
proof -
  define w3 where "w3 = (let w1 = w\<lparr>w_realized_to_amount := Some amount,
                 w_realized_to_amount_usd := l_receiving_amount_usd st\<rparr>;
          w2 = (if truthy (l_receiving_tx_hash st) \<and> \<not> truthy (w_destination_tx_hash w)
                then w1\<lparr>w_destination_tx_hash := l_receiving_tx_hash st\<rparr> else w1)
      in if w_status w2 = sw_value SFAILED
                then w2\<lparr>w_status := sw_value COMPLETED,
                        w_completed_at := (case w_completed_at w2 of Some t \<Rightarrow> Some t | None \<Rightarrow> Some (now env))\<rparr>
                else w2)"
  have eq: "observed_swap env st amount w = (if w3 = w then w else w3\<lparr>w_updated_at := Some (now env)\<rparr>)"
    by (simp add: observed_swap_def w3_def Let_def)
  have f: "w_id w3 = w_id w" "w_realized_to_amount w3 = Some amount" "w_to_amount w3 = w_to_amount w"
    "w_tx_hash w3 = w_tx_hash w" "w_from_amount w3 = w_from_amount w" "w_route_provider w3 = w_route_provider w"
    "truthy (w_destination_tx_hash w) \<Longrightarrow> w_destination_tx_hash w3 = w_destination_tx_hash w"
    by (simp_all add: w3_def Let_def)
  have "w3 = w \<Longrightarrow> w_realized_to_amount w = Some amount" using f(2) by simp
  then show "w_id (observed_swap env st amount w) = w_id w"
    "w_realized_to_amount (observed_swap env st amount w) = Some amount"
    "w_to_amount (observed_swap env st amount w) = w_to_amount w"
    "w_tx_hash (observed_swap env st amount w) = w_tx_hash w"
    "w_from_amount (observed_swap env st amount w) = w_from_amount w"
    "w_route_provider (observed_swap env st amount w) = w_route_provider w"
    "truthy (w_destination_tx_hash w) \<Longrightarrow>
       w_destination_tx_hash (observed_swap env st amount w) = w_destination_tx_hash w"
    by (simp_all add: eq f)
qed

lemma resolution_allowedD:
  assumes "resolution_allowed c st amount db = Some w"
  obtains p child where "find_parent (q_parent_id c) db = Some p" "p_state p = ''reconciling''"
    "p_source_type p = Some ''swap''" "p_source_ref p = Some (int_str (q_swap_id c))"
    "find_swap (q_swap_id c) db = Some w" "eligible_swap (Some w)"
    "same_persisted_tx_identity (Some (q_tx_hash c)) (w_tx_hash w)"
    "find_child (p_id p) db = Some child" "same_persisted_tx_identity (w_tx_hash w) (c_external_tx_hash child)"
    "\<not> amount_conflict (w_realized_to_amount w) amount" "\<not> destination_conflict w st"
proof -
  from assms obtain p where p: "find_parent (q_parent_id c) db = Some p" "p_state p = ''reconciling''"
    "p_source_type p = Some ''swap''" "p_source_ref p = Some (int_str (q_swap_id c))"
    and e: "eligible_swap (find_swap (q_swap_id c) db)"
    by (auto simp: resolution_allowed_def Let_def split: option.splits if_splits)
  from e obtain w' where w': "find_swap (q_swap_id c) db = Some w'"
    by (cases "find_swap (q_swap_id c) db") (auto simp: eligible_swap_def)
  with assms p e that show ?thesis
    by (auto simp: resolution_allowed_def Let_def split: option.splits if_splits)
qed

text \<open>C32: A resolution never overwrites an observation: when a commit succeeds, the swap it
  touched either had no realised output or one whose normalised text is the new amount,
  a destination hash recorded earlier is kept and agrees with the provider's, the parent
  was reconciling and bound to this very swap, the transaction hashes of candidate, swap
  and child agree, and the quoted amount is untouched.\<close>

theorem resolution_keeps_observations:
  assumes "commit_resolution env c st amount db = (True, db')"
  shows "\<exists>w w' p child. find_swap (q_swap_id c) db = Some w \<and> find_swap (q_swap_id c) db' = Some w'
    \<and> w_realized_to_amount w' = Some amount \<and> w_to_amount w' = w_to_amount w
    \<and> \<not> amount_conflict (w_realized_to_amount w) amount
    \<and> (truthy (w_destination_tx_hash w) \<longrightarrow> w_destination_tx_hash w' = w_destination_tx_hash w
         \<and> \<not> destination_conflict w st)
    \<and> find_parent (q_parent_id c) db = Some p \<and> p_state p = ''reconciling''
    \<and> p_source_ref p = Some (int_str (w_id w)) \<and> find_child (p_id p) db = Some child
    \<and> same_persisted_tx_identity (Some (q_tx_hash c)) (w_tx_hash w)
    \<and> same_persisted_tx_identity (w_tx_hash w) (c_external_tx_hash child)"
proof -
  from assms obtain w where ok: "resolution_allowed c st amount db = Some w"
    by (auto simp: commit_resolution_def Let_def split: option.splits)
  let ?w = "observed_swap env st amount w"
  from assms ok obtain pid where pr: "project_legacy_swap env ?w (put_swap ?w db) = Inr (pid, db')"
    by (auto simp: commit_resolution_def Let_def split: sum.splits)
  from resolution_allowedD [OF ok] obtain p child where
    g: "find_parent (q_parent_id c) db = Some p" "p_state p = ''reconciling''"
    "p_source_ref p = Some (int_str (q_swap_id c))"
    "find_swap (q_swap_id c) db = Some w"
    "same_persisted_tx_identity (Some (q_tx_hash c)) (w_tx_hash w)"
    "find_child (p_id p) db = Some child" "same_persisted_tx_identity (w_tx_hash w) (c_external_tx_hash child)"
    "\<not> amount_conflict (w_realized_to_amount w) amount" "\<not> destination_conflict w st" by metis
  have wid: "w_id w = q_swap_id c" using g(4) by (auto simp: find_swap_def dest: find_SomeD)
  have "find_swap (q_swap_id c) db' = Some ?w"
    using find_put [of "\<lambda>x. w_id x = q_swap_id c" "db_swaps db" w ?w "\<lambda>r. w_id r = w_id ?w"] g(4) wid
    by (simp add: find_swap_def project_swaps [OF pr] put_swap_def)
  with g wid show ?thesis by auto
qed

subsection \<open>Fixed-point text of an amount\<close>

lemma dec_parse_digits:
  assumes "list_all is_digit ip" and "ip \<noteq> []" and "list_all is_digit fp"
    and "body = (if fp = [] then ip else ip @ CHR ''.'' # fp)"
    and "dec_limits (digits_val (ip @ fp)) (- int (length fp))"
  shows "dec_parse body = Some (Dec False (digits_val (ip @ fp)) (- int (length fp)))"
proof -
  have dot: "\<not> is_space (CHR ''.'')" by code_simp
  have clean: "\<forall>c\<in>set body. \<not> is_space c \<and> c \<noteq> CHR ''_''"
    using assms(1,3,4) dot is_digit_not_space by (auto simp: list_all_iff split: if_splits)
  have keep: "filter (\<lambda>x. x \<noteq> CHR ''_'') (strip body) = body"
    using clean by (simp add: clean_strip)
  from assms(1,2) obtain h t where h: "ip = h # t" "is_digit h" by (cases ip) auto
  then have head: "\<exists>t'. body = h # t'" using assms(4) by auto
  have "h \<noteq> CHR ''-''" "h \<noteq> CHR ''+''" using h(2) by auto
  then have "dec_parse body = dec_unsigned False body"
    using keep head by (auto simp: dec_parse_def)
  also have "\<dots> = Some (Dec False (digits_val (ip @ fp)) (- int (length fp)))"
    using dec_unsigned_plain [OF assms(1,2), of False 0] dec_unsigned_point [OF assms(1,3,2), of False 0] assms(4,5)
    by (auto simp: exp_suffix_def)
  finally show ?thesis .
qed

lemma ndigits_scale: "0 < c \<Longrightarrow> ndigits (c * 10 ^ k) = ndigits c + k"
proof (induction k)
  case (Suc k)
  have "\<not> c * 10 ^ Suc k < 10" using Suc.prems by simp
  from ndigits_big [OF this] Suc show ?case by (simp add: ac_simps)
qed simp

lemma format_f_roundtrip:
  assumes lim: "dec_limits c e"
  shows "\<exists>d. dec_parse (dec_format_f (Dec False c e)) = Some d \<and> dec_finite d
    \<and> dec_val d = dec_val (Dec False c e)"
proof (cases "e < 0")
  case False
  let ?n = "c * 10 ^ nat e"
  have ds: "dec_format_f (Dec False c e) = nat_digits ?n" using False by (cases "e = 0") auto
  have "dec_limits ?n 0"
    using lim False ndigits_scale [of c "nat e"]
    by (cases "c = 0") (auto simp: dec_limits_def dec_min_etiny_def dec_max_emax_def)
  then have "dec_parse (nat_digits ?n) = Some (Dec False ?n 0)"
    using dec_parse_digits [of "nat_digits ?n" "[]" "nat_digits ?n"] by simp
  with ds False show ?thesis by (auto simp: pow10_def)
next
  case True
  let ?k = "nat (- e)" and ?ds = "nat_digits c"
  let ?pd = "replicate (Suc ?k - length ?ds) (CHR ''0'') @ ?ds"
  let ?ip = "take (length ?pd - ?k) ?pd" and ?fp = "drop (length ?pd - ?k) ?pd"
  have len: "?k < length ?pd" by simp
  have all: "list_all is_digit ?pd" by simp
  have dig: "list_all is_digit ?ip" "list_all is_digit ?fp"
    using all by (auto simp: list_all_iff dest: in_set_takeD in_set_dropD)
  have lf: "length ?fp = ?k" using len by (simp only: length_drop) linarith
  have val: "digits_val (?ip @ ?fp) = c" using digits_val_zeros by (simp only: append_take_drop_id digits_val_nat_digits)
  have ne: "?ip \<noteq> []" "?fp \<noteq> []"
  proof -
    show "?ip \<noteq> []" using len by (metis length_greater_0_conv length_take min.absorb2 diff_le_self zero_less_diff)
    show "?fp \<noteq> []" using lf True by (metis length_0_conv nat_0_iff neg_le_0_iff_le not_le)
  qed
  have body: "dec_format_f (Dec False c e) = (if ?fp = [] then ?ip else ?ip @ CHR ''.'' # ?fp)"
    using True ne by (simp add: Let_def)
  have ke: "- int (length ?fp) = e" unfolding lf using True by simp
  have "dec_parse (dec_format_f (Dec False c e)) = Some (Dec False (digits_val (?ip @ ?fp)) (- int (length ?fp)))"
    by (rule dec_parse_digits [OF dig(1) ne(1) dig(2) body]) (simp only: val ke lim)
  then have "dec_parse (dec_format_f (Dec False c e)) = Some (Dec False c e)" by (simp only: val ke)
  then show ?thesis by auto
qed

lemma dec_integral_nat:
  assumes "dec_integral (Dec False c e)" and "c \<noteq> 0"
  shows "\<exists>n>0. dec_val (Dec False c e) = of_nat n"
proof (cases "e < 0")
  case True
  let ?p = "10 ^ nat (- e) :: nat"
  from assms(1) True have "c mod ?p = 0" by simp
  then obtain m where m: "c = m * ?p" by (metis mod_0_imp_dvd dvd_div_mult_self)
  with assms(2) have "0 < m" by (cases m) auto
  moreover have "dec_val (Dec False c e) = of_nat m" using True by (simp add: m pow10_def)
  ultimately show ?thesis by blast
next
  case False
  then have "dec_val (Dec False c e) = of_nat (c * 10 ^ nat e)" by (simp add: pow10_def)
  moreover have "0 < c * 10 ^ nat e" using assms(2) by simp
  ultimately show ?thesis by blast
qed

lemma dec_parse_limits: "dec_parse s = Some (Dec b c e) \<Longrightarrow> dec_limits c e"
  by (auto simp: dec_parse_def dec_unsigned_def dec_special_def Let_def split: list.splits if_splits option.splits)

text \<open>C33: Only unquestionable output is evidence: the worker takes an amount from a provider
  answer only if the provider says DONE and the reported text denotes a positive whole
  number, and the text it then writes to the swap denotes the same number.\<close>

theorem authoritative_amount_sound:
  assumes "authoritative_amount st = Some a"
  shows "l_status st = ''DONE'' \<and> (\<exists>raw d d' n. l_receiving_amount st = Some raw \<and> dec_parse raw = Some d
    \<and> 0 < n \<and> dec_val d = of_nat n \<and> dec_parse a = Some d' \<and> dec_val d' = of_nat n)"
proof -
  from assms obtain raw d where raw: "l_status st = ''DONE''" "l_receiving_amount st = Some raw"
    "dec_parse raw = Some d" and d: "dec_finite d" "dec_pos d" "dec_integral d" and a: "a = dec_format_f d"
    by (auto simp: authoritative_amount_def dest!: truthyD split: if_splits option.splits)
  from d obtain c e where ce: "d = Dec False c e" "c \<noteq> 0" by (cases d) auto
  from dec_integral_nat [of c e] d(3) ce obtain n where n: "0 < n" "dec_val d = of_nat n" by auto
  from format_f_roundtrip [OF dec_parse_limits [of raw False c e]] raw(3) ce a obtain d' where
    "dec_parse a = Some d'" "dec_val d' = dec_val d" by auto
  with raw n show ?thesis by auto
qed

definition sample_status :: "string \<Rightarrow> LiFiStatus" where
  "sample_status amount = \<lparr>l_status = ''DONE'', l_substatus = None, l_receiving_chain_id = None,
     l_receiving_tx_hash = None, l_sending_tx_hash = None, l_tool = None,
     l_receiving_amount = Some amount, l_receiving_amount_usd = None\<rparr>"

lemma sample_amount: "authoritative_amount (sample_status ''100.0'') = Some ''100.0''"
  by code_simp

theorem authoritative_amount_sound_witness:
  "\<exists>d d' n. dec_parse ''100.0'' = Some d \<and> 0 < n \<and> dec_val d = of_nat n \<and> dec_parse ''100.0'' = Some d'
     \<and> dec_val d' = of_nat n"
  using authoritative_amount_sound [OF sample_amount] by (auto simp: sample_status_def)

subsection \<open>A resolution completes the order\<close>

lemma strip_int_str [simp]: "strip (int_str i) = int_str i"
proof (rule clean_strip)
  have "\<not> is_space (CHR ''-'')" by code_simp
  then show "\<forall>c\<in>set (int_str i). \<not> is_space c"
    using nat_digits_all_digits is_digit_not_space by (auto simp: int_str_def)
qed

text \<open>The part of a parent row that a fill starts from.\<close>

definition unfilled :: "string \<Rightarrow> dec \<Rightarrow> ExecDB \<Rightarrow> bool" where
  "unfilled pid r db =
     (case find_parent pid db of
        None \<Rightarrow> False
      | Some p \<Rightarrow>
          (case snapshot_from_parent p of
             Inl _ \<Rightarrow> False
           | Inr sn \<Rightarrow> sn_state sn = RECONCILING \<and> sn_requested_quantity sn = Some r
               \<and> sn_filled_quantity sn = dec_zero \<and> sn_average_fill_price sn = None))"

lemma unfilledD: "unfilled pid r db \<Longrightarrow> \<exists>p sn. find_parent pid db = Some p \<and> snapshot_from_parent p = Inr sn
     \<and> sn_state sn = RECONCILING \<and> sn_requested_quantity sn = Some r \<and> sn_filled_quantity sn = dec_zero
     \<and> sn_average_fill_price sn = None"
  by (auto simp: unfilled_def split: option.splits sum.splits)

lemma unfilled_frame: "db_parents db' = db_parents db \<Longrightarrow> unfilled pid r db' = unfilled pid r db"
  by (simp add: unfilled_def find_parent_def split: option.split)

lemma unfilled_state: "unfilled pid r db \<Longrightarrow> state_of pid db = Inr RECONCILING"
  by (auto simp: state_of_def snapshot_from_parent_def monad_simps dest!: unfilledD)

lemma materialize_unfilled:
  assumes "snapshot_from_parent p = Inr cur" and "sn_requested_quantity cur = Some r"
    and "sn_filled_quantity sn = dec_zero" and "sn_average_fill_price sn = None"
  shows "\<exists>sn'. snapshot_from_parent (materialize env sn p) = Inr sn' \<and> sn_state sn' = sn_state sn
    \<and> sn_requested_quantity sn' = Some r \<and> sn_filled_quantity sn' = dec_zero \<and> sn_average_fill_price sn' = None"
proof -
  have z: "dec_parse (dec_str dec_zero) = Some dec_zero" by (rule dec_wf_roundtrip) (simp add: dec_zero_def dec_Etiny_def dec_Emax_def)
  from assms(1,2) have "decimal_or_none (p_requested_quantity p) = Inr (Some r)"
    by (auto simp: snapshot_from_parent_def monad_simps)
  with assms(3,4) z show ?thesis
    by (simp add: snapshot_from_parent_def materialize_def parent_state_def)
      (simp add: decimal_or_none_def decimal_or_zero_def)
qed

lemma append_find_parent:
  assumes "append_to_parent env a eid p db = Inr (row, db')" and "find_parent pid db = Some p" and "ids_distinct db"
  obtains cur sn1 where "snapshot_from_parent p = Inr cur"
    "reduce_event cur (lifecycle_event a eid (sn_sequence cur + 1)) = Inr sn1"
    "find_parent pid db' = Some (materialize env sn1 p)"
  using assms(1)
proof (rule append_to_parentE)
  fix cur sn1
  assume c: "snapshot_from_parent p = Inr cur" "reduce_event cur (lifecycle_event a eid (sn_sequence cur + 1)) = Inr sn1"
    and parents: "db_parents db' = upd_where (\<lambda>r. p_id r = p_id p) (\<lambda>_. materialize env sn1 p) (db_parents db)"
  have p: "p_id p = pid" "p \<in> set (db_parents db)" using find_parentD [OF assms(2)] by simp_all
  have "materialize env sn1 p \<in> set (db_parents db')" using parents p(2) by (auto simp: set_upd_where)
  moreover have "ids_distinct db'"
    using append_to_parent_ids [OF assms(1)] assms(3) by (simp add: ids_distinct_def)
  ultimately have "find_parent pid db' = Some (materialize env sn1 p)"
    using find_parent_row [of db' "materialize env sn1 p"] p(1) by (simp add: materialize_def)
  with c that show ?thesis by blast
qed

lemma audit_unfilled:
  assumes "append_event env a db = Inr (row, db')" and "ids_distinct db" and "unfilled (a_parent_order_id a) r db"
    and "a_event_type a \<in> {''settlement_observed'', ''legacy_status_observed''}"
  shows "unfilled (a_parent_order_id a) r db'"
  using assms(1)
proof (cases rule: append_eventE)
  case (1 eid p)
  then show ?thesis using assms(3) unfilled_frame [of db' db] by auto
next
  case (2 eid p db0)
  then have d0: "db_parents db0 = db_parents db" by auto
  have fp: "find_parent (a_parent_order_id a) db0 = Some p" using 2(2) d0 by (simp add: find_parent_def)
  from assms(2) d0 have ids0: "ids_distinct db0" by (simp add: ids_distinct_def)
  from append_find_parent [OF 2(5) fp ids0] obtain cur sn1 where
    s: "snapshot_from_parent p = Inr cur" "reduce_event cur (lifecycle_event a eid (sn_sequence cur + 1)) = Inr sn1"
    "find_parent (a_parent_order_id a) db' = Some (materialize env sn1 p)" by blast
  from assms(3) 2(2) s(1) have u: "sn_state cur = RECONCILING" "sn_requested_quantity cur = Some r"
    "sn_filled_quantity cur = dec_zero" "sn_average_fill_price cur = None" by (auto dest!: unfilledD)
  have same: "sn_state sn1 = sn_state cur \<and> sn_filled_quantity sn1 = sn_filled_quantity cur
      \<and> sn_average_fill_price sn1 = sn_average_fill_price cur"
    using s(2) assms(4) by (auto simp: reduce_event_def lifecycle_event_def advance_def split: if_splits)
  from materialize_unfilled [OF s(1) u(2), of sn1 env] same u s(3) show ?thesis
    by (auto simp: unfilled_def)
qed

text \<open>A fill of exactly the requested whole quantity completes the parent.\<close>

lemma exact_fill_completes:
  assumes "reduce_event cur ev = Inr sn1" and "ev_type ev = ''fill_recorded''" and "sn_applied_event_ids cur = {}"
    and "sn_applied_fill_keys cur = {}" and "sn_requested_quantity cur = Some (Dec False n 0)"
    and "sn_filled_quantity cur = dec_zero"
    and "jget (ev_payload ev) ''quantity'' = PStr (dec_str (Dec False n 0))" and "n < 10 ^ 28"
  shows "sn_state sn1 = FILLED"
proof -
  from assms(1-3) have "reduce_fill cur ev = Inr sn1" by (auto elim: reduce_event_cases)
  then show ?thesis
  proof (cases rule: reduce_fill_cases)
    case (new q p nq na c)
    have "dec_wf (Dec False n 0)" using assms(8) by (simp add: dec_Etiny_def dec_Emax_def)
    from new(2) assms(7) dec_wf_roundtrip [OF this] have q: "q = Dec False n 0"
      by (auto simp: positive_decimal_def simp del: dec_str.simps split: if_splits)
    have "nq = Dec False n 0"
      using new(4) dec_add_units [of 0 n] assms(6,8) by (auto simp: fill_aggregate_def q dec_zero_def monad_simps)
    with new(5) assms(5) have "c" by simp
    with new(7) show ?thesis by simp
  qed (use assms(4) in simp)
qed

text \<open>A resolution completes the order: if the parent has no fill yet and asks for the
  swap's input amount, a whole number of smallest units below the decimal precision, then
  a successful commit leaves the parent filled, so the next pass no longer selects it.\<close>

theorem resolution_completes:
  assumes ok: "commit_resolution env c st amount db = (True, db')" and ids: "ids_distinct db"
    and u: "\<forall>n. uuid5 env n \<noteq> []" and amt: "amount \<noteq> []"
    and src: "find_source ''swap'' (int_str (q_swap_id c)) db = Some p" and pid: "p_id p = q_parent_id c"
    and w: "find_swap (q_swap_id c) db = Some w"
    and unf: "unfilled (q_parent_id c) (Dec False n 0) db"
    and n: "dec_parse (w_from_amount w) = Some (Dec False n 0)" "n < 10 ^ 28"
    and nofill: "find_fill (strip (py_or (w_route_provider w) ''legacy_swap''))
        (strip (''swap:'' @ int_str (q_swap_id c) @ '':realized'')) db = None"
    and noevent: "find_event fid db = None" "fid \<noteq> stable_event_id env (q_swap_id c) ''legacy-status:completed''"
    and fid: "fid = fill_event_id env (fill_identity (strip (py_or (w_route_provider w) ''legacy_swap''))
        (strip (''swap:'' @ int_str (q_swap_id c) @ '':realized'')))"
  shows "state_of (q_parent_id c) db' = Inr FILLED"
proof -
  from ok obtain w0 where allowed: "resolution_allowed c st amount db = Some w0"
    by (auto simp: commit_resolution_def Let_def split: option.splits)
  from resolution_allowedD [OF allowed] w have w0: "w0 = w" and el: "eligible_swap (Some w)" by (metis option.inject)+
  define v where "v = observed_swap env st amount w"
  from ok allowed w0 obtain pid' where pr: "project_legacy_swap env v (put_swap v db) = Inr (pid', db')"
    by (auto simp: commit_resolution_def Let_def v_def split: sum.splits)
  have wid: "w_id w = q_swap_id c" using w by (auto simp: find_swap_def dest: find_SomeD)
  have v: "w_id v = q_swap_id c" "w_realized_to_amount v = Some amount" "w_from_amount v = w_from_amount w"
    "w_route_provider v = w_route_provider w" by (simp_all add: v_def wid)
  have vst: "w_status v = ''completed''"
    using el by (auto simp: v_def observed_swap_def eligible_swap_def Let_def
        dest: arg_cong [where f = w_status] split: if_splits)
  let ?pid = "q_parent_id c"
  from pr obtain p1 db1 k db2 r db3 where
    e: "ensure_legacy_parent env (swap_source v) (put_swap v db) = Inr (p1, db1)"
    and k: "ensure_child env (p_id p1) v db1 = Inr (k, db2)"
    and s: "append_event env (status_event env v (p_id p1)) db2 = Inr (r, db3)"
    and o: "project_outcome env v (p_id p1) (c_id k) db3 = Inr db'"
    by (auto simp: project_legacy_swap_def monad_simps)
  have p1: "p1 = p" "db1 = put_swap v db"
    using e src v(1) by (auto simp: ensure_legacy_parent_def ensure_legacy_parent_racing_def swap_source_def
        find_source_def strip_sample Let_def split: if_splits)
  have d2: "db_parents db2 = db_parents db" "db_events db2 = db_events db" "db_fills db2 = db_fills db"
    using ensure_child_frame [OF k] by (simp_all add: p1)
  have ids2: "ids_distinct db2" and unf2: "unfilled ?pid (Dec False n 0) db2"
    using ids unf unfilled_frame [OF d2(1)] by (simp_all add: ids_distinct_def d2(1))
  from audit_unfilled [OF s ids2] unf2 have unf3: "unfilled ?pid (Dec False n 0) db3" by (simp add: p1 pid)
  have ids3: "ids_distinct db3" using append_event_ids [OF s] ids2 by (simp add: ids_distinct_def)
  have st3: "state_of ?pid db3 = Inr RECONCILING" by (rule unfilled_state [OF unf3])
  have f3: "db_fills db3 = db_fills db" using append_event_fills [OF s] d2(3) by simp
  from o vst v(2) amt st3 obtain db5 where
    rec: "record_realized_fill env v ?pid (c_id k) db3 = Inr db5"
    and setl: "project_settlement env v ?pid (c_id k) ''settled'' db5 = Inr db'"
    by (auto simp: project_outcome_def prepare_realized_fill_def monad_simps p1 pid)
  have ie: "swap_decimal (Some (w_from_amount v)) = Inr i \<Longrightarrow> i = Dec False n 0" for i
    using n(1) v(3) by (auto simp: swap_decimal_def opt_val_def split: if_splits)
  from rec obtain q rate f where
    rf: "record_fill env (realized_fill_args env v ?pid (c_id k) (Dec False n 0) q rate) db3 = Inr (f, db5)"
    by (auto simp: record_realized_fill_def monad_simps dest!: ie)
  let ?g = "realized_fill_args env v ?pid (c_id k) (Dec False n 0) q rate"
  have g: "g_external_source ?g = py_or (w_route_provider w) ''legacy_swap''"
    "g_external_fill_id ?g = ''swap:'' @ int_str (q_swap_id c) @ '':realized''"
    "g_quantity ?g = dec_str (Dec False n 0)" by (simp_all add: realized_fill_args_def v)
  have nf3: "find_fill (strip (g_external_source ?g)) (strip (g_external_fill_id ?g)) db3 = None"
    using nofill f3 by (simp add: g find_fill_def)
  have ne3: "find_event fid db3 = None"
    using s
  proof (cases rule: append_eventE)
    case (1 eid x)
    then show ?thesis using noevent(1) d2(2) by (auto simp: find_event_def)
  next
    case (2 eid x d)
    have eid: "eid = stable_event_id env (q_swap_id c) ''legacy-status:completed''"
      using 2(1) u by (simp add: v vst stable_event_id_def)
    from 2(5) have "db_events db3 = db_events d @ [r] \<and> e_id r = eid"
      by (rule append_to_parentE) auto
    moreover have "db_events d = db_events db" using 2(4) d2(2) by auto
    ultimately show ?thesis using noevent eid by (auto simp: find_event_def find_append)
  qed
  have "state_of ?pid db5 = Inr FILLED"
    using rf
  proof (cases rule: record_fillE)
    case existing
    then show ?thesis using nf3 by simp
  next
    case (new x rid d4 row)
    let ?a = "fill_event env ?g rid (p_id x) (strip (g_external_source ?g)) (strip (g_external_fill_id ?g))"
    have xid: "p_id x = ?pid" using find_parentD [OF new(1)] by (simp add: realized_fill_args_def)
    have a: "a_event_id ?a = Some fid" "a_parent_order_id ?a = ?pid" "fid \<noteq> []"
      using u by (simp_all add: fill_event_def append_defaults_def fid g xid fill_event_id_def)
    have d4: "db_parents d4 = db_parents db3" "db_events d4 = db_events db3" by (simp_all add: new(4))
    have ids4: "ids_distinct d4" using ids3 d4 by (simp add: ids_distinct_def)
    have fe4: "find_event fid d4 = None" using ne3 d4 by (simp add: find_event_def)
    show ?thesis
      using new(5)
    proof (cases rule: append_eventE)
      case (1 eid y)
      then show ?thesis using a fe4 by simp
    next
      case (2 eid y d)
      then have dd: "db_parents d = db_parents d4" and y: "find_parent ?pid d = Some y" and eid: "eid = fid"
        using a by (auto simp: find_parent_def)
      have idsd: "ids_distinct d" using ids4 dd by (simp add: ids_distinct_def)
      from append_find_parent [OF 2(5) y idsd] obtain cur sn1 where
        c: "snapshot_from_parent y = Inr cur" "reduce_event cur (lifecycle_event ?a eid (sn_sequence cur + 1)) = Inr sn1"
        "find_parent ?pid db5 = Some (materialize env sn1 y)" by blast
      from unf3 y dd d4(1) c(1) have cu: "sn_requested_quantity cur = Some (Dec False n 0)"
        "sn_filled_quantity cur = dec_zero" by (auto simp: find_parent_def dest!: unfilledD)
      have empty: "sn_applied_event_ids cur = {}" "sn_applied_fill_keys cur = {}"
        using c(1) by (auto simp: snapshot_from_parent_def monad_simps)
      have "sn_state sn1 = FILLED"
        by (rule exact_fill_completes [OF c(2) _ empty cu _ n(2)])
          (simp_all add: lifecycle_event_def fill_event_def append_defaults_def jget_def g del: dec_str.simps)
      with c(3) ps_of_value_value [of FILLED] show ?thesis by (simp add: state_of_def parent_state_def materialize_def)
    qed
  qed
  moreover have "ids_distinct db5" using record_realized_run [OF rec] ids3 by (rule run_ids)
  ultimately show ?thesis using settlement_state [OF setl] by blast
qed

definition stuck_order :: ExecutionParentOrder where
  "stuck_order = sample_order\<lparr>p_source_ref := Some ''5'', p_state := ''reconciling''\<rparr>"

definition stuck_swap :: SwapTransaction where
  "stuck_swap = (sample_swap ''failed'' None)\<lparr>w_route_provider := Some ''lifi''\<rparr>"

definition stuck_db :: ExecDB where
  "stuck_db = empty_db\<lparr>db_parents := [stuck_order], db_swaps := [stuck_swap],
     db_children := [new_child sample_env ''uu'' stuck_swap ''c''], db_draws := 3\<rparr>"

definition stuck_candidate :: Candidate where
  "stuck_candidate = candidate_of (stuck_order, stuck_swap)"

lemma stuck_commits: "fst (commit_resolution sample_env stuck_candidate (sample_status ''8'') ''8'' stuck_db)"
  by code_simp

lemma stuck_commit: "\<exists>db'. commit_resolution sample_env stuck_candidate (sample_status ''8'') ''8'' stuck_db = (True, db')"
  using stuck_commits by (metis prod.collapse)

lemma stuck_facts:
  "ids_distinct stuck_db" "find_source ''swap'' (int_str (q_swap_id stuck_candidate)) stuck_db = Some stuck_order"
  "p_id stuck_order = q_parent_id stuck_candidate" "find_swap (q_swap_id stuck_candidate) stuck_db = Some stuck_swap"
  "unfilled (q_parent_id stuck_candidate) (Dec False 2 0) stuck_db"
  "dec_parse (w_from_amount stuck_swap) = Some (Dec False 2 0)"
  "db_fills stuck_db = []" "db_events stuck_db = []" "q_parent_id stuck_candidate = ''uu''"
  by code_simp+

theorem resolution_completes_witness:
  "\<exists>db'. commit_resolution sample_env stuck_candidate (sample_status ''8'') ''8'' stuck_db = (True, db')
     \<and> state_of ''uu'' db' = Inr FILLED"
proof -
  from stuck_commit obtain db' where
    ok: "commit_resolution sample_env stuck_candidate (sample_status ''8'') ''8'' stuck_db = (True, db')" by blast
  have "find_fill src fid stuck_db = None" "find_event eid stuck_db = None" for src fid eid
    by (simp_all add: find_fill_def find_event_def stuck_facts)
  from resolution_completes [OF ok stuck_facts(1) sample_uuid5 _ stuck_facts(2-6) _ this _ refl] ok
  show ?thesis
    by (simp add: stuck_facts fill_event_id_def stable_event_id_def sample_env_def)
qed

theorem resolution_keeps_observations_witness:
  "\<exists>db' w'. commit_resolution sample_env stuck_candidate (sample_status ''8'') ''8'' stuck_db = (True, db')
     \<and> find_swap (q_swap_id stuck_candidate) db' = Some w' \<and> w_realized_to_amount w' = Some ''8''"
proof -
  from stuck_commit obtain db' where
    ok: "commit_resolution sample_env stuck_candidate (sample_status ''8'') ''8'' stuck_db = (True, db')" by blast
  from resolution_keeps_observations [OF ok] ok show ?thesis by blast
qed

theorem reconcile_pass_is_store_run_witness:
  "store_run sample_env stuck_db (snd (reconcile_once sample_env (\<lambda>_ _ _. Some (sample_status ''8'')) (\<lambda>_ d. d) 50 stuck_db))"
  by (rule reconcile_pass_is_store_run [of sample_env "\<lambda>_ d. d"]) (auto intro: prod.collapse [symmetric])

end
