(* ===== verification/PyFloat.thy ===== *)
theory PyFloat
  imports PyDecimal
begin

text \<open>
  Python's binary64 floats, as far as the code computes with them: a finite float is the
  rational number it stands for, rounded to nearest-even with 53 significant bits and the
  subnormal range.  The two zeros are one value: the code never divides by a float it has
  not compared with zero and never prints a negative zero.  \<open>fl_repr\<close> is \<open>repr\<close>: the
  shortest decimal text that reads back as the float.
\<close>

datatype pyfloat = Fin rat | FInf bool | FNaN

subsection \<open>Rounding\<close>

fun bitlen :: "nat \<Rightarrow> nat" where
  "bitlen n = (if n < 2 then 1 else Suc (bitlen (n div 2)))"

declare bitlen.simps [simp del]

definition pow2 :: "int \<Rightarrow> rat" where
  "pow2 e = (if e \<ge> 0 then 2 ^ nat e else 1 / 2 ^ nat (- e))"

text \<open>\<open>scale b e p q\<close>: numerator and denominator of \<open>(p / q) / b ^ e\<close>.\<close>

definition scale :: "nat \<Rightarrow> int \<Rightarrow> nat \<Rightarrow> nat \<Rightarrow> nat \<times> nat" where
  "scale b e p q = (p * b ^ nat (- e), q * b ^ nat e)"

text \<open>The integral logarithms of the positive rational \<open>p / q\<close>.\<close>

definition ilog2 :: "nat \<Rightarrow> nat \<Rightarrow> int" where
  "ilog2 p q = (let k = int (bitlen p) - int (bitlen q); (a, b) = scale 2 k p q
                in if b \<le> a then k else k - 1)"

definition ilog10 :: "nat \<Rightarrow> nat \<Rightarrow> int" where
  "ilog10 p q = (let k = int (ndigits p) - int (ndigits q); (a, b) = scale 10 k p q
                 in if b \<le> a then k else k - 1)"

definition round_pos :: "nat \<Rightarrow> nat \<Rightarrow> rat" where
  "round_pos p q =
     (let e = max (ilog2 p q - 52) (- 1074); (a, b) = scale 2 e p q
      in of_nat (rhe a b) * pow2 e)"

definition fl_round :: "rat \<Rightarrow> pyfloat" where
  "fl_round x =
     (if x = 0 then Fin 0
      else let (n, d) = quotient_of x; v = round_pos (nat \<bar>n\<bar>) (nat d)
           in if 2 ^ 1024 \<le> v then FInf (x < 0) else Fin (if x < 0 then - v else v))"

subsection \<open>Arithmetic and comparison\<close>

fun fl_neg :: "pyfloat \<Rightarrow> pyfloat" where
  "fl_neg (Fin x) = Fin (- x)"
| "fl_neg (FInf s) = FInf (\<not> s)"
| "fl_neg FNaN = FNaN"

fun fl_add :: "pyfloat \<Rightarrow> pyfloat \<Rightarrow> pyfloat" where
  "fl_add FNaN _ = FNaN"
| "fl_add _ FNaN = FNaN"
| "fl_add (FInf s) (FInf t) = (if s = t then FInf s else FNaN)"
| "fl_add (FInf s) (Fin y) = FInf s"
| "fl_add (Fin x) (FInf t) = FInf t"
| "fl_add (Fin x) (Fin y) = fl_round (x + y)"

definition fl_sub :: "pyfloat \<Rightarrow> pyfloat \<Rightarrow> pyfloat" where
  "fl_sub a b = fl_add a (fl_neg b)"

fun fl_mul :: "pyfloat \<Rightarrow> pyfloat \<Rightarrow> pyfloat" where
  "fl_mul FNaN _ = FNaN"
| "fl_mul _ FNaN = FNaN"
| "fl_mul (FInf s) (FInf t) = FInf (s \<noteq> t)"
| "fl_mul (FInf s) (Fin y) = (if y = 0 then FNaN else FInf (s \<noteq> (y < 0)))"
| "fl_mul (Fin x) (FInf t) = (if x = 0 then FNaN else FInf (t \<noteq> (x < 0)))"
| "fl_mul (Fin x) (Fin y) = fl_round (x * y)"

text \<open>\<open>None\<close>: \<open>ZeroDivisionError\<close>.\<close>

fun fl_div :: "pyfloat \<Rightarrow> pyfloat \<Rightarrow> pyfloat option" where
  "fl_div x (Fin y) =
     (if y = 0 then None
      else case x of Fin v \<Rightarrow> Some (fl_round (v / y)) | FInf s \<Rightarrow> Some (FInf (s \<noteq> (y < 0))) | FNaN \<Rightarrow> Some FNaN)"
| "fl_div x (FInf t) = (case x of Fin v \<Rightarrow> Some (Fin 0) | _ \<Rightarrow> Some FNaN)"
| "fl_div x FNaN = Some FNaN"

fun fl_lt :: "pyfloat \<Rightarrow> pyfloat \<Rightarrow> bool" where
  "fl_lt (Fin x) (Fin y) = (x < y)"
| "fl_lt (FInf s) (Fin y) = s"
| "fl_lt (Fin x) (FInf t) = (\<not> t)"
| "fl_lt (FInf s) (FInf t) = (s \<and> \<not> t)"
| "fl_lt _ _ = False"

definition fl_le :: "pyfloat \<Rightarrow> pyfloat \<Rightarrow> bool" where
  "fl_le a b = (fl_lt a b \<or> (a = b \<and> a \<noteq> FNaN))"

text \<open>\<open>float(d)\<close> of a decimal; only the signalling NaN raises, which no column holds.\<close>

fun fl_of_dec :: "dec \<Rightarrow> pyfloat" where
  "fl_of_dec (Dec s c e) = fl_round (dec_val (Dec s c e))"
| "fl_of_dec (DInf s) = FInf s"
| "fl_of_dec (DNaN _) = FNaN"

text \<open>\<open>int(x)\<close> truncates; infinities and NaN raise.\<close>

fun fl_trunc :: "pyfloat \<Rightarrow> int option" where
  "fl_trunc (Fin x) = Some (if x < 0 then - \<lfloor>- x\<rfloor> else \<lfloor>x\<rfloor>)"
| "fl_trunc _ = None"

subsection \<open>Shortest text\<close>

definition reads_back :: "rat \<Rightarrow> nat \<Rightarrow> int \<Rightarrow> bool" where
  "reads_back x c e = (fl_round (of_nat c * pow10 e) = Fin x)"

text \<open>The \<open>n\<close>-digit decimals next to the positive rational \<open>x\<close>, nearest first.\<close>

definition shortest_at :: "rat \<Rightarrow> nat \<Rightarrow> (nat \<times> int) option" where
  "shortest_at x n =
     (let (p, q) = quotient_of x; e = ilog10 (nat p) (nat q) - int n + 1;
          (a, b) = scale 10 e (nat p) (nat q); lo = a div b; near = rhe a b;
          far = (if near = lo then Suc lo else lo)
      in if reads_back x near e then Some (near, e)
         else if reads_back x far e then Some (far, e) else None)"

definition shortest :: "rat \<Rightarrow> nat \<times> int" where
  "shortest x =
     (case List.map_filter (shortest_at x) [1..<18] of r # _ \<Rightarrow> r | [] \<Rightarrow> (0, 0))"

definition repr_body :: "string \<Rightarrow> int \<Rightarrow> string" where
  "repr_body ds e =
     (let n = int (length ds); pt = n + e in
      if - 4 < pt \<and> pt \<le> 16 then
        (if pt \<le> 0 then ''0.'' @ replicate (nat (- pt)) (CHR ''0'') @ ds
         else if e \<ge> 0 then ds @ replicate (nat e) (CHR ''0'') @ ''.0''
         else take (nat pt) ds @ CHR ''.'' # drop (nat pt) ds)
      else
        (let x = pt - 1; xs = nat_digits (nat \<bar>x\<bar>)
         in hd ds # (if tl ds = [] then [] else CHR ''.'' # tl ds)
            @ CHR ''e'' # (if x < 0 then CHR ''-'' else CHR ''+'')
            # (if length xs < 2 then CHR ''0'' # xs else xs)))"

fun fl_repr :: "pyfloat \<Rightarrow> string" where
  "fl_repr (Fin x) =
     (if x = 0 then ''0.0''
      else let (c, e) = shortest \<bar>x\<bar>; (c', e') = dec_strip (ndigits c) c e; b = repr_body (nat_digits c') e'
           in if x < 0 then CHR ''-'' # b else b)"
| "fl_repr (FInf s) = (if s then ''-inf'' else ''inf'')"
| "fl_repr FNaN = ''nan''"

subsection \<open>Rounding keeps representable numbers\<close>

lemma pow2_pos [simp]: "0 < pow2 e"
  by (simp add: pow2_def)

lemma pow2_nonzero [simp]: "pow2 e \<noteq> 0"
  using pow2_pos [of e] by linarith

lemma pow2_divD: "x / pow2 e = y \<Longrightarrow> x = y * pow2 e"
  by (simp add: divide_eq_eq)

lemma pow2_powi: "pow2 e = 2 powi e"
  by (simp add: pow2_def power_int_def field_simps)

lemma pow2_add: "pow2 (a + b) = pow2 a * pow2 b"
  by (simp add: pow2_powi power_int_add)

lemma pow2_nat: "pow2 (int n) = 2 ^ n"
  by (simp add: pow2_def)

lemma pow2_mono: "a \<le> b \<Longrightarrow> pow2 a \<le> pow2 b"
  by (simp add: pow2_powi power_int_increasing)

lemma bitlen_bounds: "0 < n \<Longrightarrow> 2 ^ (bitlen n - 1) \<le> n \<and> n < 2 ^ bitlen n \<and> 0 < bitlen n"
proof (induction n rule: bitlen.induct)
  case (1 n)
  show ?case
  proof (cases "n < 2")
    case True
    with 1 show ?thesis by (subst (1 2 3) bitlen.simps) simp
  next
    case False
    with 1 have ih: "2 ^ (bitlen (n div 2) - 1) \<le> n div 2" "n div 2 < 2 ^ bitlen (n div 2)" "0 < bitlen (n div 2)" by simp_all
    have b: "bitlen n = Suc (bitlen (n div 2))" using False by (subst bitlen.simps) simp
    from ih(1,3) have "2 ^ bitlen (n div 2) \<le> n" by (cases "bitlen (n div 2)") auto
    moreover have "n < 2 ^ bitlen n" using ih(2) b by simp
    ultimately show ?thesis using b by simp
  qed
qed

lemma scale_val:
  assumes "scale 2 e p q = (a, b)" and "0 < q"
  shows "of_nat a = of_nat p / of_nat q / pow2 e * of_nat b" and "0 < b"
proof -
  from assms have ab: "a = p * 2 ^ nat (- e)" "b = q * 2 ^ nat e" by (simp_all add: scale_def)
  show "0 < b" using assms(2) ab by simp
  show "of_nat a = of_nat p / of_nat q / pow2 e * (of_nat b :: rat)"
    using assms(2) ab by (cases "0 \<le> e") (simp_all add: pow2_def)
qed

lemma scale_le_iff:
  assumes "scale 2 e p q = (a, b)" and "0 < q"
  shows "b \<le> a \<longleftrightarrow> pow2 e \<le> of_nat p / of_nat q"
proof -
  note v = scale_val [OF assms]
  let ?r = "of_nat p / of_nat q / pow2 e :: rat"
  have "b \<le> a \<longleftrightarrow> 1 * (of_nat b :: rat) \<le> ?r * of_nat b" unfolding v(1) [symmetric] by simp
  also have "\<dots> \<longleftrightarrow> 1 \<le> ?r" using v(2) by (intro mult_le_cancel_right_pos) simp
  also have "\<dots> \<longleftrightarrow> pow2 e \<le> of_nat p / of_nat q" using assms(2) by (simp add: le_divide_eq mult.commute)
  finally show ?thesis .
qed

lemma ilog2_bounds:
  assumes "0 < p" and "0 < q"
  shows "pow2 (ilog2 p q) \<le> of_nat p / of_nat q" and "of_nat p / of_nat q < pow2 (ilog2 p q + 1)"
proof -
  let ?k = "int (bitlen p) - int (bitlen q)" and ?x = "of_nat p / of_nat q :: rat"
  obtain a b where s: "scale 2 ?k p q = (a, b)" by fastforce
  have l: "ilog2 p q = (if pow2 ?k \<le> ?x then ?k else ?k - 1)"
    using s scale_le_iff [OF s assms(2)] by (simp add: ilog2_def Let_def)
  note bp = bitlen_bounds [OF assms(1)] and bq = bitlen_bounds [OF assms(2)]
  have bits: "pow2 (int (bitlen n) - 1) \<le> of_nat n" "of_nat n < pow2 (int (bitlen n))" if "0 < n" for n
  proof -
    note b = bitlen_bounds [OF that]
    from b have "int (bitlen n) - 1 = int (bitlen n - 1)" by simp
    then have "pow2 (int (bitlen n) - 1) = of_nat (2 ^ (bitlen n - 1))" by (simp only: pow2_nat) simp
    with b show "pow2 (int (bitlen n) - 1) \<le> of_nat n" by (simp only: of_nat_le_iff)
    have "pow2 (int (bitlen n)) = of_nat (2 ^ bitlen n)" by (simp add: pow2_nat)
    with b show "of_nat n < pow2 (int (bitlen n))" by (simp only: of_nat_less_iff)
  qed
  note p = bits [OF assms(1)] and q = bits [OF assms(2)]
  have upper: "?x < pow2 (?k + 1)"
  proof -
    have "of_nat p < pow2 (?k + 1) * pow2 (int (bitlen q) - 1)" using p(2) by (simp flip: pow2_add)
    also have "\<dots> \<le> pow2 (?k + 1) * of_nat q" using q(1) by (simp add: less_imp_le)
    finally show ?thesis using assms(2) by (simp add: divide_less_eq)
  qed
  have lower: "pow2 (?k - 1) \<le> ?x"
  proof -
    have "pow2 (?k - 1) * of_nat q \<le> pow2 (?k - 1) * pow2 (int (bitlen q))" using q(2) by (simp add: less_imp_le)
    also have "\<dots> \<le> of_nat p" using p(1) by (simp add: flip: pow2_add)
    finally show ?thesis using assms(2) by (simp add: le_divide_eq)
  qed
  from l lower show "pow2 (ilog2 p q) \<le> ?x" by (simp split: if_splits)
  from l upper show "?x < pow2 (ilog2 p q + 1)" by (auto split: if_splits)
qed

lemma round_pos_exact:
  assumes "0 < p" and "0 < q" and x: "of_nat p / of_nat q = of_nat n * pow2 e" and "n < 2 ^ 53" and "- 1074 \<le> e"
  shows "round_pos p q = of_nat p / of_nat q"
proof -
  let ?x = "of_nat p / of_nat q :: rat"
  let ?e = "max (ilog2 p q - 52) (- 1074)"
  have le: "?e \<le> e"
  proof (rule ccontr)
    assume "\<not> ?e \<le> e"
    with assms(5) have "e + 53 \<le> ilog2 p q" by linarith
    then have "pow2 (e + 53) \<le> ?x" using ilog2_bounds(1) [OF assms(1,2)] pow2_mono order_trans by blast
    then have "pow2 53 \<le> of_nat n" unfolding x by (simp add: pow2_add mult.commute)
    then have "(2 ^ 53 :: rat) \<le> of_nat n" by (simp add: pow2_def)
    then have "2 ^ 53 \<le> n" by (metis of_nat_le_iff of_nat_numeral of_nat_power)
    with assms(4) show False by simp
  qed
  obtain a b where s: "scale 2 ?e p q = (a, b)" by fastforce
  note v = scale_val [OF s assms(2)]
  let ?m = "n * 2 ^ nat (e - ?e)"
  have "?x / pow2 ?e = of_nat ?m"
  proof -
    have "pow2 e = pow2 (e - ?e) * pow2 ?e" by (simp flip: pow2_add)
    moreover have "pow2 (e - ?e) = 2 ^ nat (e - ?e)" using le by (simp add: pow2_def)
    ultimately show ?thesis unfolding x by simp
  qed
  with v(1) have "(of_nat a :: rat) = of_nat ?m * of_nat b" by (simp only:)
  then have "a = ?m * b" by (metis of_nat_eq_iff of_nat_mult)
  with v(2) have "rhe a b = ?m" by (simp add: rhe_exact)
  moreover have "?x = of_nat ?m * pow2 ?e" by (rule pow2_divD [OF \<open>?x / pow2 ?e = of_nat ?m\<close>])
  ultimately show ?thesis using s unfolding round_pos_def Let_def by (simp only: prod.case)
qed

text \<open>The finite floats.\<close>

definition representable :: "rat \<Rightarrow> bool" where
  "representable x = (\<exists>n e. \<bar>x\<bar> = of_nat n * pow2 e \<and> n < 2 ^ 53 \<and> - 1074 \<le> e \<and> \<bar>x\<bar> < 2 ^ 1024)"

lemma fl_round_representable:
  assumes "representable x"
  shows "fl_round x = Fin x"
proof (cases "x = 0")
  case False
  obtain a d where q: "quotient_of x = (a, d)" by fastforce
  have d: "0 < d" and xq: "x = of_int a / of_int d"
    using quotient_of_denom_pos [OF q] quotient_of_div [OF q] by simp_all
  with False have a: "a \<noteq> 0" by auto
  have "\<bar>x\<bar> = of_int \<bar>a\<bar> / of_int d" using xq d by (simp add: abs_divide)
  also have "\<dots> = of_nat (nat \<bar>a\<bar>) / of_nat (nat d)" using d by simp
  finally have ax: "\<bar>x\<bar> = of_nat (nat \<bar>a\<bar>) / of_nat (nat d)" .
  from assms obtain n e where r: "\<bar>x\<bar> = of_nat n * pow2 e" "n < 2 ^ 53" "- 1074 \<le> e" "\<bar>x\<bar> < 2 ^ 1024"
    by (auto simp: representable_def)
  have "round_pos (nat \<bar>a\<bar>) (nat d) = \<bar>x\<bar>"
    unfolding ax by (rule round_pos_exact [OF _ _ _ r(2,3)]) (use a d r(1) ax in auto)
  with q False r(4) show ?thesis by (simp add: fl_round_def Let_def)
qed (simp add: fl_round_def)

lemma representable_int: "\<bar>n\<bar> < 2 ^ 53 \<Longrightarrow> representable (of_int n)"
  unfolding representable_def
  by (rule exI [of _ "nat \<bar>n\<bar>"], rule exI [of _ 0])
    (auto simp: pow2_def nat_less_iff intro: less_trans [of _ "2 ^ 53"]
      simp flip: of_int_abs of_int_power)


lemma fl_round_int: "\<bar>n\<bar> < 2 ^ 53 \<Longrightarrow> fl_round (of_int n) = Fin (of_int n)"
  by (rule fl_round_representable [OF representable_int])

lemma fl_round_code [code]:
  "fl_round x =
     (let (n, d) = quotient_of x in
      if d = 1 \<and> \<bar>n\<bar> < 9007199254740992 then Fin x
      else let v = round_pos (nat \<bar>n\<bar>) (nat d)
           in if 2 ^ 1024 \<le> v then FInf (x < 0) else Fin (if x < 0 then - v else v))"
proof -
  obtain n d where q: "quotient_of x = (n, d)" by fastforce
  have x: "x = of_int n / of_int d" by (rule quotient_of_div [OF q])
  show ?thesis
  proof (cases "d = 1 \<and> \<bar>n\<bar> < 9007199254740992")
    case True
    with x have "x = of_int n" by simp
    with True q fl_round_int [of n] show ?thesis by simp
  next
    case False
    have "x \<noteq> 0"
    proof
      assume "x = 0"
      with q have "n = 0" "d = 1" by (simp_all add: rat_zero_code)
      with False show False by simp
    qed
    have "\<not> (d = 1 \<and> \<bar>n\<bar> < 9007199254740992)" by (rule False)
    with q \<open>x \<noteq> 0\<close> show ?thesis unfolding fl_round_def Let_def by (simp only: prod.case if_False)
  qed
qed

text \<open>An evaluation order for \<open>shortest\<close> that stops at the first number of digits that does.\<close>

fun first_shortest :: "rat \<Rightarrow> nat list \<Rightarrow> nat \<times> int" where
  "first_shortest x [] = (0, 0)"
| "first_shortest x (n # ns) = (case shortest_at x n of Some r \<Rightarrow> r | None \<Rightarrow> first_shortest x ns)"

lemma shortest_code [code]: "shortest x = first_shortest x [1..<18]"
proof -
  have "(case List.map_filter (shortest_at x) ns of r # _ \<Rightarrow> r | [] \<Rightarrow> (0, 0)) = first_shortest x ns" for ns
    by (induction ns) (auto simp: map_filter_simps split: option.splits)
  then show ?thesis by (simp add: shortest_def)
qed

end
