(* ===== verification/P2PModels.thy ===== *)
theory P2PModels
  imports Prelude PyFloat
begin

text \<open>
  \<open>bot/models/p2p.py\<close> and the columns of \<open>bot/models/user.py\<close> and
  \<open>bot/models/custodial.py\<close> that the native escrow reads: the enumerations, the offer and
  trade rows, wallets, and the database of the marketplace.  A column of an enumeration
  type that every write fills with a member is the member; the offer status is the text
  that a maker may set.
\<close>

subsection \<open>Enumerations\<close>

datatype P2PSource = NATIVE | NOONES | P2P_ME

definition source_value :: "P2PSource \<Rightarrow> string" where
  "source_value s = (case s of NATIVE \<Rightarrow> ''native'' | NOONES \<Rightarrow> ''noones'' | P2P_ME \<Rightarrow> ''p2p_me'')"

datatype P2POfferType = SELL_CRYPTO | BUY_CRYPTO

definition offer_type_value :: "P2POfferType \<Rightarrow> string" where
  "offer_type_value t = (case t of SELL_CRYPTO \<Rightarrow> ''sell_crypto'' | BUY_CRYPTO \<Rightarrow> ''buy_crypto'')"

datatype P2POfferStatus = OFFER_ACTIVE | OFFER_PAUSED | OFFER_FILLED | OFFER_CANCELLED | OFFER_EXPIRED

definition offer_status_value :: "P2POfferStatus \<Rightarrow> string" where
  "offer_status_value s = (case s of OFFER_ACTIVE \<Rightarrow> ''active'' | OFFER_PAUSED \<Rightarrow> ''paused''
     | OFFER_FILLED \<Rightarrow> ''filled'' | OFFER_CANCELLED \<Rightarrow> ''cancelled'' | OFFER_EXPIRED \<Rightarrow> ''expired'')"

datatype P2PTradeStatus =
    INITIATED | ESCROW_LOCKED | FIAT_PENDING | FIAT_SENT | RELEASED | COMPLETED
  | CANCELLED | DISPUTED | RESOLVING | EXPIRED

subsection \<open>Rows\<close>

record P2POffer =
  o_id :: int
  o_maker_user_id :: int
  o_maker_wallet_id :: "int option"
  o_source :: string
  o_offer_type :: string
  o_status :: string
  o_fiat_currency :: string
  o_crypto_asset :: string
  o_crypto_chain :: string
  o_price_per_unit :: dec
  o_min_fiat_amount :: dec
  o_max_fiat_amount :: dec
  o_available_crypto :: "string option"
  o_payment_methods :: "string list"
  o_region :: "string option"
  o_terms :: "string option"
  o_payment_window_minutes :: int
  o_completion_rate :: pyfloat
  o_trade_count :: int

record P2PTrade =
  t_id :: int
  t_source :: string
  t_offer_id :: "int option"
  t_external_offer_id :: "string option"
  t_taker_user_id :: int
  t_maker_user_id :: "int option"
  t_counterparty_handle :: "string option"
  t_status :: P2PTradeStatus
  t_offer_type :: string
  t_fiat_currency :: string
  t_crypto_asset :: string
  t_crypto_chain :: string
  t_fiat_amount :: dec
  t_crypto_amount :: string
  t_price_per_unit :: dec
  t_payment_method :: string
  t_escrow_lock_tx :: "string option"
  t_escrow_release_tx :: "string option"
  t_buyer_address :: "string option"
  t_seller_address :: "string option"
  t_fiat_payment_ref :: "string option"
  t_dispute_reason :: "string option"
  t_disputed_at :: "int option"
  t_disputed_by :: "int option"
  t_dispute_resolution :: "string option"
  t_resolved_by :: "int option"
  t_resolved_at :: "int option"
  t_resolution_note :: "string option"
  t_expires_at :: "int option"
  t_completed_at :: "int option"

record Wallet =
  wa_id :: int
  wa_user_id :: int
  wa_address :: string
  wa_chain_type :: string
  wa_is_active :: bool
  wa_is_default :: bool

record HotWallet =
  hw_id :: int
  hw_chain_type :: string
  hw_address :: string
  hw_is_deposit_wallet :: bool
  hw_is_active :: bool

record p2pdb =
  pd_offers :: "P2POffer list"
  pd_trades :: "P2PTrade list"
  pd_wallets :: "Wallet list"
  pd_hot_wallets :: "HotWallet list"

definition find_trade :: "int \<Rightarrow> p2pdb \<Rightarrow> P2PTrade option" where
  "find_trade i db = List.find (\<lambda>t. t_id t = i) (pd_trades db)"

definition find_offer :: "int \<Rightarrow> p2pdb \<Rightarrow> P2POffer option" where
  "find_offer i db = List.find (\<lambda>f. o_id f = i) (pd_offers db)"

definition find_wallet :: "int \<Rightarrow> p2pdb \<Rightarrow> Wallet option" where
  "find_wallet i db = List.find (\<lambda>w. wa_id w = i) (pd_wallets db)"

text \<open>A guarded \<open>UPDATE\<close>: the rows it matches are rewritten, and it reports whether there were any.\<close>

definition update_trades ::
  "(P2PTrade \<Rightarrow> bool) \<Rightarrow> (P2PTrade \<Rightarrow> P2PTrade) \<Rightarrow> p2pdb \<Rightarrow> bool \<times> p2pdb" where
  "update_trades P f db = (\<exists>t\<in>set (pd_trades db). P t, db\<lparr>pd_trades := upd_where P f (pd_trades db)\<rparr>)"

end
