(* ===== verification/P2PEscrow.thy ===== *)
theory P2PEscrow
  imports P2PModels
begin

text \<open>
  The escrow leg: \<open>P2PEscrow\<close> of \<open>bot/services/p2p_service.py\<close> and the executor of
  \<open>bot/services/p2p_escrow_executor.py\<close>.  What the chain does with a signed transfer is an
  input: it was sent, it was rejected before anything was broadcast, or the broadcast
  itself failed after the node may have accepted the transfer.  A transfer that may have
  been accepted is entered into the log of moves.
\<close>

datatype p2p_error =
    TradeNotFound | NativeOnly | EscrowNotConfigured | ChainNotAllowed
  | EscrowNeverLocked | NoVerifiedAddress | InvalidAddress | AddressMismatch
  | NotReleasable | UnderDispute | FiatAlreadySent | NotRefundable
  | NotAParty | TooManyDisputes | NotDisputable | BadResolution | NoDispute | DisputeTaken
  | CannotMarkPaid | NoSellerWallet | SellerWalletMismatch
  | EscrowConfigError | Raised string | Signal dec_signal | IntOfNonFinite
  | RegionBlocked | AmountNotPositive | AmountOutOfRange | NoBuyerAddress
  | InvalidOfferType | LimitsReversed | PriceNotPositive | ZeroDivision

datatype action = Lock | Release | Refund

datatype outcome = Sent string | NotSent string | SentAmbiguous string

record move =
  m_trade :: int
  m_action :: action
  m_from_wallet :: "int option"
  m_to :: string
  m_amount_raw :: int
  m_chain :: string
  m_token :: string

text \<open>
  The settings, the static tables of tokens and chains (\<open>bot/config\<close>), and the address
  functions of the web3 package, which are parameters.
\<close>

record p2p_cfg =
  p2p_enabled :: bool
  p2p_escrow_chain :: string
  p2p_escrow_token :: string
  p2p_escrow_hot_wallet_id :: "int option"
  p2p_escrow_allowed_chains :: "string option"
  p2p_restricted_regions :: "string option"
  executor_wired :: bool
  token_address :: "string \<Rightarrow> string \<Rightarrow> string option"
  token_decimals :: "string \<Rightarrow> string \<Rightarrow> nat"
  chain_known :: "string \<Rightarrow> bool"
  is_address :: "string \<Rightarrow> bool"
  to_checksum_address :: "string \<Rightarrow> string"

record world =
  w_db :: p2pdb
  w_moves :: "move list"
  w_awards :: "(int \<times> int) list"

record io =
  io_now :: int
  io_outcome :: outcome

subsection \<open>Comma separated settings\<close>

fun split_comma :: "string \<Rightarrow> string list" where
  "split_comma [] = [[]]"
| "split_comma (c # s) =
     (if c = CHR '','' then [] # split_comma s
      else case split_comma s of w # ws \<Rightarrow> (c # w) # ws | [] \<Rightarrow> [[c]])"

definition setting_words :: "(string \<Rightarrow> string) \<Rightarrow> string option \<Rightarrow> string list" where
  "setting_words f raw = map (\<lambda>c. f (strip c)) (filter (\<lambda>c. strip c \<noteq> []) (split_comma (py_or raw [])))"

definition allowed_chains :: "p2p_cfg \<Rightarrow> string list" where
  "allowed_chains cfg = setting_words lower (p2p_escrow_allowed_chains cfg)"

definition escrow_chain :: "p2p_cfg \<Rightarrow> string \<Rightarrow> string" where
  "escrow_chain cfg chain = py_or (Some chain) (p2p_escrow_chain cfg)"

definition guard_chain :: "p2p_cfg \<Rightarrow> string \<Rightarrow> p2p_error + unit" where
  "guard_chain cfg chain =
     (let target = lower (escrow_chain cfg chain); allowed = allowed_chains cfg
      in if allowed \<noteq> [] \<and> target \<notin> set allowed then Inl ChainNotAllowed else Inr ())"

subsection \<open>The executor\<close>

definition get_escrow_wallet :: "p2p_cfg \<Rightarrow> p2pdb \<Rightarrow> HotWallet option" where
  "get_escrow_wallet cfg db =
     (let deposit = List.find (\<lambda>h. hw_chain_type h = ''evm'' \<and> hw_is_deposit_wallet h \<and> hw_is_active h)
                      (pd_hot_wallets db)
      in case p2p_escrow_hot_wallet_id cfg of
           None \<Rightarrow> deposit
         | Some i \<Rightarrow>
             (case List.find (\<lambda>h. hw_id h = i) (pd_hot_wallets db) of
                Some h \<Rightarrow> if hw_is_active h then Some h else deposit
              | None \<Rightarrow> deposit))"

text \<open>\<open>int(d)\<close> of a decimal: truncation towards zero.\<close>

fun dec_trunc :: "dec \<Rightarrow> p2p_error + int" where
  "dec_trunc (Dec s c e) =
     (let n = int (if e \<ge> 0 then c * 10 ^ nat e else c div 10 ^ nat (- e)) in Inr (if s then - n else n))"
| "dec_trunc _ = Inl IntOfNonFinite"

definition amount_raw :: "dec \<Rightarrow> nat \<Rightarrow> p2p_error + int" where
  "amount_raw amt decimals =
     bindE (mapErr Signal (dec_mul amt (Dec False (10 ^ decimals) 0))) dec_trunc"

text \<open>The transfer that the executor asks the signer for, or the error it raises before that.\<close>

definition executor_request ::
  "p2p_cfg \<Rightarrow> p2pdb \<Rightarrow> int \<Rightarrow> action \<Rightarrow> int option \<Rightarrow> string option \<Rightarrow> string \<Rightarrow> string \<Rightarrow> string
     \<Rightarrow> p2p_error + move" where
  "executor_request cfg db tid act from_wallet to_addr amount chain token =
     (case dec_parse amount of
        None \<Rightarrow> Inl (Signal InvalidOperation)
      | Some amt \<Rightarrow>
          bindE (mapErr Signal (dec_le amt dec_zero)) (\<lambda>not_positive.
          if not_positive then Inl EscrowConfigError
          else case get_escrow_wallet cfg db of
            None \<Rightarrow> Inl EscrowConfigError
          | Some escrow \<Rightarrow>
              (case act of
                 Lock \<Rightarrow>
                   (case from_wallet of
                      None \<Rightarrow> Inl EscrowConfigError
                    | Some i \<Rightarrow>
                        if i = 0 then Inl EscrowConfigError
                        else (case find_wallet i db of
                           None \<Rightarrow> Inl EscrowConfigError
                         | Some w \<Rightarrow>
                             if token_address cfg token chain = None then Inl EscrowConfigError
                             else if \<not> chain_known cfg chain then Inl EscrowConfigError
                             else bindE (amount_raw amt (token_decimals cfg token chain)) (\<lambda>raw.
                               Inr \<lparr>m_trade = tid, m_action = Lock, m_from_wallet = Some i,
                                    m_to = to_checksum_address cfg (hw_address escrow), m_amount_raw = raw,
                                    m_chain = chain, m_token = token\<rparr>)))
               | _ \<Rightarrow>
                   if \<not> truthy to_addr then Inl EscrowConfigError
                   else if token_address cfg token chain = None then Inl EscrowConfigError
                   else bindE (amount_raw amt (token_decimals cfg token chain)) (\<lambda>raw.
                     Inr \<lparr>m_trade = tid, m_action = act, m_from_wallet = None,
                          m_to = to_checksum_address cfg (the to_addr), m_amount_raw = raw,
                          m_chain = chain, m_token = token\<rparr>))))"

text \<open>\<open>P2PEscrow.lock\<close>, \<open>release\<close> and \<open>refund\<close>: the guards, the executor, the chain.\<close>

definition escrow_call ::
  "p2p_cfg \<Rightarrow> io \<Rightarrow> int \<Rightarrow> action \<Rightarrow> int option \<Rightarrow> string option \<Rightarrow> string \<Rightarrow> string \<Rightarrow> world
     \<Rightarrow> (p2p_error + string) \<times> world" where
  "escrow_call cfg io tid act from_wallet to_addr amount chain w =
     (if \<not> executor_wired cfg then (Inl EscrowNotConfigured, w)
      else case guard_chain cfg chain of
        Inl e \<Rightarrow> (Inl e, w)
      | Inr _ \<Rightarrow>
          (case executor_request cfg (w_db w) tid act from_wallet to_addr amount
                  (escrow_chain cfg chain) (p2p_escrow_token cfg) of
             Inl e \<Rightarrow> (Inl e, w)
           | Inr m \<Rightarrow>
               (case io_outcome io of
                  Sent tx \<Rightarrow> (Inr tx, w\<lparr>w_moves := w_moves w @ [m]\<rparr>)
                | NotSent e \<Rightarrow> (Inl (Raised e), w)
                | SentAmbiguous e \<Rightarrow> (Inl (Raised e), w\<lparr>w_moves := w_moves w @ [m]\<rparr>))))"

definition escrow_lock where
  "escrow_lock cfg io tid wallet_id amount chain w =
     escrow_call cfg io tid Lock (Some wallet_id) None amount chain w"

definition escrow_release where
  "escrow_release cfg io tid buyer_address amount chain w =
     escrow_call cfg io tid Release None (Some buyer_address) amount chain w"

definition escrow_refund where
  "escrow_refund cfg io tid seller_address amount chain w =
     escrow_call cfg io tid Refund None (Some seller_address) amount chain w"

end
