(* ===== verification/P2PService.thy ===== *)
theory P2PService
  imports P2PEscrow
begin

text \<open>
  The trade lifecycle of \<open>bot/services/p2p_service.py\<close>.  Every operation is a sequence of
  sections between two awaits: a database transaction or one escrow call.  A control point
  (\<open>pc\<close>) is where an operation waits, with the values its code holds there; \<open>p2p_step\<close>
  runs the next section.  \<open>call\<close> runs an operation to its end with nothing in between; the
  interleavings of several operations are in theory \<open>P2PSystem\<close>.
\<close>

definition native :: "P2PTrade \<Rightarrow> bool" where
  "native t = (t_source t = source_value NATIVE)"

subsection \<open>Payout addresses\<close>

definition norm_address :: "p2p_cfg \<Rightarrow> string option \<Rightarrow> string option" where
  "norm_address cfg a =
     (case a of Some s \<Rightarrow> if s \<noteq> [] \<and> is_address cfg s then Some (to_checksum_address cfg s) else None
      | None \<Rightarrow> None)"

definition resolve_payout :: "p2p_cfg \<Rightarrow> string option \<Rightarrow> string option \<Rightarrow> p2p_error + string" where
  "resolve_payout cfg recorded override =
     (let rec = norm_address cfg recorded in
      if \<not> truthy rec then Inl NoVerifiedAddress
      else if truthy override then
        (let ovr = norm_address cfg override in
         if \<not> truthy ovr then Inl InvalidAddress
         else if ovr \<noteq> rec then Inl AddressMismatch
         else Inr (the rec))
      else Inr (the rec))"

subsection \<open>Reads and writes\<close>

definition get_trade :: "int \<Rightarrow> p2pdb \<Rightarrow> p2p_error + P2PTrade" where
  "get_trade i db = (case find_trade i db of None \<Rightarrow> Inl TradeNotFound | Some t \<Rightarrow> Inr t)"

definition update_trade :: "int \<Rightarrow> (P2PTrade \<Rightarrow> P2PTrade) \<Rightarrow> p2pdb \<Rightarrow> (p2p_error + P2PTrade) \<times> p2pdb" where
  "update_trade i f db =
     (case find_trade i db of
        None \<Rightarrow> (Inl TradeNotFound, db)
      | Some t \<Rightarrow> (Inr (f t), snd (update_trades (\<lambda>x. t_id x = i) f db)))"

definition reserve_for_release :: "int \<Rightarrow> p2pdb \<Rightarrow> bool \<times> p2pdb" where
  "reserve_for_release i =
     update_trades (\<lambda>t. t_id t = i \<and> native t \<and> t_escrow_lock_tx t \<noteq> None \<and> t_escrow_release_tx t = None
         \<and> t_status t \<in> {ESCROW_LOCKED, FIAT_SENT, RELEASED})
       (\<lambda>t. t\<lparr>t_status := RELEASED\<rparr>)"

definition reserve_for_cancel :: "int \<Rightarrow> p2pdb \<Rightarrow> bool \<times> p2pdb" where
  "reserve_for_cancel i =
     update_trades (\<lambda>t. t_id t = i \<and> native t \<and> t_status t = ESCROW_LOCKED)
       (\<lambda>t. t\<lparr>t_status := CANCELLED\<rparr>)"

definition reserve_for_dispute :: "int \<Rightarrow> p2pdb \<Rightarrow> bool \<times> p2pdb" where
  "reserve_for_dispute i =
     update_trades (\<lambda>t. t_id t = i \<and> native t \<and> t_escrow_lock_tx t \<noteq> None \<and> t_escrow_release_tx t = None
         \<and> t_status t \<in> {ESCROW_LOCKED, FIAT_SENT})
       (\<lambda>t. t\<lparr>t_status := DISPUTED\<rparr>)"

definition reserve_from_dispute :: "int \<Rightarrow> p2pdb \<Rightarrow> bool \<times> p2pdb" where
  "reserve_from_dispute i =
     update_trades (\<lambda>t. t_id t = i \<and> native t \<and> t_status t = DISPUTED \<and> t_escrow_release_tx t = None)
       (\<lambda>t. t\<lparr>t_status := RESOLVING\<rparr>)"

definition cas_fiat_sent :: "int \<Rightarrow> string option \<Rightarrow> p2pdb \<Rightarrow> bool \<times> p2pdb" where
  "cas_fiat_sent i payment_ref =
     update_trades (\<lambda>t. t_id t = i \<and> t_status t \<in> {INITIATED, ESCROW_LOCKED, FIAT_PENDING})
       (\<lambda>t. t\<lparr>t_status := FIAT_SENT, t_fiat_payment_ref := payment_ref\<rparr>)"

definition count_open_disputes :: "int \<Rightarrow> p2pdb \<Rightarrow> nat" where
  "count_open_disputes user db =
     length (filter (\<lambda>t. t_disputed_by t = Some user \<and> t_status t = DISPUTED) (pd_trades db))"

definition MAX_OPEN_DISPUTES_PER_USER :: nat where "MAX_OPEN_DISPUTES_PER_USER = 5"

definition get_default_wallet :: "int \<Rightarrow> string \<Rightarrow> p2pdb \<Rightarrow> Wallet option" where
  "get_default_wallet user chain_type db =
     (let mine = filter (\<lambda>w. wa_user_id w = user \<and> wa_chain_type w = chain_type \<and> wa_is_active w) (pd_wallets db)
      in case List.find wa_is_default mine of
           Some w \<Rightarrow> Some w
         | None \<Rightarrow> (case mine of w # _ \<Rightarrow> Some w | [] \<Rightarrow> None))"

definition resolve_seller_wallet_id :: "P2PTrade \<Rightarrow> p2pdb \<Rightarrow> p2p_error + int" where
  "resolve_seller_wallet_id t db =
     (let wallet_id =
        (if t_offer_type t = offer_type_value SELL_CRYPTO then
           (case t_offer_id t of None \<Rightarrow> None
            | Some i \<Rightarrow> (case find_offer i db of Some f \<Rightarrow> o_maker_wallet_id f | None \<Rightarrow> None))
         else map_option wa_id (get_default_wallet (t_taker_user_id t) ''evm'' db))
      in case wallet_id of
           None \<Rightarrow> Inl NoSellerWallet
         | Some i \<Rightarrow> if i = 0 then Inl NoSellerWallet else Inr i)"

text \<open>Points for both legs; a failing conversion awards nothing.\<close>

definition award_p2p_points :: "P2PTrade \<Rightarrow> (int \<times> int) list" where
  "award_p2p_points t =
     (case fl_div (fl_of_dec (t_fiat_amount t)) (Fin 10) of
        None \<Rightarrow> []
      | Some v \<Rightarrow>
          (case fl_trunc v of
             None \<Rightarrow> []
           | Some n \<Rightarrow>
               map (\<lambda>uid. (uid, max 1 n))
                 (filter (\<lambda>uid. uid \<noteq> 0)
                   (remdups (t_taker_user_id t # (case t_maker_user_id t of None \<Rightarrow> [] | Some m \<Rightarrow> [m]))))))"

subsection \<open>Control points\<close>

datatype pc =
    RelGet int "string option" | RelReserve P2PTrade string | RelSend P2PTrade string | RelRecord int string
  | CanGet int "string option" | CanReserve P2PTrade string | CanSend P2PTrade string
  | CanReread int | CanWrite int
  | DisGet int string "int option" | DisCount int string int | DisReserve int string int | DisWrite int string int
  | ResGet int string int "string option"
  | ResReserve P2PTrade string string int "string option"
  | ResSend P2PTrade string string int "string option"
  | ResRecord int string string int "string option" int
  | ResRevert int p2p_error
  | MarkCas int "string option" | MarkRead int
  | LockGet int "int option" | LockWallet P2PTrade "int option" | LockSend P2PTrade int | LockRecord int string
  | Done "p2p_error + P2PTrade"

definition put_db :: "world \<Rightarrow> p2pdb \<Rightarrow> world" where
  "put_db w db = w\<lparr>w_db := db\<rparr>"

text \<open>A guarded update as a section: refused with an error, or on to the next section.\<close>

definition cas_section :: "(p2pdb \<Rightarrow> bool \<times> p2pdb) \<Rightarrow> p2p_error \<Rightarrow> pc \<Rightarrow> world \<Rightarrow> pc \<times> world" where
  "cas_section cas e k w =
     (let (won, db) = cas (w_db w) in (if won then k else Done (Inl e), put_db w db))"

definition write_section :: "int \<Rightarrow> (P2PTrade \<Rightarrow> P2PTrade) \<Rightarrow> world \<Rightarrow> (p2p_error + P2PTrade) \<times> world" where
  "write_section i f w = (let (r, db) = update_trade i f (w_db w) in (r, put_db w db))"

subsection \<open>release\_escrow\<close>

definition release_checks :: "p2p_cfg \<Rightarrow> int \<Rightarrow> string option \<Rightarrow> p2pdb \<Rightarrow> p2p_error + (P2PTrade \<times> string)" where
  "release_checks cfg i override db =
     bindE (get_trade i db) (\<lambda>t.
       if \<not> native t then Inl NativeOnly
       else if \<not> truthy (t_escrow_lock_tx t) then Inl EscrowNeverLocked
       else bindE (resolve_payout cfg (t_buyer_address t) override) (\<lambda>a. Inr (t, a)))"

definition completed :: "io \<Rightarrow> string \<Rightarrow> P2PTrade \<Rightarrow> P2PTrade" where
  "completed io tx t = t\<lparr>t_status := COMPLETED, t_escrow_release_tx := Some tx, t_completed_at := Some (io_now io)\<rparr>"

fun release_step :: "p2p_cfg \<Rightarrow> io \<Rightarrow> pc \<Rightarrow> world \<Rightarrow> pc \<times> world" where
  "release_step cfg io (RelGet i override) w =
     (case release_checks cfg i override (w_db w) of
        Inl e \<Rightarrow> (Done (Inl e), w) | Inr (t, a) \<Rightarrow> (RelReserve t a, w))"
| "release_step cfg io (RelReserve t a) w =
     cas_section (reserve_for_release (t_id t)) NotReleasable (RelSend t a) w"
| "release_step cfg io (RelSend t a) w =
     (case escrow_release cfg io (t_id t) a (t_crypto_amount t) (t_crypto_chain t) w of
        (Inl e, w') \<Rightarrow> (Done (Inl e), w') | (Inr tx, w') \<Rightarrow> (RelRecord (t_id t) tx, w'))"
| "release_step cfg io (RelRecord i tx) w =
     (case write_section i (completed io tx) w of
        (Inl e, w') \<Rightarrow> (Done (Inl e), w')
      | (Inr t, w') \<Rightarrow> (Done (Inr t), w'\<lparr>w_awards := w_awards w' @ award_p2p_points t\<rparr>))"
| "release_step cfg io k w = (k, w)"

subsection \<open>cancel\_trade\<close>

definition cancel_checks :: "p2p_cfg \<Rightarrow> int \<Rightarrow> string option \<Rightarrow> p2pdb \<Rightarrow> p2p_error + pc" where
  "cancel_checks cfg i override db =
     bindE (get_trade i db) (\<lambda>t.
       if native t \<and> t_status t \<in> {DISPUTED, RESOLVING} then Inl UnderDispute
       else if native t \<and> t_status t = FIAT_SENT then Inl FiatAlreadySent
       else if native t \<and> t_status t = ESCROW_LOCKED then
         bindE (resolve_payout cfg (t_seller_address t) override) (\<lambda>a. Inr (CanReserve t a))
       else Inr (CanWrite i))"

fun cancel_step :: "p2p_cfg \<Rightarrow> io \<Rightarrow> pc \<Rightarrow> world \<Rightarrow> pc \<times> world" where
  "cancel_step cfg io (CanGet i override) w =
     (case cancel_checks cfg i override (w_db w) of Inl e \<Rightarrow> (Done (Inl e), w) | Inr k \<Rightarrow> (k, w))"
| "cancel_step cfg io (CanReserve t a) w =
     cas_section (reserve_for_cancel (t_id t)) NotRefundable (CanSend t a) w"
| "cancel_step cfg io (CanSend t a) w =
     (case escrow_refund cfg io (t_id t) a (t_crypto_amount t) (t_crypto_chain t) w of
        (Inl e, w') \<Rightarrow> (Done (Inl e), w') | (Inr tx, w') \<Rightarrow> (CanReread (t_id t), w'))"
| "cancel_step cfg io (CanReread i) w = (Done (get_trade i (w_db w)), w)"
| "cancel_step cfg io (CanWrite i) w =
     (case write_section i (\<lambda>t. t\<lparr>t_status := CANCELLED\<rparr>) w of (r, w') \<Rightarrow> (Done r, w'))"
| "cancel_step cfg io k w = (k, w)"

subsection \<open>open\_dispute\<close>

definition dispute_checks :: "int \<Rightarrow> int option \<Rightarrow> p2pdb \<Rightarrow> p2p_error + int" where
  "dispute_checks i opened_by db =
     bindE (get_trade i db) (\<lambda>t.
       if \<not> native t then Inl NativeOnly
       else case opened_by of
         None \<Rightarrow> Inl NotAParty
       | Some u \<Rightarrow> if u \<notin> {t_taker_user_id t, (case t_maker_user_id t of Some m \<Rightarrow> m | None \<Rightarrow> 0)}
                  then Inl NotAParty else Inr u)"

fun dispute_step :: "p2p_cfg \<Rightarrow> io \<Rightarrow> pc \<Rightarrow> world \<Rightarrow> pc \<times> world" where
  "dispute_step cfg io (DisGet i reason opened_by) w =
     (case dispute_checks i opened_by (w_db w) of
        Inl e \<Rightarrow> (Done (Inl e), w) | Inr u \<Rightarrow> (DisCount i reason u, w))"
| "dispute_step cfg io (DisCount i reason u) w =
     (if count_open_disputes u (w_db w) \<ge> MAX_OPEN_DISPUTES_PER_USER
      then (Done (Inl TooManyDisputes), w) else (DisReserve i reason u, w))"
| "dispute_step cfg io (DisReserve i reason u) w =
     cas_section (reserve_for_dispute i) NotDisputable (DisWrite i reason u) w"
| "dispute_step cfg io (DisWrite i reason u) w =
     (case write_section i (\<lambda>t. t\<lparr>t_dispute_reason := Some reason, t_disputed_at := Some (io_now io),
                                  t_disputed_by := Some u\<rparr>) w of (r, w') \<Rightarrow> (Done r, w'))"
| "dispute_step cfg io k w = (k, w)"

subsection \<open>resolve\_dispute\<close>

definition resolve_checks ::
  "p2p_cfg \<Rightarrow> int \<Rightarrow> string \<Rightarrow> p2pdb \<Rightarrow> p2p_error + (P2PTrade \<times> string)" where
  "resolve_checks cfg i resolution db =
     (if resolution \<noteq> ''release'' \<and> resolution \<noteq> ''refund'' then Inl BadResolution
      else bindE (get_trade i db) (\<lambda>t.
        if \<not> native t then Inl NativeOnly
        else if t_status t \<noteq> DISPUTED then Inl NoDispute
        else if \<not> truthy (t_escrow_lock_tx t) then Inl EscrowNeverLocked
        else bindE (resolve_payout cfg (if resolution = ''release'' then t_buyer_address t else t_seller_address t) None)
               (\<lambda>a. Inr (t, a))))"

definition resolved :: "string \<Rightarrow> string \<Rightarrow> int \<Rightarrow> string option \<Rightarrow> int \<Rightarrow> P2PTrade \<Rightarrow> P2PTrade" where
  "resolved tx resolution resolver note now t =
     t\<lparr>t_status := (if resolution = ''release'' then COMPLETED else CANCELLED),
       t_escrow_release_tx := Some tx,
       t_completed_at := (if resolution = ''release'' then Some now else None),
       t_dispute_resolution := Some resolution, t_resolved_by := Some resolver,
       t_resolved_at := Some now, t_resolution_note := note\<rparr>"

fun resolve_step :: "p2p_cfg \<Rightarrow> io \<Rightarrow> pc \<Rightarrow> world \<Rightarrow> pc \<times> world" where
  "resolve_step cfg io (ResGet i resolution resolver note) w =
     (case resolve_checks cfg i resolution (w_db w) of
        Inl e \<Rightarrow> (Done (Inl e), w) | Inr (t, a) \<Rightarrow> (ResReserve t a resolution resolver note, w))"
| "resolve_step cfg io (ResReserve t a resolution resolver note) w =
     cas_section (reserve_from_dispute (t_id t)) DisputeTaken (ResSend t a resolution resolver note) w"
| "resolve_step cfg io (ResSend t a resolution resolver note) w =
     (case (if resolution = ''release''
            then escrow_release cfg io (t_id t) a (t_crypto_amount t) (t_crypto_chain t) w
            else escrow_refund cfg io (t_id t) a (t_crypto_amount t) (t_crypto_chain t) w) of
        (Inl e, w') \<Rightarrow> (ResRevert (t_id t) e, w')
      | (Inr tx, w') \<Rightarrow> (ResRecord (t_id t) tx resolution resolver note (io_now io), w'))"
| "resolve_step cfg io (ResRecord i tx resolution resolver note now) w =
     (case write_section i (resolved tx resolution resolver note now) w of
        (Inl e, w') \<Rightarrow> (Done (Inl e), w')
      | (Inr t, w') \<Rightarrow> (Done (Inr t),
           if resolution = ''release'' then w'\<lparr>w_awards := w_awards w' @ award_p2p_points t\<rparr> else w'))"
| "resolve_step cfg io (ResRevert i e) w =
     (case write_section i (\<lambda>t. t\<lparr>t_status := DISPUTED\<rparr>) w of
        (Inl e', w') \<Rightarrow> (Done (Inl e'), w') | (Inr _, w') \<Rightarrow> (Done (Inl e), w'))"
| "resolve_step cfg io k w = (k, w)"

subsection \<open>mark\_fiat\_sent and lock\_escrow\<close>

fun mark_step :: "p2p_cfg \<Rightarrow> io \<Rightarrow> pc \<Rightarrow> world \<Rightarrow> pc \<times> world" where
  "mark_step cfg io (MarkCas i payment_ref) w =
     cas_section (cas_fiat_sent i payment_ref) CannotMarkPaid (MarkRead i) w"
| "mark_step cfg io (MarkRead i) w = (Done (get_trade i (w_db w)), w)"
| "mark_step cfg io k w = (k, w)"

fun lock_step :: "p2p_cfg \<Rightarrow> io \<Rightarrow> pc \<Rightarrow> world \<Rightarrow> pc \<times> world" where
  "lock_step cfg io (LockGet i wallet_id) w =
     (case get_trade i (w_db w) of
        Inl e \<Rightarrow> (Done (Inl e), w)
      | Inr t \<Rightarrow> if \<not> native t then (Done (Inl NativeOnly), w) else (LockWallet t wallet_id, w))"
| "lock_step cfg io (LockWallet t wallet_id) w =
     (case resolve_seller_wallet_id t (w_db w) of
        Inl e \<Rightarrow> (Done (Inl e), w)
      | Inr r \<Rightarrow>
          if wallet_id \<noteq> None \<and> wallet_id \<noteq> Some r then (Done (Inl SellerWalletMismatch), w)
          else (LockSend t r, w))"
| "lock_step cfg io (LockSend t r) w =
     (case escrow_lock cfg io (t_id t) r (t_crypto_amount t) (t_crypto_chain t) w of
        (Inl e, w') \<Rightarrow> (Done (Inl e), w') | (Inr tx, w') \<Rightarrow> (LockRecord (t_id t) tx, w'))"
| "lock_step cfg io (LockRecord i tx) w =
     (case write_section i (\<lambda>t. t\<lparr>t_status := ESCROW_LOCKED, t_escrow_lock_tx := Some tx\<rparr>) w of
        (r, w') \<Rightarrow> (Done r, w'))"
| "lock_step cfg io k w = (k, w)"

subsection \<open>One section, and a whole call\<close>

fun p2p_step :: "p2p_cfg \<Rightarrow> io \<Rightarrow> pc \<Rightarrow> world \<Rightarrow> pc \<times> world" where
  "p2p_step cfg io (RelGet i a) w = release_step cfg io (RelGet i a) w"
| "p2p_step cfg io (RelReserve t a) w = release_step cfg io (RelReserve t a) w"
| "p2p_step cfg io (RelSend t a) w = release_step cfg io (RelSend t a) w"
| "p2p_step cfg io (RelRecord i a) w = release_step cfg io (RelRecord i a) w"
| "p2p_step cfg io (CanGet i a) w = cancel_step cfg io (CanGet i a) w"
| "p2p_step cfg io (CanReserve t a) w = cancel_step cfg io (CanReserve t a) w"
| "p2p_step cfg io (CanSend t a) w = cancel_step cfg io (CanSend t a) w"
| "p2p_step cfg io (CanReread i) w = cancel_step cfg io (CanReread i) w"
| "p2p_step cfg io (CanWrite i) w = cancel_step cfg io (CanWrite i) w"
| "p2p_step cfg io (DisGet i a b) w = dispute_step cfg io (DisGet i a b) w"
| "p2p_step cfg io (DisCount i a b) w = dispute_step cfg io (DisCount i a b) w"
| "p2p_step cfg io (DisReserve i a b) w = dispute_step cfg io (DisReserve i a b) w"
| "p2p_step cfg io (DisWrite i a b) w = dispute_step cfg io (DisWrite i a b) w"
| "p2p_step cfg io (MarkCas i a) w = mark_step cfg io (MarkCas i a) w"
| "p2p_step cfg io (MarkRead i) w = mark_step cfg io (MarkRead i) w"
| "p2p_step cfg io (LockGet i a) w = lock_step cfg io (LockGet i a) w"
| "p2p_step cfg io (LockWallet t a) w = lock_step cfg io (LockWallet t a) w"
| "p2p_step cfg io (LockSend t a) w = lock_step cfg io (LockSend t a) w"
| "p2p_step cfg io (LockRecord i a) w = lock_step cfg io (LockRecord i a) w"
| "p2p_step cfg io (Done r) w = (Done r, w)"
| "p2p_step cfg io k w = resolve_step cfg io k w"

definition finished :: "pc \<Rightarrow> bool" where
  "finished k = (case k of Done _ \<Rightarrow> True | _ \<Rightarrow> False)"

fun p2p_run :: "nat \<Rightarrow> p2p_cfg \<Rightarrow> io \<Rightarrow> pc \<Rightarrow> world \<Rightarrow> pc \<times> world" where
  "p2p_run 0 cfg io k w = (k, w)"
| "p2p_run (Suc n) cfg io k w =
     (if finished k then (k, w) else let (k', w') = p2p_step cfg io k w in p2p_run n cfg io k' w')"

text \<open>Four sections are the most an operation has.\<close>

definition call :: "p2p_cfg \<Rightarrow> io \<Rightarrow> pc \<Rightarrow> world \<Rightarrow> (p2p_error + P2PTrade) \<times> world" where
  "call cfg io k w = (case p2p_run 4 cfg io k w of (Done r, w') \<Rightarrow> (r, w') | (_, w') \<Rightarrow> (Inl (Raised ''running''), w'))"

definition release_escrow where
  "release_escrow cfg io trade_id buyer_address w = call cfg io (RelGet trade_id buyer_address) w"

definition cancel_trade where
  "cancel_trade cfg io trade_id seller_address w = call cfg io (CanGet trade_id seller_address) w"

definition open_dispute where
  "open_dispute cfg io trade_id reason opened_by w = call cfg io (DisGet trade_id reason opened_by) w"

definition resolve_dispute where
  "resolve_dispute cfg io trade_id resolution resolver_id note w =
     call cfg io (ResGet trade_id resolution resolver_id note) w"

definition mark_fiat_sent where
  "mark_fiat_sent cfg io trade_id payment_ref w = call cfg io (MarkCas trade_id payment_ref) w"

definition lock_escrow where
  "lock_escrow cfg io trade_id seller_wallet_id w = call cfg io (LockGet trade_id seller_wallet_id) w"

end
