(* ===== verification/P2PSystem.thy ===== *)
theory P2PSystem
  imports P2PService "HOL-Library.Multiset"
begin

text \<open>
  The trade operations of theory \<open>P2PService\<close> running concurrently: a step starts an
  operation or runs one section of an operation in flight.  The first invariant says where
  funds may go, the second how often; both are proved section by section.
\<close>

subsection \<open>Guarded updates of one row\<close>

definition trade_ids :: "p2pdb \<Rightarrow> int list" where
  "trade_ids db = map t_id (pd_trades db)"

text \<open>What a trade fixes when it is opened.\<close>

definition trade_terms :: "P2PTrade \<Rightarrow> int \<times> string \<times> string option \<times> string option \<times> string \<times> string" where
  "trade_terms t = (t_id t, t_source t, t_buyer_address t, t_seller_address t, t_crypto_amount t, t_crypto_chain t)"

definition keeps_terms :: "(P2PTrade \<Rightarrow> P2PTrade) \<Rightarrow> bool" where
  "keeps_terms f = (\<forall>t. trade_terms (f t) = trade_terms t)"

lemma keeps_terms_id: "keeps_terms f \<Longrightarrow> t_id (f t) = t_id t"
  by (simp add: keeps_terms_def trade_terms_def)

lemma update_trades_terms:
  assumes "keeps_terms f" and "update_trades P f db = (b, db')"
  shows "map trade_terms (pd_trades db') = map trade_terms (pd_trades db)"
proof -
  have "db' = db\<lparr>pd_trades := upd_where P f (pd_trades db)\<rparr>" using assms(2) by (simp add: update_trades_def)
  moreover have "map trade_terms (upd_where P f (pd_trades db)) = map trade_terms (pd_trades db)"
    by (rule map_upd_where) (use assms(1) in \<open>simp add: keeps_terms_def\<close>)
  ultimately show ?thesis by simp
qed

lemma update_trades_lost:
  assumes "update_trades P f db = (False, db')"
  shows "db' = db"
proof -
  from assms have "\<forall>t\<in>set (pd_trades db). \<not> P t" and d: "db' = db\<lparr>pd_trades := upd_where P f (pd_trades db)\<rparr>"
    by (auto simp: update_trades_def)
  then have "upd_where P f (pd_trades db) = pd_trades db" by (intro upd_where_idem) blast
  with d show ?thesis by simp
qed

lemma update_trades_won:
  assumes "update_trades P f db = (True, db')" and "distinct (trade_ids db)"
    and "\<And>t. P t \<Longrightarrow> t_id t = i" and "keeps_terms f"
  obtains t where "find_trade i db = Some t" "P t" "find_trade i db' = Some (f t)"
proof -
  from assms(1) obtain t where t: "t \<in> set (pd_trades db)" "P t"
    and d: "db' = db\<lparr>pd_trades := upd_where P f (pd_trades db)\<rparr>"
    by (auto simp: update_trades_def)
  have "find_trade i db = Some t"
    using find_unique [of t_id "pd_trades db" t i] assms(2,3) t by (simp add: find_trade_def trade_ids_def)
  moreover have "find_trade i db' = Some (f t)"
  proof -
    have "f t \<in> set (pd_trades db')" using t d by (force simp: set_upd_where)
    moreover have "distinct (map t_id (pd_trades db'))"
      using assms(2) d map_upd_where [of P t_id f "pd_trades db"] keeps_terms_id [OF assms(4)]
      by (simp add: trade_ids_def)
    ultimately show ?thesis
      using find_unique [of t_id "pd_trades db'" "f t" i] assms(3) t keeps_terms_id [OF assms(4)]
      by (simp add: find_trade_def)
  qed
  ultimately show thesis using that t(2) by blast
qed

lemma update_trades_other:
  assumes "update_trades P f db = (b, db')" and "\<And>t. P t \<Longrightarrow> t_id t = i" and "keeps_terms f" and "j \<noteq> i"
  shows "find_trade j db' = find_trade j db"
proof -
  have "db' = db\<lparr>pd_trades := upd_where P f (pd_trades db)\<rparr>" using assms(1) by (simp add: update_trades_def)
  moreover have "List.find (\<lambda>t. t_id t = j) (upd_where P f (pd_trades db)) = List.find (\<lambda>t. t_id t = j) (pd_trades db)"
    using assms(2,3,4) by (intro find_upd_where_other) (auto simp: keeps_terms_id)
  ultimately show ?thesis by (simp add: find_trade_def)
qed

lemma find_trade_id: "find_trade i db = Some t \<Longrightarrow> t_id t = i"
  by (auto simp: find_trade_def dest: find_SomeD)

lemma find_trade_mem: "find_trade i db = Some t \<Longrightarrow> t \<in> set (pd_trades db)"
  by (auto simp: find_trade_def dest: find_SomeD)

lemma terms_ids: "map trade_terms rows' = map trade_terms rows \<Longrightarrow> map t_id rows' = map t_id rows"
proof -
  have "map t_id rows = map fst (map trade_terms rows)" for rows by (simp add: trade_terms_def)
  then show "map trade_terms rows' = map trade_terms rows \<Longrightarrow> map t_id rows' = map t_id rows" by metis
qed

lemma keeps_terms_simps [simp]:
  "keeps_terms (\<lambda>t. t\<lparr>t_status := s\<rparr>)"
  "keeps_terms (\<lambda>t. t\<lparr>t_status := s, t_fiat_payment_ref := r\<rparr>)"
  "keeps_terms (\<lambda>t. t\<lparr>t_status := s, t_escrow_lock_tx := x\<rparr>)"
  "keeps_terms (\<lambda>t. t\<lparr>t_dispute_reason := d, t_disputed_at := a, t_disputed_by := u\<rparr>)"
  "keeps_terms (completed io tx)"
  "keeps_terms (resolved tx res who note now)"
  by (simp_all add: keeps_terms_def trade_terms_def completed_def resolved_def)

text \<open>The effect of the sections that touch a row.\<close>

lemma cas_sectionE:
  assumes "cas_section (update_trades P f) e k w = (k', w')" and "distinct (trade_ids (w_db w))"
    and "\<And>t. P t \<Longrightarrow> t_id t = i" and "keeps_terms f"
  obtains (won) t where "k' = k" "find_trade i (w_db w) = Some t" "P t" "find_trade i (w_db w') = Some (f t)"
      "\<And>j. j \<noteq> i \<Longrightarrow> find_trade j (w_db w') = find_trade j (w_db w)" "w_moves w' = w_moves w"
      "map trade_terms (pd_trades (w_db w')) = map trade_terms (pd_trades (w_db w))" "w_awards w' = w_awards w"
  | (lost) "k' = Done (Inl e)" "w' = w"
proof (cases "update_trades P f (w_db w)")
  case (Pair b db)
  then have w': "w' = put_db w db" and k': "k' = (if b then k else Done (Inl e))"
    using assms(1) by (auto simp: cas_section_def)
  show thesis
  proof (cases b)
    case True
    with Pair have u: "update_trades P f (w_db w) = (True, db)" by simp
    from update_trades_won [OF u assms(2,3,4)] obtain t where t: "find_trade i (w_db w) = Some t" "P t"
      "find_trade i db = Some (f t)" by blast
    show thesis
    proof (rule won [of t])
      show "k' = k" using k' True by simp
      show "find_trade i (w_db w) = Some t" "P t" "find_trade i (w_db w') = Some (f t)"
        using t w' by (simp_all add: put_db_def)
      show "\<And>j. j \<noteq> i \<Longrightarrow> find_trade j (w_db w') = find_trade j (w_db w)"
        using update_trades_other [OF u assms(3,4)] w' by (simp add: put_db_def)
      show "w_moves w' = w_moves w" "w_awards w' = w_awards w" using w' by (simp_all add: put_db_def)
      show "map trade_terms (pd_trades (w_db w')) = map trade_terms (pd_trades (w_db w))"
        using update_trades_terms [OF assms(4) u] w' by (simp add: put_db_def)
    qed
  next
    case False
    with Pair have "db = w_db w" by (intro update_trades_lost) simp
    with k' w' False show thesis by (intro lost) (simp_all add: put_db_def)
  qed
qed

lemma write_sectionE:
  assumes "write_section i f w = (r, w')" and "distinct (trade_ids (w_db w))" and "keeps_terms f"
  obtains (wrote) t where "r = Inr (f t)" "find_trade i (w_db w) = Some t" "find_trade i (w_db w') = Some (f t)"
      "\<And>j. j \<noteq> i \<Longrightarrow> find_trade j (w_db w') = find_trade j (w_db w)" "w_moves w' = w_moves w"
      "map trade_terms (pd_trades (w_db w')) = map trade_terms (pd_trades (w_db w))" "w_awards w' = w_awards w"
  | (missing) "r = Inl TradeNotFound" "w' = w" "find_trade i (w_db w) = None"
proof (cases "find_trade i (w_db w)")
  case None
  with assms(1) show thesis by (intro missing) (auto simp: write_section_def update_trade_def put_db_def)
next
  case (Some t)
  obtain b db where u: "update_trades (\<lambda>x. t_id x = i) f (w_db w) = (b, db)" by (cases "update_trades (\<lambda>x. t_id x = i) f (w_db w)")
  have r: "r = Inr (f t)" and w': "w' = put_db w db"
    using assms(1) Some u by (auto simp: write_section_def update_trade_def)
  have b: "b = True" using u find_trade_mem [OF Some] find_trade_id [OF Some] by (auto simp: update_trades_def)
  note u = u [unfolded b]
  from update_trades_won [OF u assms(2) _ assms(3), of i] Some
  have at: "find_trade i db = Some (f t)" by (auto elim: update_trades_won)
  show thesis
  proof (rule wrote [of t])
    show "r = Inr (f t)" "find_trade i (w_db w) = Some t" "find_trade i (w_db w') = Some (f t)"
      using r Some at w' by (simp_all add: put_db_def)
    show "\<And>j. j \<noteq> i \<Longrightarrow> find_trade j (w_db w') = find_trade j (w_db w)"
      using update_trades_other [OF u _ assms(3)] w' by (simp add: put_db_def)
    show "w_moves w' = w_moves w" "w_awards w' = w_awards w" using w' by (simp_all add: put_db_def)
    show "map trade_terms (pd_trades (w_db w')) = map trade_terms (pd_trades (w_db w))"
      using update_trades_terms [OF assms(3) u] w' by (simp add: put_db_def)
  qed
qed

lemma executor_requestD:
  assumes "executor_request cfg db tid act fw to amount chain token = Inr m"
  shows "m_trade m = tid" "m_action m = act" "m_chain m = chain" "m_token m = token"
    "act \<noteq> Lock \<Longrightarrow> m_to m = to_checksum_address cfg (the to)"
    "\<exists>d. dec_parse amount = Some d \<and> amount_raw d (token_decimals cfg token chain) = Inr (m_amount_raw m)"
  using assms unfolding executor_request_def
  by (auto simp: monad_simps split: option.splits action.splits if_splits)

lemma escrow_callE:
  assumes "escrow_call cfg io tid act fw to amount chain w = (r, w')"
  obtains (same) e where "r = Inl e" "w' = w"
  | (sent) m tx where "r = Inr tx" "io_outcome io = Sent tx" "w' = w\<lparr>w_moves := w_moves w @ [m]\<rparr>"
      "executor_request cfg (w_db w) tid act fw to amount (escrow_chain cfg chain) (p2p_escrow_token cfg) = Inr m"
  | (ambiguous) m e where "r = Inl (Raised e)" "io_outcome io = SentAmbiguous e" "w' = w\<lparr>w_moves := w_moves w @ [m]\<rparr>"
      "executor_request cfg (w_db w) tid act fw to amount (escrow_chain cfg chain) (p2p_escrow_token cfg) = Inr m"
  using assms unfolding escrow_call_def
  by (auto split: if_splits sum.splits outcome.splits)

subsection \<open>Interleavings\<close>

text \<open>
  A system is the world and the operations in flight.  \<open>admit\<close> says which operations may be
  started, \<open>outcomes\<close> what the chain may answer; a property states the weakest ones it needs.
\<close>

definition starts :: "pc \<Rightarrow> bool" where
  "starts k = (case k of RelGet _ _ \<Rightarrow> True | CanGet _ _ \<Rightarrow> True | DisGet _ _ _ \<Rightarrow> True | ResGet _ _ _ _ \<Rightarrow> True
     | MarkCas _ _ \<Rightarrow> True | LockGet _ _ \<Rightarrow> True | _ \<Rightarrow> False)"

type_synonym p2p_system = "world \<times> pc multiset"

inductive p2p_sys ::
  "(pc multiset \<Rightarrow> pc \<Rightarrow> bool) \<Rightarrow> (outcome \<Rightarrow> bool) \<Rightarrow> p2p_cfg \<Rightarrow> p2p_system \<Rightarrow> p2p_system \<Rightarrow> bool"
  for admit :: "pc multiset \<Rightarrow> pc \<Rightarrow> bool" and outcomes :: "outcome \<Rightarrow> bool" and cfg :: p2p_cfg where
  start: "starts k \<Longrightarrow> admit M k \<Longrightarrow> p2p_sys admit outcomes cfg (w, M) (w, add_mset k M)"
| run: "outcomes (io_outcome io) \<Longrightarrow> p2p_step cfg io k w = (k', w')
    \<Longrightarrow> p2p_sys admit outcomes cfg (w, add_mset k M) (w', add_mset k' M)"

inductive_cases p2p_sysE: "p2p_sys admit outcomes cfg (w, M) s'"

definition p2p_runs where
  "p2p_runs admit outcomes cfg = (p2p_sys admit outcomes cfg)\<^sup>*\<^sup>*"

lemma p2p_runs_invariant:
  assumes "p2p_runs admit outcomes cfg (w, M) (w', M')" and "I w M"
    and "\<And>w M k. I w M \<Longrightarrow> starts k \<Longrightarrow> admit M k \<Longrightarrow> I w (add_mset k M)"
    and "\<And>w M k io k' w'. I w (add_mset k M) \<Longrightarrow> outcomes (io_outcome io) \<Longrightarrow> p2p_step cfg io k w = (k', w')
           \<Longrightarrow> I w' (add_mset k' M)"
  shows "I w' M'"
proof -
  have "(p2p_sys admit outcomes cfg)\<^sup>*\<^sup>* (w, M) (w', M')" using assms(1) by (simp add: p2p_runs_def)
  then show ?thesis
  proof (induction rule: rtranclp_induct2)
    case refl
    show ?case by (rule assms(2))
  next
    case (step w1 M1 w2 M2)
    from step.hyps(2) step.IH assms(3,4) show ?case by (auto elim!: p2p_sys.cases)
  qed
qed

subsection \<open>Every move goes where the trade says\<close>

definition holds_payout :: "p2p_cfg \<Rightarrow> p2pdb \<Rightarrow> bool \<Rightarrow> P2PTrade \<Rightarrow> string \<Rightarrow> bool" where
  "holds_payout cfg db to_buyer t a = (trade_terms t \<in> trade_terms ` set (pd_trades db) \<and> native t
     \<and> norm_address cfg (if to_buyer then t_buyer_address t else t_seller_address t) = Some a)"

fun held_ok :: "p2p_cfg \<Rightarrow> p2pdb \<Rightarrow> pc \<Rightarrow> bool" where
  "held_ok cfg db (RelReserve t a) = holds_payout cfg db True t a"
| "held_ok cfg db (RelSend t a) = holds_payout cfg db True t a"
| "held_ok cfg db (CanReserve t a) = holds_payout cfg db False t a"
| "held_ok cfg db (CanSend t a) = holds_payout cfg db False t a"
| "held_ok cfg db (ResReserve t a resolution who note) = holds_payout cfg db (resolution = ''release'') t a"
| "held_ok cfg db (ResSend t a resolution who note) = holds_payout cfg db (resolution = ''release'') t a"
| "held_ok cfg db k = True"

definition pays :: "p2p_cfg \<Rightarrow> P2PTrade \<Rightarrow> move \<Rightarrow> bool" where
  "pays cfg t m =
     (t_id t = m_trade m \<and> native t
      \<and> map_option (to_checksum_address cfg)
            (norm_address cfg (if m_action m = Release then t_buyer_address t else t_seller_address t)) = Some (m_to m)
      \<and> m_chain m = escrow_chain cfg (t_crypto_chain t)
      \<and> (case dec_parse (t_crypto_amount t) of None \<Rightarrow> False
         | Some d \<Rightarrow> amount_raw d (token_decimals cfg (p2p_escrow_token cfg) (m_chain m)) = Inr (m_amount_raw m)))"

definition paid_as_recorded :: "p2p_cfg \<Rightarrow> p2pdb \<Rightarrow> move \<Rightarrow> bool" where
  "paid_as_recorded cfg db m = (m_action m = Lock \<or> (\<exists>t\<in>set (pd_trades db). pays cfg t m))"

lemma pays_terms: "trade_terms t = trade_terms u \<Longrightarrow> pays cfg t m = pays cfg u m"
  by (simp add: pays_def trade_terms_def native_def)

lemma held_ok_terms:
  assumes "map trade_terms (pd_trades db') = map trade_terms (pd_trades db)"
  shows "held_ok cfg db' k = held_ok cfg db k"
proof -
  have "trade_terms ` set (pd_trades db') = trade_terms ` set (pd_trades db)"
    using assms by (metis list.set_map)
  then show ?thesis by (cases k) (simp_all add: holds_payout_def)
qed

lemma paid_as_recorded_terms:
  assumes "map trade_terms (pd_trades db') = map trade_terms (pd_trades db)" and "paid_as_recorded cfg db m"
  shows "paid_as_recorded cfg db' m"
proof -
  have same: "trade_terms ` set (pd_trades db') = trade_terms ` set (pd_trades db)"
    using assms(1) by (metis list.set_map)
  have "\<exists>u\<in>set (pd_trades db'). pays cfg u m" if "t \<in> set (pd_trades db)" "pays cfg t m" for t
  proof -
    from that(1) have "trade_terms t \<in> trade_terms ` set (pd_trades db')" unfolding same by (rule imageI)
    then obtain u where "u \<in> set (pd_trades db')" "trade_terms t = trade_terms u" by (elim imageE)
    with that(2) pays_terms [of t u] show ?thesis by auto
  qed
  with assms(2) show ?thesis by (auto simp: paid_as_recorded_def)
qed

lemma resolve_payout_Inr:
  "resolve_payout cfg rec override = Inr a \<Longrightarrow> norm_address cfg rec = Some a"
  by (auto simp: resolve_payout_def Let_def truthy_def split: option.splits if_splits)

lemma get_trade_Inr: "get_trade i db = Inr t \<longleftrightarrow> find_trade i db = Some t"
  by (auto simp: get_trade_def split: option.splits)

lemma sent_paid_as_recorded:
  assumes "executor_request cfg db (t_id t) act None (Some a) (t_crypto_amount t)
       (escrow_chain cfg (t_crypto_chain t)) (p2p_escrow_token cfg) = Inr m" and "act \<noteq> Lock"
    and "holds_payout cfg db (act = Release) t a"
  shows "paid_as_recorded cfg db m"
proof -
  note e = executor_requestD [OF assms(1)]
  have native: "native t"
    and a: "norm_address cfg (if act = Release then t_buyer_address t else t_seller_address t) = Some a"
    and mem: "trade_terms t \<in> trade_terms ` set (pd_trades db)" using assms(3) by (simp_all add: holds_payout_def)
  from e(6) obtain d where "dec_parse (t_crypto_amount t) = Some d"
    "amount_raw d (token_decimals cfg (p2p_escrow_token cfg) (escrow_chain cfg (t_crypto_chain t))) = Inr (m_amount_raw m)"
    by (elim exE conjE)
  with native a e(1,2,3) e(5) [OF assms(2)] have p: "pays cfg t m" by (simp add: pays_def)
  from mem obtain u where "u \<in> set (pd_trades db)" "trade_terms t = trade_terms u" by (elim imageE)
  with p pays_terms [of t u] show ?thesis by (auto simp: paid_as_recorded_def)
qed

definition payouts_ok :: "p2p_cfg \<Rightarrow> world \<Rightarrow> bool" where
  "payouts_ok cfg w = (\<forall>m\<in>set (w_moves w). paid_as_recorded cfg (w_db w) m)"

text \<open>What a section may do to the terms of the trades and to the log of moves.\<close>

definition fine :: "p2p_cfg \<Rightarrow> world \<Rightarrow> pc \<Rightarrow> world \<Rightarrow> bool" where
  "fine cfg w k' w' = (map trade_terms (pd_trades (w_db w')) = map trade_terms (pd_trades (w_db w))
     \<and> held_ok cfg (w_db w') k' \<and> payouts_ok cfg w')"

lemma fine_quiet:
  assumes "payouts_ok cfg w" and "map trade_terms (pd_trades (w_db w')) = map trade_terms (pd_trades (w_db w))"
    and "w_moves w' = w_moves w" and "held_ok cfg (w_db w) k'"
  shows "fine cfg w k' w'"
  using assms paid_as_recorded_terms [OF assms(2)] held_ok_terms [OF assms(2)] by (simp add: fine_def payouts_ok_def)

lemma fine_cas:
  assumes "cas_section (update_trades P f) e k w = (k', w')" and "distinct (trade_ids (w_db w))"
    and "\<And>t. P t \<Longrightarrow> t_id t = i" and "keeps_terms f" and "held_ok cfg (w_db w) k" and "payouts_ok cfg w"
  shows "fine cfg w k' w'"
proof (rule cas_sectionE [OF assms(1-4)])
  fix t
  assume "k' = k" "w_moves w' = w_moves w"
    and "map trade_terms (pd_trades (w_db w')) = map trade_terms (pd_trades (w_db w))"
  with assms(5,6) show "fine cfg w k' w'" by (intro fine_quiet) simp_all
next
  assume "k' = Done (Inl e)" "w' = w"
  with assms(6) show "fine cfg w k' w'" by (intro fine_quiet) simp_all
qed assumption

lemma write_section_quiet:
  assumes "write_section i f w = (r, w')" and "distinct (trade_ids (w_db w))" and "keeps_terms f"
  shows "map trade_terms (pd_trades (w_db w')) = map trade_terms (pd_trades (w_db w))" and "w_moves w' = w_moves w"
  using assms by (cases rule: write_sectionE, simp_all)+

lemma fine_send:
  assumes "escrow_call cfg io (t_id t) act None (Some a) (t_crypto_amount t) (t_crypto_chain t) w = (r, w')"
    and "act \<noteq> Lock" and "holds_payout cfg (w_db w) (act = Release) t a" and "payouts_ok cfg w"
    and "held_ok cfg (w_db w) k'"
  shows "fine cfg w k' w'"
proof -
  have grown: "fine cfg w k' (w\<lparr>w_moves := w_moves w @ [m]\<rparr>)"
    if "executor_request cfg (w_db w) (t_id t) act None (Some a) (t_crypto_amount t)
      (escrow_chain cfg (t_crypto_chain t)) (p2p_escrow_token cfg) = Inr m" for m
    using sent_paid_as_recorded [OF that assms(2,3)] assms(4,5) by (simp add: fine_def payouts_ok_def)
  from assms(1) show ?thesis
  proof (cases rule: escrow_callE)
    case (same e)
    with assms(4,5) show ?thesis by (intro fine_quiet) simp_all
  qed (use grown in simp_all)
qed

lemma fine_lock:
  assumes "escrow_call cfg io tid Lock fw to amount chain w = (r, w')" and "payouts_ok cfg w"
    and "held_ok cfg (w_db w) k'"
  shows "fine cfg w k' w'"
  using assms(1)
proof (cases rule: escrow_callE)
  case (sent m tx)
  with assms(2,3) executor_requestD(2) [OF sent(4)] show ?thesis
    by (simp add: fine_def payouts_ok_def paid_as_recorded_def)
next
  case (ambiguous m e)
  with assms(2,3) executor_requestD(2) [OF ambiguous(4)] show ?thesis
    by (simp add: fine_def payouts_ok_def paid_as_recorded_def)
next
  case (same e)
  with assms(2,3) show ?thesis by (intro fine_quiet) simp_all
qed

lemma release_checks_ok:
  assumes "release_checks cfg i override db = Inr (t, a)"
  shows "find_trade i db = Some t" "native t" "truthy (t_escrow_lock_tx t)" "holds_payout cfg db True t a"
  using assms find_trade_mem [of i db t]
  by (auto simp: release_checks_def get_trade_Inr holds_payout_def monad_simps
      dest: resolve_payout_Inr split: if_splits)

lemma resolve_checks_ok:
  assumes "resolve_checks cfg i resolution db = Inr (t, a)"
  shows "find_trade i db = Some t" "native t" "t_status t = DISPUTED" "resolution \<in> {''release'', ''refund''}"
    "holds_payout cfg db (resolution = ''release'') t a"
  using assms find_trade_mem [of i db t]
  by (auto simp: resolve_checks_def get_trade_Inr holds_payout_def monad_simps
      dest: resolve_payout_Inr split: if_splits)

lemma cancel_checks_ok:
  assumes "cancel_checks cfg i override db = Inr k"
  obtains (reserve) t a where "k = CanReserve t a" "find_trade i db = Some t" "native t" "t_status t = ESCROW_LOCKED"
      "holds_payout cfg db False t a"
  | (plain) t where "k = CanWrite i" "find_trade i db = Some t" "native t \<longrightarrow> t_status t \<notin> {DISPUTED, RESOLVING, FIAT_SENT, ESCROW_LOCKED}"
  using assms find_trade_mem [of i db]
  by (auto simp: cancel_checks_def get_trade_Inr holds_payout_def monad_simps
      dest: resolve_payout_Inr split: if_splits)

lemmas cas_defs = reserve_for_release_def reserve_for_cancel_def reserve_for_dispute_def
  reserve_from_dispute_def cas_fiat_sent_def

lemmas send_defs = escrow_release_def escrow_refund_def escrow_lock_def

lemma fine_done: "payouts_ok cfg w \<Longrightarrow> fine cfg w (Done r) w"
  by (simp add: fine_def)

lemma fine_write:
  assumes "write_section i f w = (r, w1)" and "distinct (trade_ids (w_db w))" and "keeps_terms f" and "payouts_ok cfg w"
    and "w_db w' = w_db w1" and "w_moves w' = w_moves w1" and "held_ok cfg (w_db w) k'"
  shows "fine cfg w k' w'"
  using write_section_quiet [OF assms(1,2,3)] assms(4-7) by (intro fine_quiet) simp_all

lemma step_fine_release:
  assumes "release_step cfg io k w = (k', w')" and "distinct (trade_ids (w_db w))"
    and "held_ok cfg (w_db w) k" and "payouts_ok cfg w"
  shows "fine cfg w k' w'"
proof (cases k)
  case (RelGet i a)
  with assms show ?thesis
    by (auto simp: fine_done dest: release_checks_ok(4) intro!: fine_quiet split: sum.splits prod.splits)
next
  case (RelReserve t a)
  with assms show ?thesis
    by (auto simp: reserve_for_release_def intro!: fine_cas [where i = "t_id t"])
next
  case (RelSend t a)
  obtain r w1 where s: "escrow_call cfg io (t_id t) Release None (Some a) (t_crypto_amount t) (t_crypto_chain t) w = (r, w1)"
    by fastforce
  with assms(1) RelSend have "w' = w1" and "held_ok cfg (w_db w) k'" by (auto simp: send_defs split: sum.splits)
  with fine_send [OF s] assms(3,4) RelSend show ?thesis by simp
next
  case (RelRecord i tx)
  obtain r w1 where s: "write_section i (completed io tx) w = (r, w1)" by fastforce
  with assms(1) RelRecord show ?thesis
    by (intro fine_write [OF s assms(2) _ assms(4)]) (auto split: sum.splits)
qed (use assms in \<open>auto simp: fine_def\<close>)

lemma step_fine_cancel:
  assumes "cancel_step cfg io k w = (k', w')" and "distinct (trade_ids (w_db w))"
    and "held_ok cfg (w_db w) k" and "payouts_ok cfg w"
  shows "fine cfg w k' w'"
proof (cases k)
  case (CanGet i a)
  with assms show ?thesis
    by (auto simp: fine_done intro!: fine_quiet elim!: cancel_checks_ok split: sum.splits)
next
  case (CanReserve t a)
  with assms show ?thesis
    by (auto simp: reserve_for_cancel_def intro!: fine_cas [where i = "t_id t"])
next
  case (CanSend t a)
  obtain r w1 where s: "escrow_call cfg io (t_id t) Refund None (Some a) (t_crypto_amount t) (t_crypto_chain t) w = (r, w1)"
    by fastforce
  with assms(1) CanSend have "w' = w1" and "held_ok cfg (w_db w) k'" by (auto simp: send_defs split: sum.splits)
  with fine_send [OF s] assms(3,4) CanSend show ?thesis by simp
next
  case (CanWrite i)
  obtain r w1 where s: "write_section i (\<lambda>t. t\<lparr>t_status := CANCELLED\<rparr>) w = (r, w1)" by fastforce
  with assms(1) CanWrite show ?thesis
    by (intro fine_write [OF s assms(2) _ assms(4)]) auto
qed (use assms in \<open>auto simp: fine_def\<close>)

lemma step_fine_dispute:
  assumes "dispute_step cfg io k w = (k', w')" and "distinct (trade_ids (w_db w))"
    and "held_ok cfg (w_db w) k" and "payouts_ok cfg w"
  shows "fine cfg w k' w'"
proof (cases k)
  case (DisGet i a b)
  with assms show ?thesis by (auto simp: fine_done intro!: fine_quiet split: sum.splits)
next
  case (DisCount i a b)
  with assms show ?thesis by (auto simp: fine_done intro!: fine_quiet split: if_splits)
next
  case (DisReserve i a b)
  with assms show ?thesis
    by (auto simp: reserve_for_dispute_def intro!: fine_cas [where i = i])
next
  case (DisWrite i reason u)
  obtain r w1 where s: "write_section i (\<lambda>t. t\<lparr>t_dispute_reason := Some reason, t_disputed_at := Some (io_now io),
      t_disputed_by := Some u\<rparr>) w = (r, w1)" by fastforce
  with assms(1) DisWrite show ?thesis
    by (intro fine_write [OF s assms(2) _ assms(4)]) auto
qed (use assms in \<open>auto simp: fine_def\<close>)

lemma step_fine_resolve:
  assumes "resolve_step cfg io k w = (k', w')" and "distinct (trade_ids (w_db w))"
    and "held_ok cfg (w_db w) k" and "payouts_ok cfg w"
  shows "fine cfg w k' w'"
proof (cases k)
  case (ResGet i a b c)
  with assms show ?thesis
    by (auto simp: fine_done dest: resolve_checks_ok(5) intro!: fine_quiet split: sum.splits prod.splits)
next
  case (ResReserve t a res who nt)
  with assms show ?thesis
    by (auto simp: reserve_from_dispute_def intro!: fine_cas [where i = "t_id t"])
next
  case (ResSend t a res who nt)
  let ?act = "if res = ''release'' then Release else Refund"
  obtain r w1 where s: "escrow_call cfg io (t_id t) ?act None (Some a) (t_crypto_amount t) (t_crypto_chain t) w = (r, w1)"
    by fastforce
  with assms(1) ResSend have "w' = w1" and "held_ok cfg (w_db w) k'" by (auto simp: send_defs split: sum.splits if_splits)
  moreover have "?act \<noteq> Lock" and "holds_payout cfg (w_db w) (?act = Release) t a"
    using assms(3) ResSend by (cases "res = ''release''", simp_all)+
  ultimately show ?thesis using fine_send [OF s _ _ assms(4)] by simp
next
  case (ResRecord i tx res who nt now)
  obtain r w1 where s: "write_section i (resolved tx res who nt now) w = (r, w1)" by fastforce
  with assms(1) ResRecord show ?thesis
    by (intro fine_write [OF s assms(2) _ assms(4)]) (auto split: sum.splits if_splits)
next
  case (ResRevert i e)
  obtain r w1 where s: "write_section i (\<lambda>t. t\<lparr>t_status := DISPUTED\<rparr>) w = (r, w1)" by fastforce
  with assms(1) ResRevert show ?thesis
    by (intro fine_write [OF s assms(2) _ assms(4)]) (auto split: sum.splits if_splits)
qed (use assms in \<open>auto simp: fine_def\<close>)

lemma step_fine_mark:
  assumes "mark_step cfg io k w = (k', w')" and "distinct (trade_ids (w_db w))"
    and "held_ok cfg (w_db w) k" and "payouts_ok cfg w"
  shows "fine cfg w k' w'"
proof (cases k)
  case (MarkCas i a)
  with assms show ?thesis
    by (auto simp: cas_fiat_sent_def intro!: fine_cas [where i = i])
qed (use assms in \<open>auto simp: fine_def\<close>)

lemma step_fine_lock:
  assumes "lock_step cfg io k w = (k', w')" and "distinct (trade_ids (w_db w))"
    and "held_ok cfg (w_db w) k" and "payouts_ok cfg w"
  shows "fine cfg w k' w'"
proof (cases k)
  case (LockGet i a)
  with assms show ?thesis by (auto simp: fine_done intro!: fine_quiet split: sum.splits if_splits)
next
  case (LockWallet t a)
  with assms show ?thesis by (auto simp: fine_done intro!: fine_quiet split: sum.splits if_splits)
next
  case (LockSend t a)
  obtain r w1 where s: "escrow_call cfg io (t_id t) Lock (Some a) None (t_crypto_amount t) (t_crypto_chain t) w = (r, w1)"
    by fastforce
  with assms(1) LockSend have "w' = w1" and "held_ok cfg (w_db w) k'" by (auto simp: send_defs split: sum.splits)
  with fine_lock [OF s] assms(4) show ?thesis by simp
next
  case (LockRecord i tx)
  obtain r w1 where s: "write_section i (\<lambda>t. t\<lparr>t_status := ESCROW_LOCKED, t_escrow_lock_tx := Some tx\<rparr>) w = (r, w1)" by fastforce
  with assms(1) LockRecord show ?thesis
    by (intro fine_write [OF s assms(2) _ assms(4)]) auto
qed (use assms in \<open>auto simp: fine_def\<close>)

lemma step_fine:
  assumes "p2p_step cfg io k w = (k', w')" and "distinct (trade_ids (w_db w))"
    and "held_ok cfg (w_db w) k" and "payouts_ok cfg w"
  shows "fine cfg w k' w'"
proof -
  note ops = step_fine_release step_fine_cancel step_fine_dispute step_fine_resolve step_fine_mark step_fine_lock
  from assms(1) show ?thesis
    using assms(4) by (cases k) (auto intro: ops [OF _ assms(2,3,4)] simp: fine_done)
qed


text \<open>C34: Funds only go where the trade says.  However the operations interleave and whatever
  the chain answers, every release or refund pays the checksummed form of the buyer's or
  seller's address recorded when the trade was opened, on the trade's chain and for the
  trade's amount; no caller can redirect it.\<close>

theorem payouts_go_to_recorded_addresses:
  assumes "p2p_runs (\<lambda>_ _. True) (\<lambda>_. True) cfg (w, {#}) (w', M)"
    and "distinct (trade_ids (w_db w))" and "w_moves w = []" and "m \<in> set (w_moves w')"
  shows "paid_as_recorded cfg (w_db w') m"
proof -
  let ?I = "\<lambda>w M. distinct (trade_ids (w_db w)) \<and> payouts_ok cfg w \<and> (\<forall>k\<in>#M. held_ok cfg (w_db w) k)"
  have "?I w' M"
  proof (rule p2p_runs_invariant [OF assms(1)])
    show "?I w {#}" using assms(2,3) by (simp add: payouts_ok_def)
  next
    fix w :: world and M :: "pc multiset" and k
    assume "?I w M" "starts k"
    then show "?I w (add_mset k M)" by (auto simp: starts_def split: pc.splits)
  next
    fix w w' :: world and M :: "pc multiset" and k k' io
    assume i: "?I w (add_mset k M)" and s: "p2p_step cfg io k w = (k', w')"
    then have "fine cfg w k' w'" by (intro step_fine [OF s]) simp_all
    then have t: "map trade_terms (pd_trades (w_db w')) = map trade_terms (pd_trades (w_db w))"
      and "held_ok cfg (w_db w') k'" "payouts_ok cfg w'" by (simp_all add: fine_def)
    with i terms_ids [OF t] show "?I w' (add_mset k' M)" by (simp add: trade_ids_def held_ok_terms [OF t])
  qed
  with assms(4) show ?thesis by (simp add: payouts_ok_def)
qed

subsection \<open>At most one settlement\<close>

definition settlements :: "int \<Rightarrow> world \<Rightarrow> nat" where
  "settlements i w = length (filter (\<lambda>m. m_trade m = i \<and> m_action m \<noteq> Lock) (w_moves w))"

text \<open>Operations that have claimed the trade and not yet moved funds; that have moved them and
  not yet recorded it; that belong to a release or a lock of the trade.\<close>

definition claiming :: "int \<Rightarrow> pc \<Rightarrow> bool" where
  "claiming i k = (case k of RelSend t _ \<Rightarrow> t_id t = i | CanSend t _ \<Rightarrow> t_id t = i
     | ResSend t _ _ _ _ \<Rightarrow> t_id t = i | ResRevert j _ \<Rightarrow> j = i | _ \<Rightarrow> False)"

definition recording :: "int \<Rightarrow> pc \<Rightarrow> bool" where
  "recording i k = (case k of RelRecord j _ \<Rightarrow> j = i | ResRecord j _ _ _ _ _ \<Rightarrow> j = i | _ \<Rightarrow> False)"

definition releasing :: "int \<Rightarrow> pc \<Rightarrow> bool" where
  "releasing i k = (case k of RelGet j _ \<Rightarrow> j = i | RelReserve t _ \<Rightarrow> t_id t = i | RelSend t _ \<Rightarrow> t_id t = i
     | RelRecord j _ \<Rightarrow> j = i | _ \<Rightarrow> False)"

definition locking :: "int \<Rightarrow> pc \<Rightarrow> bool" where
  "locking i k = (case k of LockGet j _ \<Rightarrow> j = i | LockWallet t _ \<Rightarrow> t_id t = i | LockSend t _ \<Rightarrow> t_id t = i
     | LockRecord j _ \<Rightarrow> j = i | _ \<Rightarrow> False)"

definition cnt :: "(pc \<Rightarrow> bool) \<Rightarrow> pc multiset \<Rightarrow> nat" where
  "cnt P M = size (filter_mset P M)"

lemma cnt_simps [simp]:
  "cnt P {#} = 0"
  "cnt P (add_mset k M) = (if P k then Suc (cnt P M) else cnt P M)"
  by (simp_all add: cnt_def)

lemma cnt_mono: "(\<And>k. P k \<Longrightarrow> Q k) \<Longrightarrow> cnt P M \<le> cnt Q M"
  by (induction M) (auto)

definition open_states :: "P2PTradeStatus set" where
  "open_states = {INITIATED, ESCROW_LOCKED, FIAT_PENDING, FIAT_SENT, DISPUTED}"

text \<open>The claim invariant of one trade: an open trade has no claim and no settlement, a trade
  reserved for release is claimed by its release alone.\<close>

definition claim_ok ::
  "nat \<Rightarrow> nat \<Rightarrow> nat \<Rightarrow> nat \<Rightarrow> nat \<Rightarrow> nat \<Rightarrow> nat \<Rightarrow> P2PTrade option \<Rightarrow> bool" where
  "claim_ok n claims foreign records own releases locks row =
     (n + claims \<le> 1 \<and> records \<le> n \<and> releases \<le> 1 \<and> locks = 0
      \<and> (\<forall>t. row = Some t \<longrightarrow>
            (t_status t \<in> open_states \<longrightarrow> n = 0 \<and> claims = 0)
            \<and> (t_status t = RELEASED \<and> t_escrow_release_tx t = None \<longrightarrow> foreign = 0 \<and> (n = 0 \<or> 0 < own))))"

definition claim_inv :: "int \<Rightarrow> world \<Rightarrow> pc multiset \<Rightarrow> bool" where
  "claim_inv i w M =
     claim_ok (settlements i w) (cnt (claiming i) M) (cnt (\<lambda>k. claiming i k \<and> \<not> releasing i k) M)
       (cnt (recording i) M) (cnt (\<lambda>k. recording i k \<and> releasing i k) M) (cnt (releasing i) M)
       (cnt (locking i) M) (find_trade i (w_db w))"

definition definite :: "outcome \<Rightarrow> bool" where
  "definite x = (case x of SentAmbiguous _ \<Rightarrow> False | _ \<Rightarrow> True)"

text \<open>One release of the trade at a time, and no further lock of it.\<close>

definition serial :: "int \<Rightarrow> pc multiset \<Rightarrow> pc \<Rightarrow> bool" where
  "serial i M k = (\<not> locking i k \<and> (releasing i k \<longrightarrow> cnt (releasing i) M = 0))"

lemmas roles = claiming_def recording_def releasing_def locking_def

lemma settlements_same: "w_moves w' = w_moves w \<Longrightarrow> settlements i w' = settlements i w"
  by (simp add: settlements_def)

lemma settlements_snoc:
  "settlements i (w\<lparr>w_moves := w_moves w @ [m]\<rparr>) =
     settlements i w + (if m_trade m = i \<and> m_action m \<noteq> Lock then 1 else 0)"
  by (simp add: settlements_def)

lemma claim_inv_start:
  assumes "claim_inv i w M" and "starts k" and "serial i M k"
  shows "claim_inv i w (add_mset k M)"
proof -
  have r: "claiming i k = False" "recording i k = False"
    using assms(2) by (cases k; simp add: roles starts_def)+
  have l: "locking i k = False" and "releasing i k \<longrightarrow> cnt (releasing i) M = 0"
    using assms(3) by (simp_all add: serial_def)
  with assms(1) r show ?thesis by (auto simp: claim_inv_def claim_ok_def)
qed

lemma send_definite:
  assumes "escrow_call cfg io tid act fw to amount chain w = (r, w')" and "definite (io_outcome io)" and "act \<noteq> Lock"
  obtains (failed) e where "r = Inl e" "w' = w"
  | (moved) tx where "r = Inr tx" "w_db w' = w_db w"
      "\<And>i. settlements i w' = settlements i w + (if tid = i then 1 else 0)"
  using assms(1)
proof (cases rule: escrow_callE)
  case (same e)
  then show thesis by (intro failed)
next
  case (sent m tx)
  with assms(3) executor_requestD(1,2) [OF sent(4)] show thesis by (intro moved [of tx]) (simp_all add: settlements_snoc)
next
  case (ambiguous m e)
  with assms(2) show thesis by (simp add: definite_def)
qed


lemma cnt_split: "cnt P M = cnt (\<lambda>k. P k \<and> Q k) M + cnt (\<lambda>k. P k \<and> \<not> Q k) M"
  by (induction M) auto

lemma cnt_swap: "(P k' \<longrightarrow> P k) \<Longrightarrow> cnt P (add_mset k' M) \<le> cnt P (add_mset k M)"
  by simp

lemma claim_ok_mono:
  assumes "claim_ok n c d r rr g l row" and "c' \<le> c" "d' \<le> d" "r' \<le> r" "rr \<le> rr'" "g' \<le> g" "l' \<le> l"
  shows "claim_ok n c' d' r' rr' g' l' row"
  using assms by (auto simp: claim_ok_def)

text \<open>A section that leaves the row and the log alone, and gives up roles at most.\<close>

lemma claim_frame:
  assumes "claim_inv i w (add_mset k M)" and "settlements i w' = settlements i w"
    and "find_trade i (w_db w') = find_trade i (w_db w)"
    and "claiming i k' \<longrightarrow> claiming i k" and "recording i k' = recording i k"
    and "releasing i k' \<longrightarrow> releasing i k" and "locking i k' \<longrightarrow> locking i k"
    and "claiming i k' \<and> \<not> releasing i k' \<longrightarrow> claiming i k \<and> \<not> releasing i k"
    and "recording i k \<longrightarrow> releasing i k' = releasing i k"
  shows "claim_inv i w' (add_mset k' M)"
  unfolding claim_inv_def assms(2,3)
  by (rule claim_ok_mono [OF assms(1) [unfolded claim_inv_def]]; rule cnt_swap; use assms(4-9) in blast)

lemma frame_done:
  assumes "claim_inv i w (add_mset k M)" and "w_moves w' = w_moves w"
    and "find_trade i (w_db w') = find_trade i (w_db w)" and "\<not> recording i k"
  shows "claim_inv i w' (add_mset (Done r) M)"
  by (rule claim_frame [OF assms(1) settlements_same [OF assms(2)] assms(3)]) (use assms(4) in \<open>simp_all add: roles\<close>)

text \<open>A guarded update: it is lost, or it is won on a row of the trade.\<close>

lemma claim_cas:
  assumes "cas_section (update_trades P f) e kn w = (k', w')" and "distinct (trade_ids (w_db w))"
    and "\<And>t. P t \<Longrightarrow> t_id t = j" and "keeps_terms f" and "claim_inv i w (add_mset k M)" and "\<not> recording i k"
    and other: "i \<noteq> j \<Longrightarrow> claim_inv i w (add_mset kn M)"
    and won: "\<And>t w'. j = i \<Longrightarrow> find_trade i (w_db w) = Some t \<Longrightarrow> P t \<Longrightarrow> find_trade i (w_db w') = Some (f t)
           \<Longrightarrow> settlements i w' = settlements i w \<Longrightarrow> claim_inv i w' (add_mset kn M)"
  shows "claim_inv i w' (add_mset k' M)"
proof (rule cas_sectionE [OF assms(1-4)])
  fix t
  assume a: "k' = kn" "find_trade j (w_db w) = Some t" "P t" "find_trade j (w_db w') = Some (f t)"
    "\<And>j'. j' \<noteq> j \<Longrightarrow> find_trade j' (w_db w') = find_trade j' (w_db w)" "w_moves w' = w_moves w"
  have s: "settlements i w' = settlements i w" by (rule settlements_same [OF a(6)])
  show ?thesis
  proof (cases "i = j")
    case True
    have "find_trade i (w_db w) = Some t" "find_trade i (w_db w') = Some (f t)" using a(2,4) True by simp_all
    from won [OF True [symmetric] this(1) a(3) this(2) s] show ?thesis unfolding a(1) .
  next
    case False
    show ?thesis unfolding a(1) by (rule claim_frame [OF other [OF False] s a(5) [OF False]]) simp_all
  qed
next
  assume "k' = Done (Inl e)" "w' = w"
  with frame_done [OF assms(5) refl refl assms(6)] show ?thesis by simp
qed assumption

lemma claim_write:
  assumes "write_section j f w = (r, w1)" and "distinct (trade_ids (w_db w))" and "keeps_terms f"
    and "w_db w' = w_db w1" and "w_moves w' = w_moves w1"
    and "i \<noteq> j \<or> find_trade i (w_db w) = None \<Longrightarrow> claim_inv i w (add_mset k' M)"
    and "\<And>t. j = i \<Longrightarrow> find_trade i (w_db w) = Some t \<Longrightarrow> find_trade i (w_db w') = Some (f t)
           \<Longrightarrow> settlements i w' = settlements i w \<Longrightarrow> claim_inv i w' (add_mset k' M)"
  shows "claim_inv i w' (add_mset k' M)"
proof (rule write_sectionE [OF assms(1-3)])
  fix t
  assume a: "find_trade j (w_db w) = Some t" "find_trade j (w_db w1) = Some (f t)"
    "\<And>j'. j' \<noteq> j \<Longrightarrow> find_trade j' (w_db w1) = find_trade j' (w_db w)" "w_moves w1 = w_moves w"
  have s: "settlements i w' = settlements i w" by (simp only: settlements_def assms(5) a(4))
  show ?thesis
  proof (cases "i = j")
    case True
    have "find_trade i (w_db w) = Some t" "find_trade i (w_db w') = Some (f t)" using a(1,2) True assms(4) by simp_all
    from assms(7) [OF True [symmetric] this s] show ?thesis .
  next
    case False
    have f: "find_trade i (w_db w') = find_trade i (w_db w)" using a(3) [OF False] assms(4) by simp
    have "claim_inv i w (add_mset k' M)" using False by (intro assms(6)) simp
    from claim_frame [OF this s f] show ?thesis by simp
  qed
next
  assume a: "w1 = w" "find_trade j (w_db w) = None"
  have f: "find_trade i (w_db w') = find_trade i (w_db w)" and s: "settlements i w' = settlements i w"
    by (simp_all only: settlements_def assms(4,5) a(1))
  have "claim_inv i w (add_mset k' M)" using a(2) by (intro assms(6)) auto
  from claim_frame [OF this s f] show ?thesis by simp
qed

lemma claim_inv_row:
  assumes "claim_inv i w (add_mset k M)" and "find_trade i (w_db w) = Some t" and "settlements i w' = settlements i w"
    and "find_trade i (w_db w') = Some t'"
    and "claim_ok (settlements i w) (cnt (claiming i) (add_mset k M)) (cnt (\<lambda>k. claiming i k \<and> \<not> releasing i k) (add_mset k M))
       (cnt (recording i) (add_mset k M)) (cnt (\<lambda>k. recording i k \<and> releasing i k) (add_mset k M))
       (cnt (releasing i) (add_mset k M)) (cnt (locking i) (add_mset k M)) (Some t)
     \<Longrightarrow> claim_ok (settlements i w) (cnt (claiming i) (add_mset k' M)) (cnt (\<lambda>k. claiming i k \<and> \<not> releasing i k) (add_mset k' M))
       (cnt (recording i) (add_mset k' M)) (cnt (\<lambda>k. recording i k \<and> releasing i k) (add_mset k' M))
       (cnt (releasing i) (add_mset k' M)) (cnt (locking i) (add_mset k' M)) (Some t')"
  shows "claim_inv i w' (add_mset k' M)"
  using assms(1,5) unfolding claim_inv_def assms(2,3,4) by blast

lemma not_locking: "claim_inv i w (add_mset k M) \<Longrightarrow> locking i k = False"
  by (auto simp: claim_inv_def claim_ok_def split: if_splits)

lemma roles_Done [simp]:
  "\<not> claiming i (Done r)" "\<not> recording i (Done r)" "\<not> releasing i (Done r)" "\<not> locking i (Done r)"
  by (simp_all add: roles)

lemma settlements_db [simp]: "settlements i (w\<lparr>w_awards := a\<rparr>) = settlements i w"
  by (simp add: settlements_def)

lemma release_claims_all:
  assumes "claim_inv i w (add_mset k M)" and "releasing i k"
  shows "cnt (\<lambda>k. claiming i k \<and> releasing i k) M = 0" and "cnt (\<lambda>k. recording i k \<and> releasing i k) M = 0"
proof -
  have "cnt (releasing i) M = 0" using assms by (simp add: claim_inv_def claim_ok_def)
  moreover have "cnt (\<lambda>k. claiming i k \<and> releasing i k) M \<le> cnt (releasing i) M"
    "cnt (\<lambda>k. recording i k \<and> releasing i k) M \<le> cnt (releasing i) M" by (rule cnt_mono; simp)+
  ultimately show "cnt (\<lambda>k. claiming i k \<and> releasing i k) M = 0"
    and "cnt (\<lambda>k. recording i k \<and> releasing i k) M = 0" by simp_all
qed

text \<open>A reservation for release of an unclaimed trade.\<close>

lemma claim_reserve_release:
  assumes "claim_inv i w (add_mset (RelReserve u a) M)" and "t_id u = i" and "find_trade i (w_db w) = Some t"
    and "t_escrow_release_tx t = None" and "t_status t \<in> {ESCROW_LOCKED, FIAT_SENT, RELEASED}"
    and "find_trade i (w_db w') = Some (t\<lparr>t_status := RELEASED\<rparr>)" and "settlements i w' = settlements i w"
  shows "claim_inv i w' (add_mset (RelSend u a) M)"
proof -
  have r: "releasing i (RelReserve u a)" using assms(2) by (simp add: roles)
  note none = release_claims_all [OF assms(1) r]
  have k: "\<not> claiming i (RelReserve u a)" "\<not> recording i (RelReserve u a)" "\<not> locking i (RelReserve u a)"
    by (simp_all add: roles not_locking [OF assms(1)])
  have k': "claiming i (RelSend u a)" "\<not> recording i (RelSend u a)" "releasing i (RelSend u a)"
    "\<not> locking i (RelSend u a)" using assms(2) by (simp_all add: roles)
  have "settlements i w = 0 \<and> cnt (claiming i) M = 0"
    using assms(1,3,4,5) none k r cnt_split [of "claiming i" M "releasing i"]
    by (auto simp: claim_inv_def claim_ok_def open_states_def)
  then show ?thesis
    using assms(1) none r k k' unfolding claim_inv_def assms(3,6,7)
    using cnt_split [of "claiming i" M "releasing i"] by (simp add: claim_ok_def open_states_def)
qed

text \<open>A reservation from an open state by an operation that is not a release.\<close>

lemma claim_reserve_open:
  assumes "claim_inv i w (add_mset k M)" and "\<not> claiming i k" "\<not> recording i k" "\<not> releasing i k"
    and "find_trade i (w_db w) = Some t" and "t_status t \<in> open_states"
    and "find_trade i (w_db w') = Some t'" and "t_status t' \<notin> open_states" "t_status t' \<noteq> RELEASED"
    and "settlements i w' = settlements i w" and "\<not> recording i k'" "\<not> releasing i k'" "\<not> locking i k'"
  shows "claim_inv i w' (add_mset k' M)"
  using assms(1-4,6,8,9,11-13) not_locking [OF assms(1)]
  unfolding claim_inv_def assms(5,7,10) by (auto simp: claim_ok_def)

text \<open>A change of the row by an operation without a claim, within the open states or to a
  status that no reservation accepts.\<close>

lemma claim_plain_write:
  assumes "claim_inv i w (add_mset k M)" and "\<not> claiming i k" "\<not> recording i k"
    and "find_trade i (w_db w) = Some t" and "find_trade i (w_db w') = Some t'"
    and "t_status t' \<in> open_states \<longrightarrow> t_status t \<in> open_states"
    and "t_status t' = RELEASED \<longrightarrow> t_status t = RELEASED \<and> t_escrow_release_tx t' = t_escrow_release_tx t"
    and "settlements i w' = settlements i w"
    and "\<not> claiming i k'" "\<not> recording i k'" "\<not> releasing i k'" "\<not> locking i k'"
  shows "claim_inv i w' (add_mset k' M)"
  using assms(1-3,6,7,9-12) not_locking [OF assms(1)]
  unfolding claim_inv_def assms(4,5,8) by (auto simp: claim_ok_def split: if_splits)

lemma claim_record:
  assumes "claim_inv i w (add_mset k M)" and "recording i k"
    and "find_trade i (w_db w) = Some t" and "find_trade i (w_db w') = Some t'"
    and "t_status t' \<in> {COMPLETED, CANCELLED}" and "settlements i w' = settlements i w"
  shows "claim_inv i w' (add_mset (Done r) M)"
proof -
  have "\<not> claiming i k" using assms(2) by (cases k; simp add: roles)
  moreover have "t_status t' \<notin> open_states" "t_status t' \<noteq> RELEASED"
    using assms(5) by (auto simp: open_states_def)
  ultimately show ?thesis
    using assms(1,2) not_locking [OF assms(1)] unfolding claim_inv_def assms(3,4,6)
    by (simp add: claim_ok_def split: if_splits)
qed

lemma claim_lost_record:
  assumes "claim_inv i w (add_mset k M)" and "find_trade i (w_db w) = None"
  shows "claim_inv i w (add_mset (Done r) M)"
  using assms by (auto simp: claim_inv_def claim_ok_def split: if_splits)

text \<open>The claim becomes a settlement.\<close>

lemma claim_settle:
  assumes "claim_inv i w (add_mset k M)" and "claiming i k" and "w_db w' = w_db w"
    and "settlements i w' = settlements i w + 1"
    and "\<not> claiming i k'" "\<not> locking i k'" "releasing i k' \<longrightarrow> releasing i k"
    and "releasing i k \<longrightarrow> recording i k' \<and> releasing i k'"
  shows "claim_inv i w' (add_mset k' M)"
proof -
  have "\<not> recording i k" using assms(2) by (cases k; simp add: roles)
  with assms(1,2,5-8) not_locking [OF assms(1)] show ?thesis
    unfolding claim_inv_def assms(3,4) by (auto simp: claim_ok_def split: if_splits)
qed

lemma claim_idle_to_done:
  assumes "claim_inv i w (add_mset k M)" and "\<not> recording i k"
  shows "claim_inv i w (add_mset (Done r) M)"
  by (rule frame_done [OF assms(1) refl refl assms(2)])

lemma claim_step_release:
  assumes "release_step cfg io k w = (k', w')" and "distinct (trade_ids (w_db w))" and "definite (io_outcome io)"
    and inv: "claim_inv i w (add_mset k M)"
  shows "claim_inv i w' (add_mset k' M)"
proof (cases k)
  case (RelGet j a)
  show ?thesis
  proof (cases "release_checks cfg j a (w_db w)")
    case (Inl e)
    with assms(1) RelGet claim_idle_to_done [OF inv] show ?thesis by (auto simp: roles)
  next
    case (Inr ta)
    obtain t b where "ta = (t, b)" by fastforce
    with assms(1) RelGet Inr have e: "k' = RelReserve t b" "w' = w" by auto
    have "t_id t = j" using Inr \<open>ta = (t, b)\<close> by (auto dest: release_checks_ok(1) find_trade_id)
    with e show ?thesis unfolding e(2)
      by (intro claim_frame [OF inv]) (use RelGet in \<open>simp_all add: roles\<close>)
  qed
next
  case (RelReserve t a)
  show ?thesis
  proof (rule claim_cas [OF assms(1) [unfolded RelReserve release_step.simps reserve_for_release_def] assms(2) _ _ inv])
    show "\<not> recording i k" using RelReserve by (simp add: roles)
    show "claim_inv i w (add_mset (RelSend t a) M)" if "i \<noteq> t_id t"
      by (rule claim_frame [OF inv]) (use that RelReserve in \<open>simp_all add: roles\<close>)
  next
    fix u and w2 :: world
    assume "t_id t = i" "find_trade i (w_db w) = Some u" "settlements i w2 = settlements i w"
      and "t_id u = t_id t \<and> native u \<and> t_escrow_lock_tx u \<noteq> None \<and> t_escrow_release_tx u = None
        \<and> t_status u \<in> {ESCROW_LOCKED, FIAT_SENT, RELEASED}"
      and "find_trade i (w_db w2) = Some (u\<lparr>t_status := RELEASED\<rparr>)"
    then show "claim_inv i w2 (add_mset (RelSend t a) M)"
      using claim_reserve_release [OF inv [unfolded RelReserve], of u w2] by simp
  qed simp_all
next
  case (RelSend t a)
  obtain r w1 where s: "escrow_call cfg io (t_id t) Release None (Some a) (t_crypto_amount t) (t_crypto_chain t) w = (r, w1)"
    by fastforce
  show ?thesis
  proof (rule send_definite [OF s assms(3)])
    fix e
    assume "r = Inl e" "w1 = w"
    with s assms(1) RelSend have "k' = Done (Inl e)" "w' = w" by (auto simp: send_defs)
    with claim_idle_to_done [OF inv] RelSend show ?thesis by (simp add: roles)
  next
    fix tx
    assume a: "r = Inr tx" "w_db w1 = w_db w"
      and n: "\<And>i. settlements i w1 = settlements i w + (if t_id t = i then 1 else 0)"
    with s assms(1) RelSend have k': "k' = RelRecord (t_id t) tx" "w' = w1" by (auto simp: send_defs)
    show ?thesis
    proof (cases "t_id t = i")
      case True
      show ?thesis unfolding k'
        by (rule claim_settle [OF inv]) (use True a n RelSend in \<open>simp_all add: roles\<close>)
    next
      case False
      show ?thesis unfolding k'
        by (rule claim_frame [OF inv]) (use False a n RelSend in \<open>simp_all add: roles\<close>)
    qed
  qed simp
next
  case (RelRecord j tx)
  obtain r w1 where s: "write_section j (completed io tx) w = (r, w1)" by fastforce
  with assms(1) RelRecord obtain r' where k': "k' = Done r'" "w_db w' = w_db w1" "w_moves w' = w_moves w1"
    by (auto split: sum.splits)
  show ?thesis unfolding k'(1)
  proof (rule claim_write [OF s assms(2) _ k'(2,3)])
    show "claim_inv i w (add_mset (Done r') M)" if "i \<noteq> j \<or> find_trade i (w_db w) = None"
    proof (cases "i = j")
      case True
      with that claim_lost_record [OF inv] show ?thesis by simp
    next
      case False
      with claim_idle_to_done [OF inv] RelRecord show ?thesis by (simp add: roles)
    qed
  next
    fix t
    assume "j = i" "find_trade i (w_db w) = Some t" "find_trade i (w_db w') = Some (completed io tx t)"
      "settlements i w' = settlements i w"
    with RelRecord show "claim_inv i w' (add_mset (Done r') M)"
      by (intro claim_record [OF inv, of t _ "completed io tx t"]) (simp_all add: roles completed_def)
  qed simp
qed (use assms in auto)


lemma claim_step_cancel:
  assumes "cancel_step cfg io k w = (k', w')" and "distinct (trade_ids (w_db w))" and "definite (io_outcome io)"
    and inv: "claim_inv i w (add_mset k M)"
  shows "claim_inv i w' (add_mset k' M)"
proof (cases k)
  case (CanGet j a)
  show ?thesis
  proof (cases "cancel_checks cfg j a (w_db w)")
    case (Inl e)
    with assms(1) CanGet claim_idle_to_done [OF inv] show ?thesis by (auto simp: roles)
  next
    case (Inr kn)
    with assms(1) CanGet have e: "k' = kn" "w' = w" by auto
    have "\<not> claiming i kn \<and> \<not> recording i kn \<and> \<not> releasing i kn \<and> \<not> locking i kn"
      using Inr by (cases rule: cancel_checks_ok) (simp_all add: roles)
    then show ?thesis unfolding e
      by (intro claim_frame [OF inv]) (use CanGet in \<open>simp_all add: roles\<close>)
  qed
next
  case (CanReserve t a)
  show ?thesis
  proof (rule claim_cas [OF assms(1) [unfolded CanReserve cancel_step.simps reserve_for_cancel_def] assms(2) _ _ inv])
    show "\<not> recording i k" using CanReserve by (simp add: roles)
    show "claim_inv i w (add_mset (CanSend t a) M)" if "i \<noteq> t_id t"
      by (rule claim_frame [OF inv]) (use that CanReserve in \<open>simp_all add: roles\<close>)
  next
    fix u and w2 :: world
    assume "t_id t = i" "find_trade i (w_db w) = Some u" "settlements i w2 = settlements i w"
      and "t_id u = t_id t \<and> native u \<and> t_status u = ESCROW_LOCKED"
      and "find_trade i (w_db w2) = Some (u\<lparr>t_status := CANCELLED\<rparr>)"
    then show "claim_inv i w2 (add_mset (CanSend t a) M)"
      by (intro claim_reserve_open [OF inv, of u _ "u\<lparr>t_status := CANCELLED\<rparr>"])
        (simp_all add: CanReserve roles open_states_def)
  qed simp_all
next
  case (CanSend t a)
  obtain r w1 where s: "escrow_call cfg io (t_id t) Refund None (Some a) (t_crypto_amount t) (t_crypto_chain t) w = (r, w1)"
    by fastforce
  show ?thesis
  proof (rule send_definite [OF s assms(3)])
    fix e
    assume "r = Inl e" "w1 = w"
    with s assms(1) CanSend have "k' = Done (Inl e)" "w' = w" by (auto simp: send_defs)
    with claim_idle_to_done [OF inv] CanSend show ?thesis by (simp add: roles)
  next
    fix tx
    assume a: "r = Inr tx" "w_db w1 = w_db w"
      and n: "\<And>i. settlements i w1 = settlements i w + (if t_id t = i then 1 else 0)"
    with s assms(1) CanSend have k': "k' = CanReread (t_id t)" "w' = w1" by (auto simp: send_defs)
    show ?thesis
    proof (cases "t_id t = i")
      case True
      show ?thesis unfolding k'
        by (rule claim_settle [OF inv]) (use True a n CanSend in \<open>simp_all add: roles\<close>)
    next
      case False
      show ?thesis unfolding k'
        by (rule claim_frame [OF inv]) (use False a n CanSend in \<open>simp_all add: roles\<close>)
    qed
  qed simp
next
  case (CanReread j)
  with assms(1) claim_idle_to_done [OF inv] show ?thesis by (auto simp: roles)
next
  case (CanWrite j)
  obtain r w1 where s: "write_section j (\<lambda>t. t\<lparr>t_status := CANCELLED\<rparr>) w = (r, w1)" by fastforce
  with assms(1) CanWrite have k': "k' = Done r" "w' = w1" by auto
  show ?thesis unfolding k'
  proof (rule claim_write [OF s assms(2) _ refl refl])
    show "claim_inv i w (add_mset (Done r) M)" using claim_idle_to_done [OF inv] CanWrite by (simp add: roles)
  next
    fix t
    assume "j = i" "find_trade i (w_db w) = Some t" "find_trade i (w_db w1) = Some (t\<lparr>t_status := CANCELLED\<rparr>)"
      "settlements i w1 = settlements i w"
    then show "claim_inv i w1 (add_mset (Done r) M)"
      by (intro claim_plain_write [OF inv, of t _ "t\<lparr>t_status := CANCELLED\<rparr>"])
        (simp_all add: CanWrite roles open_states_def)
  qed simp
qed (use assms in auto)

lemma claim_step_dispute:
  assumes "dispute_step cfg io k w = (k', w')" and "distinct (trade_ids (w_db w))"
    and inv: "claim_inv i w (add_mset k M)"
  shows "claim_inv i w' (add_mset k' M)"
proof (cases k)
  case (DisGet j a b)
  have "w' = w" and "\<not> claiming i k' \<and> \<not> recording i k' \<and> \<not> releasing i k' \<and> \<not> locking i k'"
    using assms(1) DisGet by (auto simp: roles split: sum.splits)
  then show ?thesis by (intro claim_frame [OF inv]) (use DisGet in \<open>simp_all add: roles\<close>)
next
  case (DisCount j a b)
  have "w' = w" and "\<not> claiming i k' \<and> \<not> recording i k' \<and> \<not> releasing i k' \<and> \<not> locking i k'"
    using assms(1) DisCount by (auto simp: roles split: if_splits)
  then show ?thesis by (intro claim_frame [OF inv]) (use DisCount in \<open>simp_all add: roles\<close>)
next
  case (DisReserve j reason u)
  show ?thesis
  proof (rule claim_cas [OF assms(1) [unfolded DisReserve dispute_step.simps reserve_for_dispute_def] assms(2) _ _ inv])
    show "\<not> recording i k" using DisReserve by (simp add: roles)
    show "claim_inv i w (add_mset (DisWrite j reason u) M)"
      by (rule claim_frame [OF inv]) (use DisReserve in \<open>simp_all add: roles\<close>)
  next
    fix t and w2 :: world
    assume "j = i" "find_trade i (w_db w) = Some t" "settlements i w2 = settlements i w"
      and "t_id t = j \<and> native t \<and> t_escrow_lock_tx t \<noteq> None \<and> t_escrow_release_tx t = None
        \<and> t_status t \<in> {ESCROW_LOCKED, FIAT_SENT}"
      and "find_trade i (w_db w2) = Some (t\<lparr>t_status := DISPUTED\<rparr>)"
    then show "claim_inv i w2 (add_mset (DisWrite j reason u) M)"
      by (intro claim_plain_write [OF inv, of t _ "t\<lparr>t_status := DISPUTED\<rparr>"])
        (auto simp: DisReserve roles open_states_def)
  qed simp_all
next
  case (DisWrite j reason u)
  let ?f = "\<lambda>t. t\<lparr>t_dispute_reason := Some reason, t_disputed_at := Some (io_now io), t_disputed_by := Some u\<rparr>"
  obtain r w1 where s: "write_section j ?f w = (r, w1)" by fastforce
  with assms(1) DisWrite have k': "k' = Done r" "w' = w1" by auto
  show ?thesis unfolding k'
  proof (rule claim_write [OF s assms(2) _ refl refl])
    show "claim_inv i w (add_mset (Done r) M)" using claim_idle_to_done [OF inv] DisWrite by (simp add: roles)
  next
    fix t
    assume "j = i" "find_trade i (w_db w) = Some t" "find_trade i (w_db w1) = Some (?f t)"
      "settlements i w1 = settlements i w"
    then show "claim_inv i w1 (add_mset (Done r) M)"
      by (intro claim_plain_write [OF inv, of t _ "?f t"]) (simp_all add: DisWrite roles)
  qed simp
qed (use assms in auto)

lemma claim_step_resolve:
  assumes "resolve_step cfg io k w = (k', w')" and "distinct (trade_ids (w_db w))" and "definite (io_outcome io)"
    and inv: "claim_inv i w (add_mset k M)"
  shows "claim_inv i w' (add_mset k' M)"
proof (cases k)
  case (ResGet j res who nt)
  have "w' = w" and "\<not> claiming i k' \<and> \<not> recording i k' \<and> \<not> releasing i k' \<and> \<not> locking i k'"
    using assms(1) ResGet by (auto simp: roles split: sum.splits prod.splits)
  then show ?thesis by (intro claim_frame [OF inv]) (use ResGet in \<open>simp_all add: roles\<close>)
next
  case (ResReserve t a res who nt)
  show ?thesis
  proof (rule claim_cas [OF assms(1) [unfolded ResReserve resolve_step.simps reserve_from_dispute_def] assms(2) _ _ inv])
    show "\<not> recording i k" using ResReserve by (simp add: roles)
    show "claim_inv i w (add_mset (ResSend t a res who nt) M)" if "i \<noteq> t_id t"
      by (rule claim_frame [OF inv]) (use that ResReserve in \<open>simp_all add: roles\<close>)
  next
    fix u and w2 :: world
    assume "t_id t = i" "find_trade i (w_db w) = Some u" "settlements i w2 = settlements i w"
      and "t_id u = t_id t \<and> native u \<and> t_status u = DISPUTED \<and> t_escrow_release_tx u = None"
      and "find_trade i (w_db w2) = Some (u\<lparr>t_status := RESOLVING\<rparr>)"
    then show "claim_inv i w2 (add_mset (ResSend t a res who nt) M)"
      by (intro claim_reserve_open [OF inv, of u _ "u\<lparr>t_status := RESOLVING\<rparr>"])
        (simp_all add: ResReserve roles open_states_def)
  qed simp_all
next
  case (ResSend t a res who nt)
  let ?act = "if res = ''release'' then Release else Refund"
  obtain r w1 where s: "escrow_call cfg io (t_id t) ?act None (Some a) (t_crypto_amount t) (t_crypto_chain t) w = (r, w1)"
    by fastforce
  show ?thesis
  proof (rule send_definite [OF s assms(3)])
    fix e
    assume "r = Inl e" "w1 = w"
    with s assms(1) ResSend have k': "k' = ResRevert (t_id t) e" "w' = w" by (auto simp: send_defs split: if_splits)
    show ?thesis unfolding k'
      by (rule claim_frame [OF inv]) (use ResSend in \<open>simp_all add: roles\<close>)
  next
    fix tx
    assume a: "r = Inr tx" "w_db w1 = w_db w"
      and n: "\<And>i. settlements i w1 = settlements i w + (if t_id t = i then 1 else 0)"
    with s assms(1) ResSend have k': "k' = ResRecord (t_id t) tx res who nt (io_now io)" "w' = w1"
      by (auto simp: send_defs split: if_splits)
    show ?thesis
    proof (cases "t_id t = i")
      case True
      show ?thesis unfolding k'
        by (rule claim_settle [OF inv]) (use True a n ResSend in \<open>simp_all add: roles\<close>)
    next
      case False
      show ?thesis unfolding k'
        by (rule claim_frame [OF inv]) (use False a n ResSend in \<open>simp_all add: roles\<close>)
    qed
  qed simp
next
  case (ResRecord j tx res who nt now)
  obtain r w1 where s: "write_section j (resolved tx res who nt now) w = (r, w1)" by fastforce
  with assms(1) ResRecord obtain r' where k': "k' = Done r'" "w_db w' = w_db w1" "w_moves w' = w_moves w1"
    by (auto split: sum.splits if_splits)
  show ?thesis unfolding k'(1)
  proof (rule claim_write [OF s assms(2) _ k'(2,3)])
    show "claim_inv i w (add_mset (Done r') M)" if "i \<noteq> j \<or> find_trade i (w_db w) = None"
    proof (cases "i = j")
      case True
      with that claim_lost_record [OF inv] show ?thesis by simp
    next
      case False
      with claim_idle_to_done [OF inv] ResRecord show ?thesis by (simp add: roles)
    qed
  next
    fix t
    assume "j = i" "find_trade i (w_db w) = Some t" "find_trade i (w_db w') = Some (resolved tx res who nt now t)"
      "settlements i w' = settlements i w"
    with ResRecord show "claim_inv i w' (add_mset (Done r') M)"
      by (intro claim_record [OF inv, of t _ "resolved tx res who nt now t"]) (simp_all add: roles resolved_def)
  qed simp
next
  case (ResRevert j e)
  obtain r w1 where s: "write_section j (\<lambda>t. t\<lparr>t_status := DISPUTED\<rparr>) w = (r, w1)" by fastforce
  with assms(1) ResRevert obtain r' where k': "k' = Done r'" "w' = w1" by (auto split: sum.splits)
  show ?thesis unfolding k'
  proof (rule claim_write [OF s assms(2) _ refl refl])
    show "claim_inv i w (add_mset (Done r') M)" using claim_idle_to_done [OF inv] ResRevert by (simp add: roles)
  next
    fix t
    assume a: "j = i" "find_trade i (w_db w) = Some t" "find_trade i (w_db w1) = Some (t\<lparr>t_status := DISPUTED\<rparr>)"
      "settlements i w1 = settlements i w"
    have "claiming i k" "\<not> recording i k" "\<not> releasing i k" using ResRevert a(1) by (simp_all add: roles)
    with inv not_locking [OF inv] show "claim_inv i w1 (add_mset (Done r') M)"
      unfolding claim_inv_def a(2,3,4) by (auto simp: claim_ok_def open_states_def)
  qed simp
qed (use assms in auto)

lemma claim_step_mark:
  assumes "mark_step cfg io k w = (k', w')" and "distinct (trade_ids (w_db w))"
    and inv: "claim_inv i w (add_mset k M)"
  shows "claim_inv i w' (add_mset k' M)"
proof (cases k)
  case (MarkCas j p)
  let ?f = "\<lambda>t. t\<lparr>t_status := FIAT_SENT, t_fiat_payment_ref := p\<rparr>"
  show ?thesis
  proof (rule claim_cas [OF assms(1) [unfolded MarkCas mark_step.simps cas_fiat_sent_def] assms(2) _ _ inv])
    show "\<not> recording i k" using MarkCas by (simp add: roles)
    show "claim_inv i w (add_mset (MarkRead j) M)"
      by (rule claim_frame [OF inv]) (use MarkCas in \<open>simp_all add: roles\<close>)
  next
    fix t and w2 :: world
    assume "j = i" "find_trade i (w_db w) = Some t" "settlements i w2 = settlements i w"
      and "t_id t = j \<and> t_status t \<in> {INITIATED, ESCROW_LOCKED, FIAT_PENDING}"
      and "find_trade i (w_db w2) = Some (?f t)"
    then show "claim_inv i w2 (add_mset (MarkRead j) M)"
      by (intro claim_plain_write [OF inv, of t _ "?f t"]) (auto simp: MarkCas roles open_states_def)
  qed simp_all
next
  case (MarkRead j)
  with assms(1) claim_idle_to_done [OF inv] show ?thesis by (auto simp: roles)
qed (use assms in auto)

lemma claim_step_lock:
  assumes "lock_step cfg io k w = (k', w')" and "distinct (trade_ids (w_db w))"
    and inv: "claim_inv i w (add_mset k M)"
  shows "claim_inv i w' (add_mset k' M)"
proof (cases k)
  case (LockGet j a)
  have nl: "j \<noteq> i" using not_locking [OF inv] LockGet by (simp add: roles)
  have "w' = w" and "\<not> claiming i k' \<and> \<not> recording i k' \<and> \<not> releasing i k' \<and> \<not> locking i k'"
    using assms(1) LockGet nl
    by (auto simp: roles get_trade_Inr dest: find_trade_id split: sum.splits if_splits)
  then show ?thesis by (intro claim_frame [OF inv]) (use LockGet in \<open>simp_all add: roles\<close>)
next
  case (LockWallet t a)
  have nl: "t_id t \<noteq> i" using not_locking [OF inv] LockWallet by (simp add: roles)
  have "w' = w" and "\<not> claiming i k' \<and> \<not> recording i k' \<and> \<not> releasing i k' \<and> \<not> locking i k'"
    using assms(1) LockWallet nl by (auto simp: roles split: sum.splits if_splits)
  then show ?thesis by (intro claim_frame [OF inv]) (use LockWallet in \<open>simp_all add: roles\<close>)
next
  case (LockSend t a)
  have nl: "t_id t \<noteq> i" using not_locking [OF inv] LockSend by (simp add: roles)
  obtain r w1 where s: "escrow_call cfg io (t_id t) Lock (Some a) None (t_crypto_amount t) (t_crypto_chain t) w = (r, w1)"
    by fastforce
  with assms(1) LockSend have w': "w' = w1"
    and k': "\<not> claiming i k' \<and> \<not> recording i k' \<and> \<not> releasing i k' \<and> \<not> locking i k'"
    using nl by (auto simp: send_defs roles split: sum.splits)
  have "settlements i w1 = settlements i w \<and> w_db w1 = w_db w"
    using s
  proof (cases rule: escrow_callE)
    case (sent m tx)
    with executor_requestD(2) [OF sent(4)] show ?thesis by (simp add: settlements_snoc)
  next
    case (ambiguous m e)
    with executor_requestD(2) [OF ambiguous(4)] show ?thesis by (simp add: settlements_snoc)
  qed simp
  with w' k' show ?thesis by (intro claim_frame [OF inv]) (use LockSend in \<open>simp_all add: roles\<close>)
next
  case (LockRecord j tx)
  have nl: "j \<noteq> i" using not_locking [OF inv] LockRecord by (simp add: roles)
  obtain r w1 where s: "write_section j (\<lambda>t. t\<lparr>t_status := ESCROW_LOCKED, t_escrow_lock_tx := Some tx\<rparr>) w = (r, w1)" by fastforce
  with assms(1) LockRecord have k': "k' = Done r" "w' = w1" by auto
  show ?thesis unfolding k'
  proof (rule claim_write [OF s assms(2) _ refl refl])
    show "claim_inv i w (add_mset (Done r) M)" using claim_idle_to_done [OF inv] LockRecord by (simp add: roles)
  qed (use nl in simp_all)
qed (use assms in auto)

lemma p2p_step_cases:
  "p2p_step cfg io k w = release_step cfg io k w \<or> p2p_step cfg io k w = cancel_step cfg io k w
   \<or> p2p_step cfg io k w = dispute_step cfg io k w \<or> p2p_step cfg io k w = resolve_step cfg io k w
   \<or> p2p_step cfg io k w = mark_step cfg io k w \<or> p2p_step cfg io k w = lock_step cfg io k w"
  by (cases k) (simp_all only: p2p_step.simps release_step.simps simp_thms)

lemma p2p_step_opE:
  assumes "p2p_step cfg io k w = s"
  obtains (release) "release_step cfg io k w = s" | (cancel) "cancel_step cfg io k w = s"
  | (dispute) "dispute_step cfg io k w = s" | (resolve) "resolve_step cfg io k w = s"
  | (mark) "mark_step cfg io k w = s" | (lock) "lock_step cfg io k w = s"
  using p2p_step_cases [of cfg io k w] assms by metis

lemma claim_step:
  assumes "p2p_step cfg io k w = (k', w')" and "distinct (trade_ids (w_db w))" and "definite (io_outcome io)"
    and inv: "claim_inv i w (add_mset k M)"
  shows "claim_inv i w' (add_mset k' M)"
  using assms(1)
proof (cases rule: p2p_step_opE)
  case release
  from claim_step_release [OF this assms(2-4)] show ?thesis .
next
  case cancel
  from claim_step_cancel [OF this assms(2-4)] show ?thesis .
next
  case dispute
  from claim_step_dispute [OF this assms(2,4)] show ?thesis .
next
  case resolve
  from claim_step_resolve [OF this assms(2-4)] show ?thesis .
next
  case mark
  from claim_step_mark [OF this assms(2,4)] show ?thesis .
next
  case lock
  from claim_step_lock [OF this assms(2,4)] show ?thesis .
qed

lemma cas_terms:
  assumes "cas_section (update_trades P f) e kn w = (k', w')" and "keeps_terms f"
  shows "map trade_terms (pd_trades (w_db w')) = map trade_terms (pd_trades (w_db w))"
  using assms update_trades_terms [OF assms(2)] by (auto simp: cas_section_def put_db_def split: prod.splits)

lemma write_terms:
  assumes "write_section i f w = (r, w')" and "keeps_terms f"
  shows "map trade_terms (pd_trades (w_db w')) = map trade_terms (pd_trades (w_db w))"
proof (cases "find_trade i (w_db w)")
  case (Some t)
  obtain b db where u: "update_trades (\<lambda>x. t_id x = i) f (w_db w) = (b, db)" by fastforce
  with Some assms update_trades_terms [OF assms(2) u] show ?thesis
    by (auto simp: write_section_def update_trade_def put_db_def)
qed (use assms in \<open>auto simp: write_section_def update_trade_def put_db_def\<close>)

lemma call_db: "escrow_call cfg io tid act fw to amount chain w = (r, w') \<Longrightarrow> w_db w' = w_db w"
  by (elim escrow_callE) simp_all

lemma step_terms:
  assumes "p2p_step cfg io k w = (k', w')"
  shows "map trade_terms (pd_trades (w_db w')) = map trade_terms (pd_trades (w_db w))"
  using assms
  by (cases k)
    (auto simp: cas_defs send_defs dest: cas_terms write_terms call_db split: sum.splits prod.splits if_splits)

lemma step_distinct:
  assumes "p2p_step cfg io k w = (k', w')" and "distinct (trade_ids (w_db w))"
  shows "distinct (trade_ids (w_db w'))"
  using terms_ids [OF step_terms [OF assms(1)]] assms(2) by (simp add: trade_ids_def)


end
