(* ===== verification/P2PCalls.thy ===== *)
theory P2PCalls
  imports P2PSystem
begin

text \<open>
  Whole calls of the trade operations: they return, they are runs of the system, and what
  they do when a transfer fails, is ambiguous, or overlaps another call.
\<close>

subsection \<open>Whole calls\<close>

text \<open>How many sections an operation may still run.\<close>

definition sections_left :: "pc \<Rightarrow> nat" where
  "sections_left k = (case k of
     RelGet _ _ \<Rightarrow> 4 | RelReserve _ _ \<Rightarrow> 3 | RelSend _ _ \<Rightarrow> 2 | RelRecord _ _ \<Rightarrow> 1
   | CanGet _ _ \<Rightarrow> 4 | CanReserve _ _ \<Rightarrow> 3 | CanSend _ _ \<Rightarrow> 2 | CanReread _ \<Rightarrow> 1 | CanWrite _ \<Rightarrow> 1
   | DisGet _ _ _ \<Rightarrow> 4 | DisCount _ _ _ \<Rightarrow> 3 | DisReserve _ _ _ \<Rightarrow> 2 | DisWrite _ _ _ \<Rightarrow> 1
   | ResGet _ _ _ _ \<Rightarrow> 4 | ResReserve _ _ _ _ _ \<Rightarrow> 3 | ResSend _ _ _ _ _ \<Rightarrow> 2 | ResRecord _ _ _ _ _ _ \<Rightarrow> 1
   | ResRevert _ _ \<Rightarrow> 1
   | MarkCas _ _ \<Rightarrow> 2 | MarkRead _ \<Rightarrow> 1
   | LockGet _ _ \<Rightarrow> 4 | LockWallet _ _ \<Rightarrow> 3 | LockSend _ _ \<Rightarrow> 2 | LockRecord _ _ \<Rightarrow> 1
   | Done _ \<Rightarrow> 0)"

lemma sections_left_0: "sections_left k = 0 \<longleftrightarrow> finished k"
  by (cases k) (simp_all add: sections_left_def finished_def)

lemma cas_section_left:
  "cas_section c e kn w = (k', w') \<Longrightarrow> k' = kn \<or> k' = Done (Inl e)"
  by (auto simp: cas_section_def split: prod.splits if_splits)

lemma cancel_checks_left: "cancel_checks cfg i a db = Inr kn \<Longrightarrow> sections_left kn \<le> 3"
  by (elim cancel_checks_ok) (simp_all add: sections_left_def)

lemma step_left:
  assumes "p2p_step cfg io k w = (k', w')" and "\<not> finished k"
  shows "sections_left k' < sections_left k"
  using assms
  by (cases k)
    (auto simp: sections_left_def finished_def dest!: cas_section_left dest: cancel_checks_left [unfolded sections_left_def]
      split: sum.splits prod.splits if_splits)

lemma run_finishes: "sections_left k \<le> n \<Longrightarrow> finished (fst (p2p_run n cfg io k w))"
proof (induction n arbitrary: k w)
  case 0
  then show ?case using sections_left_0 by simp
next
  case (Suc n)
  show ?case
  proof (cases "finished k")
    case False
    obtain k' w' where s: "p2p_step cfg io k w = (k', w')" by fastforce
    from step_left [OF s False] Suc.prems have "sections_left k' \<le> n" by simp
    from Suc.IH [OF this] False s show ?thesis by simp
  qed simp
qed

text \<open>Every operation returns: run without interference, an operation of the service
  reaches its result within four sections, whatever the database and the chain answer.\<close>

theorem operations_return:
  assumes "starts k"
  shows "\<exists>r w'. p2p_run 4 cfg io k w = (Done r, w') \<and> call cfg io k w = (r, w')"
proof -
  have "sections_left k \<le> 4" using assms by (cases k) (simp_all add: starts_def sections_left_def)
  from run_finishes [OF this, of cfg io w] obtain k' w' where r: "p2p_run 4 cfg io k w = (k', w')" "finished k'"
    by (cases "p2p_run 4 cfg io k w") simp
  then obtain r where "k' = Done r" by (cases k') (auto simp: finished_def)
  with r show ?thesis by (simp add: call_def)
qed

lemma run_is_runs:
  assumes "outcomes (io_outcome io)"
  shows "p2p_runs admit outcomes cfg (w, add_mset k M) (case p2p_run n cfg io k w of (k', w') \<Rightarrow> (w', add_mset k' M))"
proof (induction n arbitrary: k w)
  case 0
  show ?case by (simp add: p2p_runs_def)
next
  case (Suc n)
  show ?case
  proof (cases "finished k")
    case True
    then show ?thesis by (simp add: p2p_runs_def)
  next
    case False
    obtain k' w' where s: "p2p_step cfg io k w = (k', w')" by fastforce
    have "p2p_sys admit outcomes cfg (w, add_mset k M) (w', add_mset k' M)"
      by (rule p2p_sys.run [where outcomes = outcomes and io = io, OF assms s])
    with Suc.IH [of w' k'] s False show ?thesis
      by (simp add: p2p_runs_def converse_rtranclp_into_rtranclp)
  qed
qed

text \<open>A call that nothing interrupts is one of the interleavings: starting an operation and
  running it to its end is a run of the system, with the result and the world of the call.\<close>

theorem call_is_run:
  assumes "starts k" and "admit M k" and "outcomes (io_outcome io)" and "call cfg io k w = (r, w')"
  shows "p2p_runs admit outcomes cfg (w, M) (w', add_mset (Done r) M)"
proof -
  have "sections_left k \<le> 4" using assms(1) by (cases k) (simp_all add: starts_def sections_left_def)
  from run_finishes [OF this, of cfg io w] obtain k' w1 where e: "p2p_run 4 cfg io k w = (k', w1)" "finished k'"
    by (cases "p2p_run 4 cfg io k w") simp
  then obtain r' where "k' = Done r'" by (cases k') (auto simp: finished_def)
  with e(1) assms(4) have "p2p_run 4 cfg io k w = (Done r, w')" by (simp add: call_def)
  with run_is_runs [of outcomes io admit cfg w k M 4, OF assms(3)]
  have "p2p_runs admit outcomes cfg (w, add_mset k M) (w', add_mset (Done r) M)" by simp
  moreover have "p2p_sys admit outcomes cfg (w, M) (w, add_mset k M)" by (rule p2p_sys.start [where admit = admit, OF assms(1,2)])
  ultimately show ?thesis by (simp add: p2p_runs_def converse_rtranclp_into_rtranclp)
qed

subsection \<open>A sample market\<close>

definition sample_cfg :: p2p_cfg where
  "sample_cfg = \<lparr>p2p_enabled = True, p2p_escrow_chain = ''base'', p2p_escrow_token = ''USDC'',
     p2p_escrow_hot_wallet_id = None, p2p_escrow_allowed_chains = None, p2p_restricted_regions = None,
     executor_wired = True, token_address = (\<lambda>_ _. Some ''0xt''), token_decimals = (\<lambda>_ _. 6),
     chain_known = (\<lambda>_. True), is_address = (\<lambda>s. take 2 s = ''0x''), to_checksum_address = (\<lambda>s. s)\<rparr>"

definition sample_trade :: "P2PTradeStatus \<Rightarrow> P2PTrade" where
  "sample_trade s = \<lparr>t_id = 1, t_source = ''native'', t_offer_id = Some 7, t_external_offer_id = None,
     t_taker_user_id = 10, t_maker_user_id = Some 20, t_counterparty_handle = None, t_status = s,
     t_offer_type = ''sell_crypto'', t_fiat_currency = ''EUR'', t_crypto_asset = ''USDC'', t_crypto_chain = ''base'',
     t_fiat_amount = Dec False 20 0, t_crypto_amount = ''5'', t_price_per_unit = Dec False 4 0, t_payment_method = ''pix'',
     t_escrow_lock_tx = Some ''0xlock'', t_escrow_release_tx = None, t_buyer_address = Some ''0xb'',
     t_seller_address = Some ''0xs'', t_fiat_payment_ref = None, t_dispute_reason = None, t_disputed_at = None,
     t_disputed_by = None, t_dispute_resolution = None, t_resolved_by = None, t_resolved_at = None,
     t_resolution_note = None, t_expires_at = None, t_completed_at = None\<rparr>"

definition sample_world :: "P2PTradeStatus \<Rightarrow> world" where
  "sample_world s = \<lparr>w_db = \<lparr>pd_offers = [], pd_trades = [sample_trade s], pd_wallets = [],
     pd_hot_wallets = [\<lparr>hw_id = 1, hw_chain_type = ''evm'', hw_address = ''0xe'', hw_is_deposit_wallet = True,
       hw_is_active = True\<rparr>]\<rparr>, w_moves = [], w_awards = []\<rparr>"

definition sample_io :: io where
  "sample_io = \<lparr>io_now = 100, io_outcome = Sent ''0xpaid''\<rparr>"

definition sample_paid :: move where
  "sample_paid = \<lparr>m_trade = 1, m_action = Release, m_from_wallet = None, m_to = ''0xb'', m_amount_raw = 5000000,
     m_chain = ''base'', m_token = ''USDC''\<rparr>"

lemmas sample_p2p_defs = sample_cfg_def sample_trade_def sample_world_def sample_io_def sample_paid_def

lemma sample_request: "executor_request sample_cfg (w_db (sample_world s)) 1 Release None (Some ''0xb'') ''5'' ''base'' ''USDC''
   = Inr sample_paid"
  by code_simp

lemma sample_release:
  "case release_escrow sample_cfg sample_io 1 None (sample_world FIAT_SENT) of
     (Inr t, w) \<Rightarrow> t_status t = COMPLETED \<and> w_moves w = [sample_paid] | _ \<Rightarrow> False"
  by code_simp

subsection \<open>The calls as straight-line code\<close>

lemma finished_simps [simp]:
  "finished (Done r)" "\<not> finished (RelGet i a)" "\<not> finished (RelReserve t p)" "\<not> finished (RelSend t p)"
  "\<not> finished (RelRecord i x)" "\<not> finished (CanGet i a)" "\<not> finished (CanReserve t p)" "\<not> finished (CanSend t p)"
  "\<not> finished (CanReread i)" "\<not> finished (CanWrite i)" "\<not> finished (ResGet i s u n)" "\<not> finished (ResReserve t p s u n)"
  "\<not> finished (ResSend t p s u n)" "\<not> finished (ResRecord i x s u n now)" "\<not> finished (ResRevert i e)"
  "\<not> finished (DisGet i x y)" "\<not> finished (DisCount i x u)" "\<not> finished (DisReserve i x u)" "\<not> finished (DisWrite i x u)"
  by (simp_all add: finished_def)

lemma release_escrow_code:
  "release_escrow cfg io i override w =
     (case release_checks cfg i override (w_db w) of
        Inl e \<Rightarrow> (Inl e, w)
      | Inr (t, a) \<Rightarrow>
          (case reserve_for_release (t_id t) (w_db w) of
             (False, db) \<Rightarrow> (Inl NotReleasable, put_db w db)
           | (True, db) \<Rightarrow>
               (case escrow_release cfg io (t_id t) a (t_crypto_amount t) (t_crypto_chain t) (put_db w db) of
                  (Inl e, w1) \<Rightarrow> (Inl e, w1)
                | (Inr tx, w1) \<Rightarrow>
                    (case write_section (t_id t) (completed io tx) w1 of
                       (Inl e, w2) \<Rightarrow> (Inl e, w2)
                     | (Inr t', w2) \<Rightarrow> (Inr t', w2\<lparr>w_awards := w_awards w2 @ award_p2p_points t'\<rparr>)))))"
  by (simp add: release_escrow_def call_def eval_nat_numeral cas_section_def split: sum.split prod.split bool.split)

lemma cancel_trade_code:
  "cancel_trade cfg io i override w =
     (case cancel_checks cfg i override (w_db w) of
        Inl e \<Rightarrow> (Inl e, w)
      | Inr (CanReserve t a) \<Rightarrow>
          (case reserve_for_cancel (t_id t) (w_db w) of
             (False, db) \<Rightarrow> (Inl NotRefundable, put_db w db)
           | (True, db) \<Rightarrow>
               (case escrow_refund cfg io (t_id t) a (t_crypto_amount t) (t_crypto_chain t) (put_db w db) of
                  (Inl e, w1) \<Rightarrow> (Inl e, w1)
                | (Inr tx, w1) \<Rightarrow> (get_trade (t_id t) (w_db w1), w1)))
      | Inr k \<Rightarrow> write_section i (\<lambda>t. t\<lparr>t_status := CANCELLED\<rparr>) w)"
proof (cases "cancel_checks cfg i override (w_db w)")
  case (Inl e)
  then show ?thesis by (simp add: cancel_trade_def call_def eval_nat_numeral)
next
  case (Inr k)
  from Inr show ?thesis
  proof (cases rule: cancel_checks_ok)
    case (reserve t a)
    with Inr have "cancel_checks cfg i override (w_db w) = Inr (CanReserve t a)" by simp
    then show ?thesis
      by (simp add: cancel_trade_def call_def eval_nat_numeral cas_section_def split: sum.split prod.split bool.split)
  next
    case (plain t)
    with Inr have "cancel_checks cfg i override (w_db w) = Inr (CanWrite i)" by simp
    then show ?thesis
      by (cases "write_section i (\<lambda>t. t\<lparr>t_status := CANCELLED\<rparr>) w")
        (simp add: cancel_trade_def call_def eval_nat_numeral)
  qed
qed

lemma resolve_dispute_code:
  "resolve_dispute cfg io i resolution resolver note w =
     (case resolve_checks cfg i resolution (w_db w) of
        Inl e \<Rightarrow> (Inl e, w)
      | Inr (t, a) \<Rightarrow>
          (case reserve_from_dispute (t_id t) (w_db w) of
             (False, db) \<Rightarrow> (Inl DisputeTaken, put_db w db)
           | (True, db) \<Rightarrow>
               (case (if resolution = ''release''
                      then escrow_release cfg io (t_id t) a (t_crypto_amount t) (t_crypto_chain t) (put_db w db)
                      else escrow_refund cfg io (t_id t) a (t_crypto_amount t) (t_crypto_chain t) (put_db w db)) of
                  (Inl e, w1) \<Rightarrow>
                    (case write_section (t_id t) (\<lambda>t. t\<lparr>t_status := DISPUTED\<rparr>) w1 of
                       (Inl e', w2) \<Rightarrow> (Inl e', w2) | (Inr _, w2) \<Rightarrow> (Inl e, w2))
                | (Inr tx, w1) \<Rightarrow>
                    (case write_section (t_id t) (resolved tx resolution resolver note (io_now io)) w1 of
                       (Inl e, w2) \<Rightarrow> (Inl e, w2)
                     | (Inr t', w2) \<Rightarrow> (Inr t',
                          if resolution = ''release'' then w2\<lparr>w_awards := w_awards w2 @ award_p2p_points t'\<rparr> else w2)))))"
  by (simp add: resolve_dispute_def call_def eval_nat_numeral cas_section_def split: sum.split prod.split bool.split)

lemma open_dispute_code:
  "open_dispute cfg io i reason opened_by w =
     (case dispute_checks i opened_by (w_db w) of
        Inl e \<Rightarrow> (Inl e, w)
      | Inr u \<Rightarrow>
          if count_open_disputes u (w_db w) \<ge> MAX_OPEN_DISPUTES_PER_USER then (Inl TooManyDisputes, w)
          else
            (case reserve_for_dispute i (w_db w) of
               (False, db) \<Rightarrow> (Inl NotDisputable, put_db w db)
             | (True, db) \<Rightarrow>
                 write_section i (\<lambda>t. t\<lparr>t_dispute_reason := Some reason, t_disputed_at := Some (io_now io),
                                        t_disputed_by := Some u\<rparr>) (put_db w db)))"
  by (simp add: open_dispute_def call_def eval_nat_numeral cas_section_def split: sum.split prod.split bool.split)


subsection \<open>Failing transfers\<close>

lemma not_sent:
  assumes "escrow_call cfg io tid act fw to amount chain w = (r, w')" and "io_outcome io = NotSent e"
  shows "w' = w \<and> (\<exists>err. r = Inl err)"
  using assms by (elim escrow_callE) simp_all

lemma put_db_get [simp]: "put_db w (w_db w) = w"
  by (simp add: put_db_def)

lemma put_db_db [simp]: "w_db (put_db w db) = db" "w_moves (put_db w db) = w_moves w"
  "put_db (put_db w db) db' = put_db w db'"
  by (simp_all add: put_db_def)

lemma undo_update:
  assumes "update_trades P f db = (True, db1)" and "distinct (trade_ids db)" and "\<And>t. P t \<Longrightarrow> t_id t = i"
    and "keeps_terms f" and "keeps_terms g" and "\<And>t. P t \<Longrightarrow> g (f t) = t"
  shows "\<exists>t. write_section i g (put_db w db1) = (Inr t, put_db w db)"
proof -
  from update_trades_won [OF assms(1-4)] obtain t where
    t: "find_trade i db = Some t" "P t" "find_trade i db1 = Some (f t)" by blast
  have d: "db1 = db\<lparr>pd_trades := upd_where P f (pd_trades db)\<rparr>" using assms(1) by (simp add: update_trades_def)
  have "(if t_id y = i then g y else y) = x" if x: "x \<in> set (pd_trades db)" and y: "y = (if P x then f x else x)" for x y
  proof (cases "P x")
    case True
    with y assms(3,6) keeps_terms_id [OF assms(4)] show ?thesis by simp
  next
    case False
    have "t_id x \<noteq> i"
    proof
      assume "t_id x = i"
      then have "find_trade i db = Some x"
        using find_unique [of t_id "pd_trades db" x i] assms(2) x by (simp add: find_trade_def trade_ids_def)
      with t False show False by simp
    qed
    with False y show ?thesis by simp
  qed
  then have "upd_where (\<lambda>x. t_id x = i) g (upd_where P f (pd_trades db)) = pd_trades db"
    by (simp add: upd_where_def map_idI)
  with t d show ?thesis
    by (simp add: write_section_def update_trade_def update_trades_def)
qed


subsection \<open>Paying twice\<close>

lemma request_trades: "executor_request cfg (db\<lparr>pd_trades := x\<rparr>) = executor_request cfg db"
proof -
  have h: "pd_hot_wallets (db\<lparr>pd_trades := x\<rparr>) = pd_hot_wallets db" by simp
  have g: "get_escrow_wallet cfg (db\<lparr>pd_trades := x\<rparr>) = get_escrow_wallet cfg db"
    by (simp only: get_escrow_wallet_def h)
  have f: "find_wallet i (db\<lparr>pd_trades := x\<rparr>) = find_wallet i db" for i
    by (simp add: find_wallet_def)
  show ?thesis by (intro ext) (simp only: executor_request_def g f)
qed

text \<open>The executor takes a transfer out of the escrow for the trade.\<close>

definition accepts :: "p2p_cfg \<Rightarrow> p2pdb \<Rightarrow> action \<Rightarrow> P2PTrade \<Rightarrow> string \<Rightarrow> bool" where
  "accepts cfg db act t a = (act \<noteq> Lock \<and> executor_wired cfg \<and> guard_chain cfg (t_crypto_chain t) = Inr ()
     \<and> (case executor_request cfg db (t_id t) act None (Some a) (t_crypto_amount t)
          (escrow_chain cfg (t_crypto_chain t)) (p2p_escrow_token cfg) of Inl _ \<Rightarrow> False | Inr _ \<Rightarrow> True))"

lemma accepts_trades: "accepts cfg (db\<lparr>pd_trades := x\<rparr>) act t a = accepts cfg db act t a"
  by (simp add: accepts_def request_trades)

lemma accepts_frame: "update_trades P f db = (b, db') \<Longrightarrow> accepts cfg db' act t a = accepts cfg db act t a"
  by (auto simp: update_trades_def accepts_trades)

lemma accepted_call:
  assumes "accepts cfg (w_db w) act t a"
  shows "\<exists>m. (\<forall>i. settlements i (w\<lparr>w_moves := w_moves w @ [m]\<rparr>) = settlements i w + (if t_id t = i then 1 else 0))
    \<and> escrow_call cfg io (t_id t) act None (Some a) (t_crypto_amount t) (t_crypto_chain t) w =
       (case io_outcome io of Sent tx \<Rightarrow> (Inr tx, w\<lparr>w_moves := w_moves w @ [m]\<rparr>)
        | NotSent e \<Rightarrow> (Inl (Raised e), w)
        | SentAmbiguous e \<Rightarrow> (Inl (Raised e), w\<lparr>w_moves := w_moves w @ [m]\<rparr>))"
proof -
  from assms obtain m where m: "executor_request cfg (w_db w) (t_id t) act None (Some a) (t_crypto_amount t)
          (escrow_chain cfg (t_crypto_chain t)) (p2p_escrow_token cfg) = Inr m" "act \<noteq> Lock"
      "executor_wired cfg" "guard_chain cfg (t_crypto_chain t) = Inr ()"
    by (auto simp: accepts_def split: sum.splits)
  with executor_requestD(1,2) [OF m(1)] show ?thesis
    by (intro exI [of _ m]) (simp add: escrow_call_def settlements_snoc)
qed

text \<open>A guarded update of a row that satisfies the guard is won.\<close>

lemma update_trades_wins:
  assumes "find_trade i db = Some t" and "P t"
  shows "\<exists>db'. update_trades P f db = (True, db')"
  using assms find_trade_mem by (fastforce simp: update_trades_def)

lemma write_section_found:
  assumes "find_trade i (w_db w) = Some t"
  shows "\<exists>w'. write_section i f w = (Inr (f t), w') \<and> w_moves w' = w_moves w"
  using assms by (auto simp: write_section_def update_trade_def split: prod.split)

text \<open>C40: An ambiguous broadcast can pay twice: if the first transfer of a resolution was accepted
  by the chain although the call raised, the dispute is open again and resolving it once
  more makes a second transfer for the same trade.\<close>

theorem ambiguous_resolution_pays_twice:
  assumes "distinct (trade_ids (w_db w))" and "resolve_checks cfg i ''release'' (w_db w) = Inr (t, a)"
    and "t_escrow_release_tx t = None" and "accepts cfg (w_db w) Release t a"
    and "io_outcome io1 = SentAmbiguous e" and "io_outcome io2 = Sent tx"
  shows "\<exists>w1 w2 t'. resolve_dispute cfg io1 i ''release'' u n w = (Inl (Raised e), w1)
    \<and> resolve_dispute cfg io2 i ''release'' u n w1 = (Inr t', w2) \<and> settlements i w2 = settlements i w + 2"
proof -
  let ?P = "\<lambda>x. t_id x = t_id t \<and> native x \<and> t_status x = DISPUTED \<and> t_escrow_release_tx x = None"
  let ?f = "\<lambda>x :: P2PTrade. x\<lparr>t_status := RESOLVING\<rparr>"
  note ok = resolve_checks_ok [OF assms(2)]
  have id: "t_id t = i" using find_trade_id [OF ok(1)] .
  from ok(1-3) assms(3) id obtain db where u: "update_trades ?P ?f (w_db w) = (True, db)"
    using update_trades_wins [of i "w_db w" t ?P ?f] by auto
  then have r: "reserve_from_dispute i (w_db w) = (True, db)" by (simp add: reserve_from_dispute_def id)
  have acc: "accepts cfg db Release t a" using accepts_frame [OF u] assms(4) by simp
  from accepted_call [of cfg "put_db w db" Release t a io1] acc obtain m where
    m: "\<And>j. settlements j (put_db w db\<lparr>w_moves := w_moves w @ [m]\<rparr>) = settlements j (put_db w db) + (if t_id t = j then 1 else 0)"
      "escrow_call cfg io1 (t_id t) Release None (Some a) (t_crypto_amount t) (t_crypto_chain t) (put_db w db) =
        (Inl (Raised e), put_db w db\<lparr>w_moves := w_moves w @ [m]\<rparr>)"
    using assms(5) by auto
  let ?w1 = "w\<lparr>w_moves := w_moves w @ [m]\<rparr>"
  from undo_update [OF u assms(1), of i "\<lambda>x. x\<lparr>t_status := DISPUTED\<rparr>" ?w1] id
  obtain t1 where "write_section i (\<lambda>x. x\<lparr>t_status := DISPUTED\<rparr>) (put_db ?w1 db) = (Inr t1, put_db ?w1 (w_db w))" by auto
  moreover have "put_db ?w1 db = put_db w db\<lparr>w_moves := w_moves w @ [m]\<rparr>" "put_db ?w1 (w_db w) = ?w1"
    by (simp_all add: put_db_def)
  ultimately have one: "resolve_dispute cfg io1 i ''release'' u n w = (Inl (Raised e), ?w1)"
    using assms(2) r m(2) id by (simp add: resolve_dispute_code send_defs)
  have s1: "settlements i ?w1 = settlements i w + 1"
    using m(1) [of i] id by (simp add: settlements_def put_db_def)
  from accepted_call [of cfg "put_db ?w1 db" Release t a io2] acc obtain m2 where
    m2: "\<And>j. settlements j (put_db ?w1 db\<lparr>w_moves := w_moves ?w1 @ [m2]\<rparr>) = settlements j (put_db ?w1 db) + (if t_id t = j then 1 else 0)"
      "escrow_call cfg io2 (t_id t) Release None (Some a) (t_crypto_amount t) (t_crypto_chain t) (put_db ?w1 db) =
        (Inr tx, put_db ?w1 db\<lparr>w_moves := w_moves ?w1 @ [m2]\<rparr>)"
    using assms(6) by auto
  let ?w2 = "put_db ?w1 db\<lparr>w_moves := w_moves ?w1 @ [m2]\<rparr>"
  have "find_trade i (w_db ?w2) = Some (?f t)"
    using update_trades_won [OF u assms(1), of i] ok(1) id by (auto simp: put_db_def)
  from write_section_found [OF this, of "resolved tx ''release'' u n (io_now io2)"] obtain w3 where
    w3: "write_section i (resolved tx ''release'' u n (io_now io2)) ?w2 = (Inr (resolved tx ''release'' u n (io_now io2) (?f t)), w3)"
      "w_moves w3 = w_moves ?w2" by blast
  have r1: "reserve_from_dispute i (w_db ?w1) = (True, db)" using r by simp
  have c1: "resolve_checks cfg i ''release'' (w_db ?w1) = Inr (t, a)" using assms(2) by simp
  obtain t' w4 where two: "resolve_dispute cfg io2 i ''release'' u n ?w1 = (Inr t', w4)" "w_moves w4 = w_moves ?w2"
    using c1 r1 m2(2) w3 id by (simp add: resolve_dispute_code send_defs)
  have "settlements i ?w2 = settlements i w + 2"
    using m2(1) [of i] s1 id by (simp add: settlements_def put_db_def)
  then have "settlements i w4 = settlements i w + 2" by (simp only: settlements_same [OF two(2)])
  with one two(1) show ?thesis by blast
qed

text \<open>C36: Two overlapping releases both pay: the reservation accepts a trade that is already
  reserved for release, so when two release calls of a locked trade overlap, both reach the
  chain and the escrow pays the buyer twice although every single answer is definite.\<close>

theorem overlapping_releases_pay_twice:
  assumes "distinct (trade_ids (w_db w))" and "release_checks cfg i None (w_db w) = Inr (t, a)"
    and "t_status t \<in> {ESCROW_LOCKED, FIAT_SENT}" and "t_escrow_release_tx t = None"
    and "accepts cfg (w_db w) Release t a"
  shows "\<exists>w' M. p2p_runs (\<lambda>_ _. True) definite cfg (w, {#}) (w', M) \<and> settlements i w' = settlements i w + 2"
proof -
  let ?sys = "p2p_sys (\<lambda>_ _. True) definite cfg"
  let ?io = "\<lparr>io_now = 0, io_outcome = Sent []\<rparr>"
  let ?k0 = "RelGet i None" and ?k1 = "RelReserve t a" and ?k2 = "RelSend t a" and ?k3 = "RelRecord i []"
  let ?P = "\<lambda>x. t_id x = t_id t \<and> native x \<and> t_escrow_lock_tx x \<noteq> None \<and> t_escrow_release_tx x = None
         \<and> t_status x \<in> {ESCROW_LOCKED, FIAT_SENT, RELEASED}"
  let ?f = "\<lambda>x :: P2PTrade. x\<lparr>t_status := RELEASED\<rparr>"
  note ok = release_checks_ok [OF assms(2)]
  have id: "t_id t = i" using find_trade_id [OF ok(1)] .
  have lk: "t_escrow_lock_tx t \<noteq> None" using truthyD [OF ok(3)] by auto
  from ok(1,2) lk assms(3,4) id obtain db where u: "update_trades ?P ?f (w_db w) = (True, db)"
    using update_trades_wins [of i "w_db w" t ?P ?f] by auto
  have row: "find_trade i db = Some (?f t)" using update_trades_won [OF u assms(1), of i] ok(1) id by auto
  obtain db2 where u2: "update_trades ?P ?f db = (True, db2)"
    using update_trades_wins [OF row, of ?P ?f] ok(2) lk assms(4) id by (auto simp: native_def)
  have acc2: "accepts cfg db2 Release t a" using accepts_frame [OF u] accepts_frame [OF u2] assms(5) by simp
  let ?wa = "put_db w db2"
  from accepted_call [of cfg ?wa Release t a ?io] acc2 obtain m where
    m: "\<And>j. settlements j (?wa\<lparr>w_moves := w_moves ?wa @ [m]\<rparr>) = settlements j ?wa + (if t_id t = j then 1 else 0)"
      "escrow_call cfg ?io (t_id t) Release None (Some a) (t_crypto_amount t) (t_crypto_chain t) ?wa =
        (Inr [], ?wa\<lparr>w_moves := w_moves ?wa @ [m]\<rparr>)" by auto
  let ?wb = "?wa\<lparr>w_moves := w_moves ?wa @ [m]\<rparr>"
  from accepted_call [of cfg ?wb Release t a ?io] acc2 obtain m2 where
    m2: "\<And>j. settlements j (?wb\<lparr>w_moves := w_moves ?wb @ [m2]\<rparr>) = settlements j ?wb + (if t_id t = j then 1 else 0)"
      "escrow_call cfg ?io (t_id t) Release None (Some a) (t_crypto_amount t) (t_crypto_chain t) ?wb =
        (Inr [], ?wb\<lparr>w_moves := w_moves ?wb @ [m2]\<rparr>)" by auto
  let ?wc = "?wb\<lparr>w_moves := w_moves ?wb @ [m2]\<rparr>"
  have d: "definite (io_outcome ?io)" by (simp add: definite_def)
  have go: "?sys (x, add_mset k M) (y, add_mset k' M)" if "p2p_step cfg ?io k x = (k', y)" for x y k k' M
    by (rule p2p_sys.run [where io = ?io and outcomes = definite, OF d that])
  have fresh: "?sys (x, M) (x, add_mset ?k0 M)" for x M
    by (rule p2p_sys.start [where admit = "\<lambda>_ _. True"]) (simp_all add: starts_def)
  have s1: "?sys (w, {#}) (w, {#?k0#})" using fresh [of w "{#}"] by simp
  have s2: "?sys (w, {#?k0#}) (w, {#?k0, ?k0#})" using fresh [of w "{#?k0#}"] by simp
  have get: "p2p_step cfg ?io ?k0 w = (?k1, w)" using assms(2) by simp
  have s3: "?sys (w, {#?k0, ?k0#}) (w, {#?k1, ?k0#})" by (rule go [OF get])
  have s4: "?sys (w, {#?k1, ?k0#}) (w, {#?k1, ?k1#})"
    using go [OF get, of "{#?k1#}"] by (simp add: add_mset_commute)
  have r1: "p2p_step cfg ?io ?k1 w = (?k2, put_db w db)"
    using u by (simp add: cas_section_def reserve_for_release_def)
  have s5: "?sys (w, {#?k1, ?k1#}) (put_db w db, {#?k2, ?k1#})" by (rule go [OF r1])
  have r2: "p2p_step cfg ?io ?k1 (put_db w db) = (?k2, ?wa)"
    using u2 by (simp add: cas_section_def reserve_for_release_def)
  have s6: "?sys (put_db w db, {#?k2, ?k1#}) (?wa, {#?k2, ?k2#})"
    using go [OF r2, of "{#?k2#}"] by (simp add: add_mset_commute)
  have p1: "p2p_step cfg ?io ?k2 ?wa = (?k3, ?wb)" using m(2) id by (simp add: send_defs)
  have s7: "?sys (?wa, {#?k2, ?k2#}) (?wb, {#?k3, ?k2#})" by (rule go [OF p1])
  have p2: "p2p_step cfg ?io ?k2 ?wb = (?k3, ?wc)" using m2(2) id by (simp add: send_defs)
  have s8: "?sys (?wb, {#?k3, ?k2#}) (?wc, {#?k3, ?k3#})"
    using go [OF p2, of "{#?k3#}"] by (simp add: add_mset_commute)
  from s1 s2 s3 s4 s5 s6 s7 s8 have "p2p_runs (\<lambda>_ _. True) definite cfg (w, {#}) (?wc, {#?k3, ?k3#})"
    unfolding p2p_runs_def by (meson converse_rtranclp_into_rtranclp rtranclp.rtrancl_refl)
  moreover have "settlements i ?wc = settlements i w + 2"
  proof -
    have "settlements i ?wa = settlements i w" by (simp add: settlements_def)
    with m(1) [of i] m2(1) [of i] id show ?thesis by simp
  qed
  ultimately show ?thesis by blast
qed

subsection \<open>Stranded funds\<close>

definition cancelled_row :: "int \<Rightarrow> world \<Rightarrow> bool" where
  "cancelled_row i w = (case find_trade i (w_db w) of None \<Rightarrow> False | Some t \<Rightarrow> t_status t = CANCELLED)"

definition bystander :: "int \<Rightarrow> pc \<Rightarrow> bool" where
  "bystander i k = (\<not> claiming i k \<and> \<not> recording i k \<and> \<not> locking i k)"

definition stuck_step :: "int \<Rightarrow> world \<Rightarrow> pc \<Rightarrow> world \<Rightarrow> bool" where
  "stuck_step i w k' w' = (cancelled_row i w' \<and> settlements i w' = settlements i w \<and> bystander i k')"

lemma bystander_Done [simp]: "bystander i (Done r)"
  by (simp add: bystander_def)

lemma stuck_same: "cancelled_row i w \<Longrightarrow> bystander i k' \<Longrightarrow> stuck_step i w k' w"
  by (simp add: stuck_step_def)

lemma stuck_cas:
  assumes "cas_section (update_trades P f) e kn w = (k', w')" and "distinct (trade_ids (w_db w))"
    and "\<And>t. P t \<Longrightarrow> t_id t = j" and "keeps_terms f" and "cancelled_row i w"
    and "\<And>t. P t \<Longrightarrow> t_status t \<noteq> CANCELLED" and "i \<noteq> j \<Longrightarrow> bystander i kn"
  shows "stuck_step i w k' w'"
proof (rule cas_sectionE [OF assms(1-4)])
  fix t
  assume a: "k' = kn" "find_trade j (w_db w) = Some t" "P t"
    "\<And>j'. j' \<noteq> j \<Longrightarrow> find_trade j' (w_db w') = find_trade j' (w_db w)" "w_moves w' = w_moves w"
  have "i \<noteq> j" using a(2,3) assms(5,6) by (auto simp: cancelled_row_def)
  with a(1) a(4) [OF \<open>i \<noteq> j\<close>] settlements_same [OF a(5)] assms(5,7) show ?thesis
    by (simp add: stuck_step_def cancelled_row_def)
next
  assume "k' = Done (Inl e)" "w' = w"
  with assms(5) show ?thesis by (simp add: stuck_same)
qed assumption

lemma stuck_write:
  assumes "write_section j f w = (r, w1)" and "distinct (trade_ids (w_db w))" and "keeps_terms f"
    and "w_db w' = w_db w1" and "w_moves w' = w_moves w1" and "cancelled_row i w" and "bystander i k'"
    and "\<And>t. j = i \<Longrightarrow> t_status t = CANCELLED \<Longrightarrow> t_status (f t) = CANCELLED"
  shows "stuck_step i w k' w'"
proof (rule write_sectionE [OF assms(1-3)])
  fix t
  assume a: "find_trade j (w_db w) = Some t" "find_trade j (w_db w1) = Some (f t)"
    "\<And>j'. j' \<noteq> j \<Longrightarrow> find_trade j' (w_db w1) = find_trade j' (w_db w)" "w_moves w1 = w_moves w"
  have s: "settlements i w' = settlements i w" by (simp only: settlements_def assms(5) a(4))
  show ?thesis
  proof (cases "i = j")
    case True
    with a(1,2) assms(4,6,7,8) s show ?thesis by (simp add: stuck_step_def cancelled_row_def)
  next
    case False
    with a(3) [OF False] assms(4,6,7) s show ?thesis by (simp add: stuck_step_def cancelled_row_def)
  qed
next
  assume a: "w1 = w"
  have "settlements i w' = settlements i w" by (simp only: settlements_def assms(5) a)
  with a assms(4,6,7) show ?thesis by (simp add: stuck_step_def cancelled_row_def)
qed

lemma stuck_send:
  assumes "escrow_call cfg io tid act fw to amount chain w = (r, w')" and "tid \<noteq> i" and "cancelled_row i w"
    and "bystander i k'"
  shows "stuck_step i w k' w'"
proof -
  have other: "settlements i (w\<lparr>w_moves := w_moves w @ [m]\<rparr>) = settlements i w" if "m_trade m = tid" for m
    using that assms(2) by (simp add: settlements_snoc)
  from assms(1) show ?thesis
  proof (cases rule: escrow_callE)
    case (same e)
    with assms(3,4) show ?thesis by (simp add: stuck_step_def)
  next
    case (sent m tx)
    with other [of m] executor_requestD(1) [OF sent(4)] assms(3,4) show ?thesis
      by (simp add: stuck_step_def cancelled_row_def)
  next
    case (ambiguous m e)
    with other [of m] executor_requestD(1) [OF ambiguous(4)] assms(3,4) show ?thesis
      by (simp add: stuck_step_def cancelled_row_def)
  qed
qed

lemmas bystander_roles = bystander_def roles

lemma stuck_release:
  assumes "release_step cfg io k w = (k', w')" and "distinct (trade_ids (w_db w))" and "cancelled_row i w"
    and "bystander i k"
  shows "stuck_step i w k' w'"
proof (cases k)
  case (RelGet j a)
  with assms(1) have "w' = w" "bystander i k'" by (auto simp: bystander_roles split: sum.splits prod.splits)
  with assms(3) show ?thesis by (simp add: stuck_same)
next
  case (RelReserve t a)
  from assms(1) show ?thesis
    unfolding RelReserve release_step.simps reserve_for_release_def
    by (elim stuck_cas [OF _ assms(2) _ _ assms(3), where j = "t_id t"]) (auto simp: bystander_roles)
next
  case (RelSend t a)
  obtain r w1 where s: "escrow_call cfg io (t_id t) Release None (Some a) (t_crypto_amount t) (t_crypto_chain t) w = (r, w1)"
    by fastforce
  have "t_id t \<noteq> i" using assms(4) RelSend by (simp add: bystander_roles)
  moreover have "w' = w1" "bystander i k'"
    using assms(1) RelSend s calculation by (auto simp: send_defs bystander_roles split: sum.splits)
  ultimately show ?thesis using stuck_send [OF s _ assms(3)] by simp
next
  case (RelRecord j tx)
  obtain r w1 where s: "write_section j (completed io tx) w = (r, w1)" by fastforce
  have "j \<noteq> i" using assms(4) RelRecord by (simp add: bystander_roles)
  moreover have "w_db w' = w_db w1" "w_moves w' = w_moves w1" "bystander i k'"
    using assms(1) RelRecord s by (auto split: sum.splits)
  ultimately show ?thesis by (intro stuck_write [OF s assms(2)]) (simp_all add: assms(3))
qed (use assms in \<open>auto simp: stuck_same\<close>)

lemma stuck_cancel:
  assumes "cancel_step cfg io k w = (k', w')" and "distinct (trade_ids (w_db w))" and "cancelled_row i w"
    and "bystander i k"
  shows "stuck_step i w k' w'"
proof (cases k)
  case (CanGet j a)
  with assms(1) have "w' = w" "bystander i k'"
    by (auto simp: bystander_roles elim!: cancel_checks_ok split: sum.splits)
  with assms(3) show ?thesis by (simp add: stuck_same)
next
  case (CanReserve t a)
  from assms(1) show ?thesis
    unfolding CanReserve cancel_step.simps reserve_for_cancel_def
    by (elim stuck_cas [OF _ assms(2) _ _ assms(3), where j = "t_id t"]) (auto simp: bystander_roles)
next
  case (CanSend t a)
  obtain r w1 where s: "escrow_call cfg io (t_id t) Refund None (Some a) (t_crypto_amount t) (t_crypto_chain t) w = (r, w1)"
    by fastforce
  have "t_id t \<noteq> i" using assms(4) CanSend by (simp add: bystander_roles)
  moreover have "w' = w1" "bystander i k'"
    using assms(1) CanSend s calculation by (auto simp: send_defs bystander_roles split: sum.splits)
  ultimately show ?thesis using stuck_send [OF s _ assms(3)] by simp
next
  case (CanWrite j)
  obtain r w1 where s: "write_section j (\<lambda>t. t\<lparr>t_status := CANCELLED\<rparr>) w = (r, w1)" by fastforce
  with assms(1) CanWrite have "w' = w1" "k' = Done r" by auto
  then show ?thesis by (intro stuck_write [OF s assms(2)]) (simp_all add: assms(3))
qed (use assms in \<open>auto simp: stuck_same\<close>)

lemma stuck_dispute:
  assumes "dispute_step cfg io k w = (k', w')" and "distinct (trade_ids (w_db w))" and "cancelled_row i w"
    and "bystander i k"
  shows "stuck_step i w k' w'"
proof (cases k)
  case (DisGet j a b)
  with assms(1) have "w' = w" "bystander i k'" by (auto simp: bystander_roles split: sum.splits)
  with assms(3) show ?thesis by (simp add: stuck_same)
next
  case (DisCount j a b)
  with assms(1) have "w' = w" "bystander i k'" by (auto simp: bystander_roles split: if_splits)
  with assms(3) show ?thesis by (simp add: stuck_same)
next
  case (DisReserve j a b)
  from assms(1) show ?thesis
    unfolding DisReserve dispute_step.simps reserve_for_dispute_def
    by (elim stuck_cas [OF _ assms(2) _ _ assms(3), where j = j]) (auto simp: bystander_roles)
next
  case (DisWrite j reason u)
  obtain r w1 where s: "write_section j (\<lambda>t. t\<lparr>t_dispute_reason := Some reason, t_disputed_at := Some (io_now io),
      t_disputed_by := Some u\<rparr>) w = (r, w1)" by fastforce
  with assms(1) DisWrite have "w' = w1" "k' = Done r" by auto
  then show ?thesis by (intro stuck_write [OF s assms(2)]) (simp_all add: assms(3))
qed (use assms in \<open>auto simp: stuck_same\<close>)

lemma stuck_resolve:
  assumes "resolve_step cfg io k w = (k', w')" and "distinct (trade_ids (w_db w))" and "cancelled_row i w"
    and "bystander i k"
  shows "stuck_step i w k' w'"
proof (cases k)
  case (ResGet j res who nt)
  with assms(1) have "w' = w" "bystander i k'" by (auto simp: bystander_roles split: sum.splits prod.splits)
  with assms(3) show ?thesis by (simp add: stuck_same)
next
  case (ResReserve t a res who nt)
  from assms(1) show ?thesis
    unfolding ResReserve resolve_step.simps reserve_from_dispute_def
    by (elim stuck_cas [OF _ assms(2) _ _ assms(3), where j = "t_id t"]) (auto simp: bystander_roles)
next
  case (ResSend t a res who nt)
  let ?act = "if res = ''release'' then Release else Refund"
  obtain r w1 where s: "escrow_call cfg io (t_id t) ?act None (Some a) (t_crypto_amount t) (t_crypto_chain t) w = (r, w1)"
    by fastforce
  have "t_id t \<noteq> i" using assms(4) ResSend by (simp add: bystander_roles)
  moreover have "w' = w1" "bystander i k'"
    using assms(1) ResSend s calculation by (auto simp: send_defs bystander_roles split: sum.splits if_splits)
  ultimately show ?thesis using stuck_send [OF s _ assms(3)] by simp
next
  case (ResRecord j tx res who nt now)
  obtain r w1 where s: "write_section j (resolved tx res who nt now) w = (r, w1)" by fastforce
  have "j \<noteq> i" using assms(4) ResRecord by (simp add: bystander_roles)
  moreover have "w_db w' = w_db w1" "w_moves w' = w_moves w1" "bystander i k'"
    using assms(1) ResRecord s by (auto split: sum.splits if_splits)
  ultimately show ?thesis by (intro stuck_write [OF s assms(2)]) (simp_all add: assms(3))
next
  case (ResRevert j e)
  obtain r w1 where s: "write_section j (\<lambda>t. t\<lparr>t_status := DISPUTED\<rparr>) w = (r, w1)" by fastforce
  have "j \<noteq> i" using assms(4) ResRevert by (simp add: bystander_roles)
  moreover have "w_db w' = w_db w1" "w_moves w' = w_moves w1" "bystander i k'"
    using assms(1) ResRevert s by (auto split: sum.splits)
  ultimately show ?thesis by (intro stuck_write [OF s assms(2)]) (simp_all add: assms(3))
qed (use assms in \<open>auto simp: stuck_same\<close>)

lemma stuck_mark:
  assumes "mark_step cfg io k w = (k', w')" and "distinct (trade_ids (w_db w))" and "cancelled_row i w"
    and "bystander i k"
  shows "stuck_step i w k' w'"
proof (cases k)
  case (MarkCas j p)
  from assms(1) show ?thesis
    unfolding MarkCas mark_step.simps cas_fiat_sent_def
    by (elim stuck_cas [OF _ assms(2) _ _ assms(3), where j = j]) (auto simp: bystander_roles)
qed (use assms in \<open>auto simp: stuck_same\<close>)

lemma stuck_lock:
  assumes "lock_step cfg io k w = (k', w')" and "distinct (trade_ids (w_db w))" and "cancelled_row i w"
    and "bystander i k"
  shows "stuck_step i w k' w'"
proof (cases k)
  case (LockGet j a)
  have "j \<noteq> i" using assms(4) LockGet by (simp add: bystander_roles)
  with assms(1) LockGet have "w' = w" "bystander i k'"
    by (auto simp: bystander_roles get_trade_Inr dest: find_trade_id split: sum.splits if_splits)
  with assms(3) show ?thesis by (simp add: stuck_same)
next
  case (LockWallet t a)
  have "t_id t \<noteq> i" using assms(4) LockWallet by (simp add: bystander_roles)
  with assms(1) LockWallet have "w' = w" "bystander i k'"
    by (auto simp: bystander_roles split: sum.splits if_splits)
  with assms(3) show ?thesis by (simp add: stuck_same)
next
  case (LockSend t a)
  obtain r w1 where s: "escrow_call cfg io (t_id t) Lock (Some a) None (t_crypto_amount t) (t_crypto_chain t) w = (r, w1)"
    by fastforce
  have "t_id t \<noteq> i" using assms(4) LockSend by (simp add: bystander_roles)
  moreover have "w' = w1" "bystander i k'"
    using assms(1) LockSend s calculation by (auto simp: send_defs bystander_roles split: sum.splits)
  ultimately show ?thesis using stuck_send [OF s _ assms(3)] by simp
next
  case (LockRecord j tx)
  obtain r w1 where s: "write_section j (\<lambda>t. t\<lparr>t_status := ESCROW_LOCKED, t_escrow_lock_tx := Some tx\<rparr>) w = (r, w1)" by fastforce
  have "j \<noteq> i" using assms(4) LockRecord by (simp add: bystander_roles)
  moreover have "w' = w1" "k' = Done r" using assms(1) LockRecord s by auto
  ultimately show ?thesis by (intro stuck_write [OF s assms(2)]) (simp_all add: assms(3))
qed (use assms in \<open>auto simp: stuck_same\<close>)

lemma stuck_p2p:
  assumes "p2p_step cfg io k w = (k', w')" and "distinct (trade_ids (w_db w))" and "cancelled_row i w"
    and "bystander i k"
  shows "stuck_step i w k' w'"
  using assms(1)
proof (cases rule: p2p_step_opE)
  case release
  from stuck_release [OF this assms(2-4)] show ?thesis .
next
  case cancel
  from stuck_cancel [OF this assms(2-4)] show ?thesis .
next
  case dispute
  from stuck_dispute [OF this assms(2-4)] show ?thesis .
next
  case resolve
  from stuck_resolve [OF this assms(2-4)] show ?thesis .
next
  case mark
  from stuck_mark [OF this assms(2-4)] show ?thesis .
next
  case lock
  from stuck_lock [OF this assms(2-4)] show ?thesis .
qed

text \<open>C37: A refund that fails strands the escrow: cancelling a locked trade marks it cancelled
  before the refund is sent, so when the transfer is not sent the call raises with the trade
  already cancelled, and no interleaving of operations without a new lock ever moves its
  funds again.\<close>

theorem failed_refund_strands:
  assumes "distinct (trade_ids (w_db w))" and "cancel_checks cfg i override (w_db w) = Inr (CanReserve t a)"
    and "io_outcome io = NotSent e" and "cancel_trade cfg io i override w = (r, w1)"
    and "p2p_runs (\<lambda>_ k. \<not> locking i k) (\<lambda>_. True) cfg (w1, {#}) (w', M)"
  shows "(\<exists>err. r = Inl err) \<and> cancelled_row i w' \<and> settlements i w' = settlements i w"
proof -
  obtain row: "find_trade i (w_db w) = Some t" "native t" "t_status t = ESCROW_LOCKED"
    using assms(2) by (rule cancel_checks_ok) auto
  have id: "t_id t = i" using find_trade_id [OF row(1)] .
  let ?P = "\<lambda>x. t_id x = t_id t \<and> native x \<and> t_status x = ESCROW_LOCKED"
  let ?f = "\<lambda>x :: P2PTrade. x\<lparr>t_status := CANCELLED\<rparr>"
  from row id obtain db where u: "update_trades ?P ?f (w_db w) = (True, db)"
    using update_trades_wins [of i "w_db w" t ?P ?f] by auto
  have at: "find_trade i db = Some (?f t)" using update_trades_won [OF u assms(1), of i] row(1) id by auto
  have dd: "distinct (trade_ids db)"
    using terms_ids [OF update_trades_terms [OF _ u]] assms(1) by (simp add: trade_ids_def)
  obtain r1 w2 where s: "escrow_call cfg io (t_id t) Refund None (Some a) (t_crypto_amount t) (t_crypto_chain t) (put_db w db) = (r1, w2)"
    by fastforce
  from not_sent [OF s assms(3)] obtain err where w2: "w2 = put_db w db" "r1 = Inl err" by blast
  have res: "cancel_trade cfg io i override w = (Inl err, put_db w db)"
    using assms(2) u s w2 by (simp add: cancel_trade_code reserve_for_cancel_def send_defs)
  with assms(4) have w1: "w1 = put_db w db" "r = Inl err" by simp_all
  let ?I = "\<lambda>x M. distinct (trade_ids (w_db x)) \<and> cancelled_row i x \<and> settlements i x = settlements i w
     \<and> (\<forall>k\<in>#M. bystander i k)"
  have "?I w' M"
  proof (rule p2p_runs_invariant [OF assms(5)])
    show "?I w1 {#}" using w1 at dd by (simp add: cancelled_row_def put_db_def settlements_def)
  next
    fix x :: world and M :: "pc multiset" and k
    assume "?I x M" "starts k" "\<not> locking i k"
    moreover have "bystander i k" using \<open>starts k\<close> \<open>\<not> locking i k\<close> by (cases k) (simp_all add: starts_def bystander_roles)
    ultimately show "?I x (add_mset k M)" by simp
  next
    fix x y :: world and M :: "pc multiset" and k k' io'
    assume i: "?I x (add_mset k M)" and st: "p2p_step cfg io' k x = (k', y)"
    then have "stuck_step i x k' y" by (intro stuck_p2p [OF st]) simp_all
    with i step_distinct [OF st] show "?I y (add_mset k' M)" by (simp add: stuck_step_def)
  qed
  with w1 show ?thesis by blast
qed

subsection \<open>Witnesses\<close>

lemma sample_distinct: "distinct (trade_ids (w_db (sample_world s)))"
  by (simp add: sample_world_def trade_ids_def)

lemma sample_trade_status [simp]: "sample_trade s\<lparr>t_status := s'\<rparr> = sample_trade s'"
  by (simp add: sample_trade_def)

lemma sample_release_checks:
  "release_checks sample_cfg 1 None (w_db (sample_world s)) = Inr (sample_trade s, ''0xb'')"
  by (simp add: sample_p2p_defs release_checks_def get_trade_def find_trade_def native_def source_value_def
      resolve_payout_def norm_address_def)

lemma sample_resolve_checks:
  "resolve_checks sample_cfg 1 ''release'' (w_db (sample_world DISPUTED)) = Inr (sample_trade DISPUTED, ''0xb'')"
  by (simp add: sample_p2p_defs resolve_checks_def get_trade_def find_trade_def native_def source_value_def
      resolve_payout_def norm_address_def)

lemma sample_cancel_checks:
  "cancel_checks sample_cfg 1 None (w_db (sample_world ESCROW_LOCKED)) = Inr (CanReserve (sample_trade ESCROW_LOCKED) ''0xs'')"
  by (simp add: sample_p2p_defs cancel_checks_def get_trade_def find_trade_def native_def source_value_def
      resolve_payout_def norm_address_def)

lemma sample_accepts: "accepts sample_cfg (w_db (sample_world s)) Release (sample_trade s) ''0xb''"
proof -
  have "guard_chain sample_cfg ''base'' = Inr ()" "escrow_chain sample_cfg ''base'' = ''base''"
    by (simp_all add: guard_chain_def allowed_chains_def setting_words_def sample_cfg_def escrow_chain_def py_or_def
        strip_def Let_def)
  moreover have "p2p_escrow_token sample_cfg = ''USDC''" "executor_wired sample_cfg" by (simp_all add: sample_cfg_def)
  moreover have "t_id (sample_trade s) = 1" "t_crypto_amount (sample_trade s) = ''5''" "t_crypto_chain (sample_trade s) = ''base''"
    by (simp_all add: sample_trade_def)
  ultimately show ?thesis using sample_request by (simp add: accepts_def)
qed

lemma sample_trade_row: "t_escrow_release_tx (sample_trade s) = None" "t_status (sample_trade s) = s"
  by (simp_all add: sample_trade_def)

lemma sample_settlements: "settlements 1 (sample_world s) = 0"
  by (simp add: settlements_def sample_world_def)

text \<open>The sample release as an uninterrupted call of the system.\<close>

lemma sample_release_call:
  "\<exists>t w. call sample_cfg sample_io (RelGet 1 None) (sample_world FIAT_SENT) = (Inr t, w) \<and> w_moves w = [sample_paid]"
  using sample_release by (auto simp: release_escrow_def split: prod.splits sum.splits)

lemma sample_trade_run:
  assumes "admit {#} (RelGet 1 None)" and "outcomes (io_outcome sample_io)"
  shows "\<exists>w M. p2p_runs admit outcomes sample_cfg (sample_world FIAT_SENT, {#}) (w, M) \<and> w_moves w = [sample_paid]"
proof -
  let ?k = "RelGet 1 None"
  obtain k' w where r: "p2p_run 4 sample_cfg sample_io ?k (sample_world FIAT_SENT) = (k', w)" by fastforce
  obtain t w0 where c: "call sample_cfg sample_io ?k (sample_world FIAT_SENT) = (Inr t, w0)" "w_moves w0 = [sample_paid]"
    using sample_release_call by blast
  have "w0 = w" using c(1) r by (simp add: call_def split: pc.splits)
  have "p2p_sys admit outcomes sample_cfg (sample_world FIAT_SENT, {#}) (sample_world FIAT_SENT, {#?k#})"
    by (rule p2p_sys.start [where admit = admit, OF _ assms(1)]) (simp add: starts_def)
  moreover have "p2p_runs admit outcomes sample_cfg (sample_world FIAT_SENT, {#?k#}) (w, {#k'#})"
    using run_is_runs [of outcomes sample_io admit sample_cfg "sample_world FIAT_SENT" ?k "{#}" 4, OF assms(2)] r by simp
  ultimately have "p2p_runs admit outcomes sample_cfg (sample_world FIAT_SENT, {#}) (w, {#k'#})"
    by (simp add: p2p_runs_def converse_rtranclp_into_rtranclp)
  with c(2) \<open>w0 = w\<close> show ?thesis by blast
qed

theorem payouts_go_to_recorded_addresses_witness:
  "\<exists>db. paid_as_recorded sample_cfg db sample_paid"
proof -
  obtain w M where r: "p2p_runs (\<lambda>_ _. True) (\<lambda>_. True) sample_cfg (sample_world FIAT_SENT, {#}) (w, M)"
    and m: "w_moves w = [sample_paid]"
    using sample_trade_run [of "\<lambda>_ _. True" "\<lambda>_. True"] by auto
  have "w_moves (sample_world FIAT_SENT) = []" by (simp add: sample_world_def)
  from payouts_go_to_recorded_addresses [OF r sample_distinct this, of sample_paid] m show ?thesis by auto
qed


theorem operations_return_witness:
  "\<exists>r w. call sample_cfg sample_io (RelGet 1 None) (sample_world FIAT_SENT) = (r, w)"
  using operations_return [of "RelGet 1 None" sample_cfg sample_io "sample_world FIAT_SENT"] by (auto simp: starts_def)

theorem call_is_run_witness:
  "\<exists>r w. p2p_runs (serial 1) definite sample_cfg (sample_world FIAT_SENT, {#}) (w, {#Done r#})"
proof -
  have "starts (RelGet 1 None)" "serial 1 {#} (RelGet 1 None)" "definite (io_outcome sample_io)"
    by (simp_all add: starts_def serial_def roles definite_def sample_io_def)
  from call_is_run [where admit = "serial 1" and outcomes = definite, OF this] sample_release_call show ?thesis by blast
qed


theorem ambiguous_resolution_pays_twice_witness:
  "\<exists>w1 w2 t'. resolve_dispute sample_cfg \<lparr>io_now = 1, io_outcome = SentAmbiguous ''timeout''\<rparr> 1 ''release'' 9 None
       (sample_world DISPUTED) = (Inl (Raised ''timeout''), w1)
     \<and> resolve_dispute sample_cfg sample_io 1 ''release'' 9 None w1 = (Inr t', w2) \<and> settlements 1 w2 = 2"
  using ambiguous_resolution_pays_twice [OF sample_distinct sample_resolve_checks sample_trade_row(1) sample_accepts,
      of "\<lparr>io_now = 1, io_outcome = SentAmbiguous ''timeout''\<rparr>" "''timeout''" sample_io "''0xpaid''" 9 None]
  by (simp add: sample_io_def sample_settlements numeral_2_eq_2)

theorem overlapping_releases_pay_twice_witness:
  "\<exists>w' M. p2p_runs (\<lambda>_ _. True) definite sample_cfg (sample_world FIAT_SENT, {#}) (w', M) \<and> settlements 1 w' = 2"
  using overlapping_releases_pay_twice [OF sample_distinct sample_release_checks _ sample_trade_row(1) sample_accepts, of FIAT_SENT]
  by (simp add: sample_trade_row sample_settlements numeral_2_eq_2)

theorem failed_refund_strands_witness:
  "\<exists>r w1. cancel_trade sample_cfg \<lparr>io_now = 1, io_outcome = NotSent ''rpc down''\<rparr> 1 None (sample_world ESCROW_LOCKED) = (r, w1)
     \<and> cancelled_row 1 w1 \<and> settlements 1 w1 = 0"
proof -
  let ?io = "\<lparr>io_now = 1, io_outcome = NotSent ''rpc down''\<rparr>"
  obtain r w1 where c: "cancel_trade sample_cfg ?io 1 None (sample_world ESCROW_LOCKED) = (r, w1)" by fastforce
  have run: "p2p_runs (\<lambda>_ k. \<not> locking 1 k) (\<lambda>_. True) sample_cfg (w1, {#}) (w1, {#})" by (simp add: p2p_runs_def)
  have "io_outcome ?io = NotSent ''rpc down''" by simp
  from failed_refund_strands [OF sample_distinct sample_cancel_checks this c run] c show ?thesis
    by (simp add: sample_settlements)
qed


subsection \<open>Opening disputes\<close>

definition cap_ok :: "p2pdb \<Rightarrow> bool" where
  "cap_ok db = (\<forall>u. count_open_disputes u db \<le> MAX_OPEN_DISPUTES_PER_USER)"

lemma length_filter_upd:
  assumes "\<And>x. x \<in> set xs \<Longrightarrow> P x \<Longrightarrow> Q (f x) \<Longrightarrow> Q x"
  shows "length (filter Q (upd_where P f xs)) \<le> length (filter Q xs)"
  using assms by (induction xs) auto

lemma length_filter_upd_one:
  assumes "distinct (map k xs)" and "\<And>x. P x \<Longrightarrow> k x = i"
  shows "length (filter Q (upd_where P f xs)) \<le> Suc (length (filter Q xs))"
  using assms
proof (induction xs)
  case (Cons x xs)
  show ?case
  proof (cases "P x")
    case True
    have "upd_where P f xs = xs"
    proof (rule upd_where_idem)
      fix y
      assume "y \<in> set xs" "P y"
      with Cons.prems True show "f y = y" by (metis distinct.simps(2) image_eqI list.simps(9) set_map)
    qed
    with True show ?thesis by simp
  next
    case False
    with Cons show ?thesis by simp
  qed
qed simp

lemma upd_where_twice:
  assumes "\<And>x. P x \<Longrightarrow> Q x" and "\<And>x. Q (f x) = Q x"
  shows "upd_where Q g (upd_where P f xs) = upd_where Q (\<lambda>x. g (if P x then f x else x)) xs"
  using assms by (induction xs) auto

text \<open>No user freezes more than five escrows: a call of open_dispute that starts from a
  database in which every user has at most five open disputes ends in one.\<close>

theorem dispute_cap_kept:
  assumes "open_dispute cfg io i reason opened_by w = (r, w')" and "cap_ok (w_db w)" and "distinct (trade_ids (w_db w))"
  shows "cap_ok (w_db w')"
proof -
  let ?P = "\<lambda>t. t_id t = i \<and> native t \<and> t_escrow_lock_tx t \<noteq> None \<and> t_escrow_release_tx t = None
         \<and> t_status t \<in> {ESCROW_LOCKED, FIAT_SENT}"
  let ?f = "\<lambda>t :: P2PTrade. t\<lparr>t_status := DISPUTED\<rparr>"
  consider (same) "w' = w"
    | (won) u db where "count_open_disputes u (w_db w) < MAX_OPEN_DISPUTES_PER_USER"
        "update_trades ?P ?f (w_db w) = (True, db)"
        "write_section i (\<lambda>t. t\<lparr>t_dispute_reason := Some reason, t_disputed_at := Some (io_now io),
           t_disputed_by := Some u\<rparr>) (put_db w db) = (r, w')"
  proof (cases "dispute_checks i opened_by (w_db w)")
    case (Inl e)
    with assms(1) same show thesis by (simp add: open_dispute_code)
  next
    case (Inr u)
    obtain b db where rd: "reserve_for_dispute i (w_db w) = (b, db)" by fastforce
    show thesis
    proof (cases "count_open_disputes u (w_db w) \<ge> MAX_OPEN_DISPUTES_PER_USER")
      case True
      with assms(1) Inr same show thesis by (simp add: open_dispute_code)
    next
      case False
      show thesis
      proof (cases b)
        case True
        with False assms(1) Inr rd won [of u db] show thesis by (simp add: open_dispute_code reserve_for_dispute_def)
      next
        case b: False
        with rd have "db = w_db w" by (auto simp: reserve_for_dispute_def dest: update_trades_lost)
        with False b assms(1) Inr rd same show thesis by (simp add: open_dispute_code)
      qed
    qed
  qed
  then show ?thesis
  proof cases
    case same
    with assms(2) show ?thesis by simp
  next
    case (won u db)
    let ?g = "\<lambda>t. t\<lparr>t_dispute_reason := Some reason, t_disputed_at := Some (io_now io), t_disputed_by := Some u\<rparr>"
    let ?h = "\<lambda>x. ?g (if ?P x then ?f x else x)"
    have db: "pd_trades db = upd_where ?P ?f (pd_trades (w_db w))" using won(2) by (auto simp: update_trades_def)
    have ft: "find_trade i db \<noteq> None"
      using update_trades_won [OF won(2) assms(3), of i] by auto
    with won(3) have "pd_trades (w_db w') = upd_where (\<lambda>t. t_id t = i) ?g (pd_trades db)"
      by (auto simp: write_section_def update_trade_def update_trades_def)
    then have rows: "pd_trades (w_db w') = upd_where (\<lambda>t. t_id t = i) ?h (pd_trades (w_db w))"
      unfolding db by (subst (asm) upd_where_twice) simp_all
    show ?thesis unfolding cap_ok_def
    proof
      fix v
      show "count_open_disputes v (w_db w') \<le> MAX_OPEN_DISPUTES_PER_USER"
      proof (cases "v = u")
        case True
        have "count_open_disputes v (w_db w') \<le> Suc (count_open_disputes v (w_db w))"
          unfolding count_open_disputes_def rows
          by (rule length_filter_upd_one [where k = t_id and i = i])
            (use assms(3) in \<open>simp_all add: trade_ids_def\<close>)
        with won(1) True show ?thesis by simp
      next
        case False
        have "count_open_disputes v (w_db w') \<le> count_open_disputes v (w_db w)"
          unfolding count_open_disputes_def rows by (rule length_filter_upd) (use False in simp)
        with assms(2) show ?thesis using cap_ok_def order_trans by blast
      qed
    qed
  qed
qed

theorem dispute_cap_kept_witness:
  "\<exists>r w'. open_dispute sample_cfg sample_io 1 ''no fiat'' (Some 10) (sample_world FIAT_SENT) = (r, w') \<and> cap_ok (w_db w')"
proof -
  obtain r w' where o: "open_dispute sample_cfg sample_io 1 ''no fiat'' (Some 10) (sample_world FIAT_SENT) = (r, w')" by fastforce
  have "cap_ok (w_db (sample_world FIAT_SENT))"
    by (simp add: cap_ok_def count_open_disputes_def sample_world_def sample_trade_def)
  from dispute_cap_kept [OF o this sample_distinct] o show ?thesis by blast
qed

text \<open>An operator's address only confirms: when a release with an address argument is not
  refused for that address, it does exactly what the release without one does, and otherwise
  nothing is changed.\<close>

theorem release_override_only_confirms:
  "release_escrow cfg io i (Some a) w = release_escrow cfg io i None w
   \<or> (\<exists>e. release_escrow cfg io i (Some a) w = (Inl e, w) \<and> e \<in> {InvalidAddress, AddressMismatch})"
proof (cases "\<exists>t. get_trade i (w_db w) = Inr t \<and> native t \<and> truthy (t_escrow_lock_tx t)")
  case False
  then have "release_checks cfg i (Some a) (w_db w) = release_checks cfg i None (w_db w)"
    by (cases "get_trade i (w_db w)") (auto simp: release_checks_def)
  then show ?thesis by (simp add: release_escrow_code)
next
  case True
  then obtain t where t: "get_trade i (w_db w) = Inr t" "native t" "truthy (t_escrow_lock_tx t)" by blast
  have "resolve_payout cfg (t_buyer_address t) (Some a) = resolve_payout cfg (t_buyer_address t) None
    \<or> resolve_payout cfg (t_buyer_address t) (Some a) \<in> {Inl InvalidAddress, Inl AddressMismatch}"
    unfolding resolve_payout_def Let_def by simp
  with t show ?thesis by (elim disjE) (auto simp: release_escrow_code release_checks_def)
qed

end
