(* ===== verification/P2POffers.thy ===== *)
theory P2POffers
  imports P2PService "HOL-Library.Product_Lexorder"
begin

text \<open>
  The offer side of \<open>bot/services/p2p_service.py\<close>: the native book, the ranking of all
  sources, and the opening of a trade.  The answers of the external providers are a
  parameter, as is the order in which the database returns the rows of an unordered query;
  instants are seconds, and texts are ASCII.  A quote's provider hints (\<open>raw\<close>)
  are not kept: nothing here reads them.
\<close>

subsection \<open>Quotes and their order\<close>

record P2POfferQuote =
  q_source :: string
  q_offer_id :: string
  q_offer_type :: string
  q_fiat_currency :: string
  q_crypto_asset :: string
  q_crypto_chain :: string
  q_price_per_unit :: pyfloat
  q_min_fiat_amount :: pyfloat
  q_max_fiat_amount :: pyfloat
  q_payment_methods :: "string list"
  q_region :: "string option"
  q_maker_handle :: "string option"
  q_completion_rate :: pyfloat
  q_trade_count :: int
  q_execution_url :: "string option"

text \<open>Floats in numerical order; a NaN, which no price of the book is, comes last.\<close>

instantiation pyfloat :: linorder
begin

definition less_pyfloat :: "pyfloat \<Rightarrow> pyfloat \<Rightarrow> bool" where
  "less_pyfloat a b = (fl_lt a b \<or> (a \<noteq> FNaN \<and> b = FNaN))"

definition less_eq_pyfloat :: "pyfloat \<Rightarrow> pyfloat \<Rightarrow> bool" where
  "less_eq_pyfloat a b = (a < b \<or> a = b)" for a b :: pyfloat

instance
proof
  fix x y z :: pyfloat
  show "(x < y) = (x \<le> y \<and> \<not> y \<le> x)"
    by (cases x; cases y) (auto simp: less_pyfloat_def less_eq_pyfloat_def)
  show "x \<le> x" by (simp add: less_eq_pyfloat_def)
  show "x \<le> y \<Longrightarrow> y \<le> z \<Longrightarrow> x \<le> z"
    by (cases x; cases y; cases z) (auto simp: less_pyfloat_def less_eq_pyfloat_def)
  show "x \<le> y \<Longrightarrow> y \<le> x \<Longrightarrow> x = y"
    by (cases x; cases y) (auto simp: less_pyfloat_def less_eq_pyfloat_def)
  show "x \<le> y \<or> y \<le> x"
    by (cases x; cases y) (auto simp: less_pyfloat_def less_eq_pyfloat_def)
qed

end

definition has_price :: "P2POfferQuote \<Rightarrow> bool" where
  "has_price o1 = fl_lt (Fin 0) (q_price_per_unit o1)"

definition rank_key :: "string \<Rightarrow> P2POfferQuote \<Rightarrow> nat \<times> pyfloat \<times> pyfloat \<times> int" where
  "rank_key offer_type o1 =
     (let price_key = (if offer_type = ''sell_crypto'' then q_price_per_unit o1 else fl_neg (q_price_per_unit o1))
      in (if has_price o1 then 0 else 1, price_key, fl_neg (q_completion_rate o1), - q_trade_count o1))"

definition rank :: "P2POfferQuote list \<Rightarrow> string \<Rightarrow> P2POfferQuote list" where
  "rank offers offer_type = sort_key (rank_key offer_type) offers"

subsection \<open>The native book\<close>

definition offer_to_quote :: "P2POffer \<Rightarrow> P2POfferQuote" where
  "offer_to_quote f =
     \<lparr>q_source = source_value NATIVE, q_offer_id = int_str (o_id f), q_offer_type = o_offer_type f,
      q_fiat_currency = o_fiat_currency f, q_crypto_asset = o_crypto_asset f, q_crypto_chain = o_crypto_chain f,
      q_price_per_unit = fl_of_dec (o_price_per_unit f), q_min_fiat_amount = fl_of_dec (o_min_fiat_amount f),
      q_max_fiat_amount = fl_of_dec (o_max_fiat_amount f), q_payment_methods = o_payment_methods f,
      q_region = o_region f, q_maker_handle = Some (''user:'' @ int_str (o_maker_user_id f)),
      q_completion_rate = (if o_completion_rate f = Fin 0 then Fin 1 else o_completion_rate f),
      q_trade_count = o_trade_count f, q_execution_url = None\<rparr>"

text \<open>\<open>scan\<close>: the order of the rows of a query that asks for none.\<close>

definition native_offers ::
  "(P2POffer list \<Rightarrow> P2POffer list) \<Rightarrow> p2pdb \<Rightarrow> string \<Rightarrow> string \<Rightarrow> string \<Rightarrow> pyfloat option \<Rightarrow> nat \<Rightarrow> P2POfferQuote list" where
  "native_offers scan db offer_type fiat_currency crypto_asset fiat_amount limit =
     map offer_to_quote (take limit (scan
       (filter (\<lambda>f. o_status f = offer_status_value OFFER_ACTIVE \<and> o_offer_type f = offer_type
            \<and> o_fiat_currency f = upper fiat_currency \<and> o_crypto_asset f = upper crypto_asset
            \<and> (case fiat_amount of
                 None \<Rightarrow> True
               | Some a \<Rightarrow> a = Fin 0 \<or> (fl_le (fl_of_dec (o_min_fiat_amount f)) a \<and> fl_le a (fl_of_dec (o_max_fiat_amount f)))))
         (pd_offers db))))"

text \<open>\<open>external\<close>: what each configured provider returned or raised.\<close>

definition list_offers ::
  "p2p_cfg \<Rightarrow> (P2POffer list \<Rightarrow> P2POffer list) \<Rightarrow> p2pdb \<Rightarrow> (string + P2POfferQuote list) list \<Rightarrow> string \<Rightarrow> string \<Rightarrow> string
     \<Rightarrow> pyfloat option \<Rightarrow> nat \<Rightarrow> P2POfferQuote list" where
  "list_offers cfg scan db external offer_type fiat_currency crypto_asset fiat_amount limit =
     (if \<not> p2p_enabled cfg then []
      else
        let results = Inr (native_offers scan db offer_type fiat_currency crypto_asset fiat_amount limit) # external;
            offers = concat (map (\<lambda>r. case r of Inl _ \<Rightarrow> [] | Inr q \<Rightarrow> q) results)
        in take limit (rank offers offer_type))"

definition dec_of_float :: "pyfloat \<Rightarrow> dec" where
  "dec_of_float x = (case dec_parse (fl_repr x) of Some d \<Rightarrow> d | None \<Rightarrow> DNaN False)"

text \<open>
  A column \<open>NUMERIC(20, places)\<close>: the value is rounded half away from zero to \<open>places\<close> decimals, and
  refused when that has more than twenty digits.
\<close>

definition numeric_column :: "nat \<Rightarrow> dec \<Rightarrow> dec option" where
  "numeric_column places d =
     (case d of
        Dec s c e \<Rightarrow>
          let q = (if - int places \<le> e then c * 10 ^ nat (e + int places)
                   else let k = 10 ^ nat (- int places - e) in (2 * c + k) div (2 * k))
          in if q < 10 ^ 20 then Some (Dec (s \<and> q \<noteq> 0) q (- int places)) else None
      | DInf s \<Rightarrow> None
      | DNaN b \<Rightarrow> Some (DNaN False))"

record new_offer =
  n_maker_user_id :: int
  n_maker_wallet_id :: "int option"
  n_offer_type :: string
  n_fiat_currency :: string
  n_crypto_asset :: string
  n_crypto_chain :: string
  n_price_per_unit :: pyfloat
  n_min_fiat_amount :: pyfloat
  n_max_fiat_amount :: pyfloat
  n_payment_methods :: "string list"
  n_region :: "string option"
  n_terms :: "string option"
  n_payment_window_minutes :: int
  n_available_crypto :: "string option"

text \<open>A wallet that is not there violates the offer's foreign key.\<close>

definition create_offer :: "new_offer \<Rightarrow> p2pdb \<Rightarrow> p2p_error + (int \<times> p2pdb)" where
  "create_offer n db =
     (if n_offer_type n \<noteq> offer_type_value SELL_CRYPTO \<and> n_offer_type n \<noteq> offer_type_value BUY_CRYPTO
      then Inl InvalidOfferType
      else if fl_lt (n_max_fiat_amount n) (n_min_fiat_amount n) then Inl LimitsReversed
      else if fl_le (n_price_per_unit n) (Fin 0) then Inl PriceNotPositive
      else
        case (numeric_column 6 (dec_of_float (n_price_per_unit n)), numeric_column 2 (dec_of_float (n_min_fiat_amount n)),
              numeric_column 2 (dec_of_float (n_max_fiat_amount n))) of
          (Some price, Some min_fiat, Some max_fiat) \<Rightarrow>
            if (case n_maker_wallet_id n of None \<Rightarrow> False | Some wid \<Rightarrow> find_wallet wid db = None)
            then Inl (Raised ''IntegrityError'')
            else
              let i = next_id (map o_id (pd_offers db));
                  f = \<lparr>o_id = i, o_maker_user_id = n_maker_user_id n, o_maker_wallet_id = n_maker_wallet_id n,
                       o_source = source_value NATIVE, o_offer_type = n_offer_type n, o_status = offer_status_value OFFER_ACTIVE,
                       o_fiat_currency = upper (n_fiat_currency n), o_crypto_asset = upper (n_crypto_asset n),
                       o_crypto_chain = n_crypto_chain n, o_price_per_unit = price,
                       o_min_fiat_amount = min_fiat, o_max_fiat_amount = max_fiat,
                       o_available_crypto = n_available_crypto n, o_payment_methods = n_payment_methods n,
                       o_region = (if truthy (n_region n) then map_option upper (n_region n) else None),
                       o_terms = n_terms n, o_payment_window_minutes = n_payment_window_minutes n,
                       o_completion_rate = Fin 1, o_trade_count = 0\<rparr>
              in Inr (i, db\<lparr>pd_offers := pd_offers db @ [f]\<rparr>)
        | _ \<Rightarrow> Inl (Raised ''DataError''))"

definition set_offer_status :: "int \<Rightarrow> int \<Rightarrow> string \<Rightarrow> p2pdb \<Rightarrow> bool \<times> p2pdb" where
  "set_offer_status offer_id maker_user_id status db =
     (let mine = (\<lambda>f. o_id f = offer_id \<and> o_maker_user_id f = maker_user_id)
      in if \<exists>f\<in>set (pd_offers db). mine f
         then (True, db\<lparr>pd_offers := upd_where mine (\<lambda>f. f\<lparr>o_status := status\<rparr>) (pd_offers db)\<rparr>)
         else (False, db))"

subsection \<open>Opening a trade\<close>

text \<open>The row is refused as a whole when a column does not fit or its offer does not exist.\<close>

definition restricted_regions :: "p2p_cfg \<Rightarrow> string list" where
  "restricted_regions cfg = setting_words upper (p2p_restricted_regions cfg)"

definition load_maker :: "int \<Rightarrow> p2pdb \<Rightarrow> int option \<times> string option" where
  "load_maker i db =
     (case find_offer i db of
        None \<Rightarrow> (None, None)
      | Some f \<Rightarrow>
          (Some (o_maker_user_id f),
           case o_maker_wallet_id f of
             None \<Rightarrow> None
           | Some wid \<Rightarrow> if wid = 0 then None else map_option wa_address (find_wallet wid db)))"

definition crypto_amount :: "pyfloat \<Rightarrow> pyfloat \<Rightarrow> string" where
  "crypto_amount fiat price =
     (if fl_lt (Fin 0) price then (case fl_div fiat price of Some v \<Rightarrow> fl_repr v | None \<Rightarrow> []) else ''0'')"

text \<open>The parties' addresses: (maker, buyer address, seller address).\<close>

definition trade_parties ::
  "p2p_cfg \<Rightarrow> string option \<Rightarrow> P2POfferQuote \<Rightarrow> p2pdb \<Rightarrow> p2p_error + (int option \<times> int option \<times> string option \<times> string option)" where
  "trade_parties cfg taker_wallet_address q db =
     (if q_source q \<noteq> source_value NATIVE then Inr (None, None, None, None)
      else case py_int (q_offer_id q) of
        None \<Rightarrow> Inl (Raised ''ValueError'')
      | Some i \<Rightarrow>
          let (maker, maker_address) = load_maker i db;
              taker_norm = norm_address cfg taker_wallet_address;
              maker_norm = norm_address cfg maker_address;
              (buyer, seller) = (if q_offer_type q = offer_type_value SELL_CRYPTO then (taker_norm, maker_norm)
                                 else (maker_norm, taker_norm))
          in if \<not> truthy buyer then Inl NoBuyerAddress else Inr (Some i, maker, buyer, seller))"

definition new_trade ::
  "int \<Rightarrow> int \<Rightarrow> int \<Rightarrow> P2POfferQuote \<Rightarrow> pyfloat \<Rightarrow> dec \<Rightarrow> dec \<Rightarrow> string
     \<Rightarrow> int option \<times> int option \<times> string option \<times> string option \<Rightarrow> P2PTrade" where
  "new_trade i now taker q fiat fiat_column price_column payment_method parties =
     (case parties of (offer_id, maker, buyer, seller) \<Rightarrow>
        \<lparr>t_id = i, t_source = q_source q, t_offer_id = offer_id,
         t_external_offer_id = (if q_source q \<noteq> source_value NATIVE then Some (q_offer_id q) else None),
         t_taker_user_id = taker, t_maker_user_id = maker, t_counterparty_handle = q_maker_handle q,
         t_status = INITIATED, t_offer_type = q_offer_type q, t_fiat_currency = q_fiat_currency q,
         t_crypto_asset = q_crypto_asset q, t_crypto_chain = q_crypto_chain q,
         t_fiat_amount = fiat_column, t_crypto_amount = crypto_amount fiat (q_price_per_unit q),
         t_price_per_unit = price_column, t_payment_method = payment_method,
         t_escrow_lock_tx = None, t_escrow_release_tx = None, t_buyer_address = buyer, t_seller_address = seller,
         t_fiat_payment_ref = None, t_dispute_reason = None, t_disputed_at = None, t_disputed_by = None,
         t_dispute_resolution = None, t_resolved_by = None, t_resolved_at = None, t_resolution_note = None,
         t_expires_at = Some (now + 30 * 60), t_completed_at = None\<rparr>)"

definition start_trade ::
  "p2p_cfg \<Rightarrow> int \<Rightarrow> int \<Rightarrow> string option \<Rightarrow> P2POfferQuote \<Rightarrow> pyfloat \<Rightarrow> string \<Rightarrow> string option \<Rightarrow> p2pdb
     \<Rightarrow> (p2p_error + P2PTrade) \<times> p2pdb" where
  "start_trade cfg now taker taker_wallet_address q fiat payment_method region db =
     (if truthy region \<and> upper (the region) \<in> set (restricted_regions cfg) then (Inl RegionBlocked, db)
      else if fl_le fiat (Fin 0) then (Inl AmountNotPositive, db)
      else if has_price q \<and> (fl_lt fiat (q_min_fiat_amount q) \<or> fl_lt (q_max_fiat_amount q) fiat)
        then (Inl AmountOutOfRange, db)
      else case trade_parties cfg taker_wallet_address q db of
        Inl e \<Rightarrow> (Inl e, db)
      | Inr parties \<Rightarrow>
          (case (numeric_column 2 (dec_of_float fiat), numeric_column 6 (dec_of_float (q_price_per_unit q))) of
             (Some fiat_column, Some price_column) \<Rightarrow>
               if (case fst parties of None \<Rightarrow> False | Some offer_id \<Rightarrow> find_offer offer_id db = None)
               then (Inl (Raised ''IntegrityError''), db)
               else
                 let i = next_id (map t_id (pd_trades db));
                     db' = db\<lparr>pd_trades := pd_trades db @ [new_trade i now taker q fiat fiat_column price_column payment_method parties]\<rparr>
                 in (get_trade i db', db')
           | _ \<Rightarrow> (Inl (Raised ''DataError''), db)))"

end
