(* ===== verification/P2PBook.thy ===== *)
theory P2PBook
  imports P2POffers P2PCalls
begin

text \<open>
  What the list of offers promises (the best price of all sources first) and what a trade that
  is opened has passed.
\<close>

subsection \<open>The order of the list\<close>

text \<open>What the sources returned, before ranking.\<close>

definition candidates ::
  "(P2POffer list \<Rightarrow> P2POffer list) \<Rightarrow> p2pdb \<Rightarrow> (string + P2POfferQuote list) list \<Rightarrow> string \<Rightarrow> string \<Rightarrow> string \<Rightarrow> pyfloat option \<Rightarrow> nat \<Rightarrow> P2POfferQuote list" where
  "candidates scan db external offer_type fiat_currency crypto_asset fiat_amount limit =
     native_offers scan db offer_type fiat_currency crypto_asset fiat_amount limit @
     concat (map (\<lambda>r. case r of Inl _ \<Rightarrow> [] | Inr q \<Rightarrow> q) external)"

lemma list_offers_candidates:
  "p2p_enabled cfg \<Longrightarrow> list_offers cfg scan db external ot fc ca fa limit = take limit (rank (candidates scan db external ot fc ca fa limit) ot)"
  by (simp add: list_offers_def candidates_def)

lemma sorted_rank: "sorted (map (rank_key ot) (rank qs ot))"
  by (simp add: rank_def)

lemma set_rank: "set (rank qs ot) = set qs"
  by (simp add: rank_def)

lemma rank_key_price:
  assumes "rank_key ot x \<le> rank_key ot y" and "has_price y" and "q_price_per_unit x \<noteq> FNaN"
  shows "has_price x \<and> (if ot = ''sell_crypto'' then q_price_per_unit x \<le> q_price_per_unit y else q_price_per_unit y \<le> q_price_per_unit x)"
proof -
  have neg: "fl_neg a \<le> fl_neg b \<Longrightarrow> b \<le> a" if "a \<noteq> FNaN" "b \<noteq> FNaN" for a b
    using that by (cases a; cases b) (auto simp: less_eq_pyfloat_def less_pyfloat_def)
  have "q_price_per_unit y \<noteq> FNaN" using assms(2) by (auto simp: has_price_def)
  with assms neg show ?thesis by (auto simp: rank_key_def Let_def split: if_splits)
qed

text \<open>C16: The first offer of the list has a price whenever any source had one, and no source had a
  better one: for a buyer no lower price, for a seller no higher price.\<close>

theorem first_offer_is_best:
  assumes "p2p_enabled cfg" and "list_offers cfg scan db external ot fc ca fa limit = x # rest"
    and "y \<in> set (candidates scan db external ot fc ca fa limit)" and "has_price y" and "q_price_per_unit x \<noteq> FNaN"
  shows "has_price x \<and> (if ot = ''sell_crypto'' then q_price_per_unit x \<le> q_price_per_unit y else q_price_per_unit y \<le> q_price_per_unit x)"
proof -
  let ?r = "rank (candidates scan db external ot fc ca fa limit) ot"
  from assms(1,2) obtain ys where r: "?r = x # ys"
    by (cases ?r; cases limit) (simp_all add: list_offers_candidates)
  have "y \<in> set ?r" using assms(3) by (simp add: set_rank)
  with r sorted_rank [of ot "candidates scan db external ot fc ca fa limit"] have "rank_key ot x \<le> rank_key ot y" by auto
  then show ?thesis using assms(4,5) by (rule rank_key_price)
qed

lemma new_trade_fields:
  "t_id (new_trade i now taker q fiat fc pc pm ps) = i" "t_status (new_trade i now taker q fiat fc pc pm ps) = INITIATED"
  "t_expires_at (new_trade i now taker q fiat fc pc pm ps) = Some (now + 1800)"
  "t_buyer_address (new_trade i now taker q fiat fc pc pm ps) = fst (snd (snd ps))"
  "t_offer_id (new_trade i now taker q fiat fc pc pm ps) = fst ps" "t_fiat_amount (new_trade i now taker q fiat fc pc pm ps) = fc"
  by (simp_all add: new_trade_def split: prod.splits)

lemma native_buyer:
  "trade_parties cfg addr q db = Inr ps \<Longrightarrow> q_source q = source_value NATIVE \<Longrightarrow> truthy (fst (snd (snd ps)))"
  by (auto simp: trade_parties_def Let_def split: option.splits if_splits prod.splits)

text \<open>C17: A refused request changes nothing.  An opened trade was asked for outside the restricted regions, with an
  amount that is not below or equal to zero and, when the quote has a price, is within the limits of the quote; on the
  native book it names an offer that exists and a payout address of the buyer.  It stores the amount rounded to its
  column, and expires after half an hour whatever payment window the offer states.\<close>

theorem start_trade_guarded:
  assumes "start_trade cfg now taker addr q fiat pm region db = (r, db')"
  shows "(\<exists>e. r = Inl e) \<and> db' = db \<or>
    (\<exists>t. r = Inr t \<and> pd_trades db' = pd_trades db @ [t] \<and> t_id t \<notin> t_id ` set (pd_trades db) \<and>
       t_status t = INITIATED \<and> t_expires_at t = Some (now + 1800) \<and>
       \<not> (truthy region \<and> upper (the region) \<in> set (restricted_regions cfg)) \<and> \<not> fl_le fiat (Fin 0) \<and>
       (has_price q \<longrightarrow> \<not> fl_lt fiat (q_min_fiat_amount q) \<and> \<not> fl_lt (q_max_fiat_amount q) fiat) \<and>
       (q_source q = source_value NATIVE \<longrightarrow> truthy (t_buyer_address t) \<and> (\<exists>f\<in>set (pd_offers db). t_offer_id t = Some (o_id f))) \<and>
       numeric_column 2 (dec_of_float fiat) = Some (t_fiat_amount t))"
proof (cases "(\<exists>e. r = Inl e) \<and> db' = db")
  case False
  let ?i = "next_id (map t_id (pd_trades db))"
  have c1: "\<not> (truthy region \<and> upper (the region) \<in> set (restricted_regions cfg))"
    by (rule notI) (use assms False in \<open>auto simp: start_trade_def\<close>)
  have c2: "\<not> fl_le fiat (Fin 0)"
    by (rule notI) (use assms [unfolded start_trade_def if_not_P [OF c1]] False in auto)
  have c3: "\<not> (has_price q \<and> (fl_lt fiat (q_min_fiat_amount q) \<or> fl_lt (q_max_fiat_amount q) fiat))"
    by (rule notI) (use assms [unfolded start_trade_def if_not_P [OF c1] if_not_P [OF c2]] False in auto)
  note s = assms [unfolded start_trade_def if_not_P [OF c1] if_not_P [OF c2] if_not_P [OF c3] Let_def]
  from s False obtain ps where t: "trade_parties cfg addr q db = Inr ps" by (cases "trade_parties cfg addr q db") auto
  note s = s [unfolded t sum.case]
  from s False obtain fc pc where cols: "numeric_column 2 (dec_of_float fiat) = Some fc" "numeric_column 6 (dec_of_float (q_price_per_unit q)) = Some pc"
    by (cases "numeric_column 2 (dec_of_float fiat)"; cases "numeric_column 6 (dec_of_float (q_price_per_unit q))") auto
  have key: "\<not> (case fst ps of None \<Rightarrow> False | Some offer_id \<Rightarrow> find_offer offer_id db = None)"
    by (rule notI) (use s False cols in auto)
  from s key have d: "db' = db\<lparr>pd_trades := pd_trades db @ [new_trade ?i now taker q fiat fc pc pm ps]\<rparr>" "r = get_trade ?i db'"
    unfolding cols by auto
  have offer: "\<exists>f\<in>set (pd_offers db). fst ps = Some (o_id f)" if native: "q_source q = source_value NATIVE"
  proof -
    obtain k where k: "fst ps = Some k" using t native by (auto simp: trade_parties_def Let_def split: option.splits if_splits prod.splits)
    with key obtain f where "find_offer k db = Some f" by auto
    with k show ?thesis by (auto simp: find_offer_def dest: find_SomeD)
  qed
  have new: "?i \<notin> t_id ` set (pd_trades db)" using next_id_fresh [of _ "map t_id (pd_trades db)"] by fastforce
  then have "List.find (\<lambda>t. t_id t = ?i) (pd_trades db) = None" by (fastforce simp: find_None_iff image_iff)
  then have "r = Inr (new_trade ?i now taker q fiat fc pc pm ps)"
    using d by (simp add: get_trade_def find_trade_def find_append new_trade_fields)
  with d(1) c1 c2 c3 new native_buyer [OF t] offer cols(1) show ?thesis by (auto simp: new_trade_fields)
qed blast

subsection \<open>A sample book\<close>

definition sample_offer :: "int \<Rightarrow> nat \<Rightarrow> P2POffer" where
  "sample_offer i price =
     \<lparr>o_id = i, o_maker_user_id = 3, o_maker_wallet_id = Some 1, o_source = ''native'', o_offer_type = ''sell_crypto'',
      o_status = ''active'', o_fiat_currency = ''USD'', o_crypto_asset = ''USDC'', o_crypto_chain = ''base'',
      o_price_per_unit = Dec False price 0, o_min_fiat_amount = Dec False 1 0, o_max_fiat_amount = Dec False 100 0,
      o_available_crypto = None, o_payment_methods = [], o_region = None, o_terms = None, o_payment_window_minutes = 15,
      o_completion_rate = Fin 1, o_trade_count = 0\<rparr>"

definition sample_book :: p2pdb where
  "sample_book = \<lparr>pd_offers = [sample_offer 1 3, sample_offer 2 2], pd_trades = [],
     pd_wallets = [\<lparr>wa_id = 1, wa_user_id = 3, wa_address = ''0xm'', wa_chain_type = ''evm'', wa_is_active = True, wa_is_default = True\<rparr>],
     pd_hot_wallets = []\<rparr>"

lemma sample_listing:
  "map q_offer_id (list_offers sample_cfg id sample_book [] ''sell_crypto'' ''usd'' ''usdc'' None 5) = [''2'', ''1''] \<and>
   map q_offer_id (candidates id sample_book [] ''sell_crypto'' ''usd'' ''usdc'' None 5) = [''1'', ''2''] \<and>
   map q_price_per_unit (candidates id sample_book [] ''sell_crypto'' ''usd'' ''usdc'' None 5) = [Fin 3, Fin 2] \<and>
   map q_price_per_unit (list_offers sample_cfg id sample_book [] ''sell_crypto'' ''usd'' ''usdc'' None 5) = [Fin 2, Fin 3]"
  by code_simp

theorem first_offer_is_best_witness:
  "\<exists>x rest. list_offers sample_cfg id sample_book [] ''sell_crypto'' ''usd'' ''usdc'' None 5 = x # rest \<and> q_price_per_unit x \<le> Fin 3"
proof -
  obtain x rest where l: "list_offers sample_cfg id sample_book [] ''sell_crypto'' ''usd'' ''usdc'' None 5 = x # rest" "q_price_per_unit x = Fin 2"
    using sample_listing by auto
  obtain y ys where y: "candidates id sample_book [] ''sell_crypto'' ''usd'' ''usdc'' None 5 = y # ys" "q_price_per_unit y = Fin 3"
    using sample_listing by auto
  have "p2p_enabled sample_cfg" by code_simp
  from first_offer_is_best [OF this l(1), of y] y l(2) have "q_price_per_unit x \<le> q_price_per_unit y" by (simp add: has_price_def)
  with l(1) y(2) show ?thesis by metis
qed

definition sample_quote :: P2POfferQuote where
  "sample_quote = offer_to_quote (sample_offer 1 3)"

theorem start_trade_guarded_witness:
  "\<exists>t. start_trade sample_cfg 100 9 (Some ''0xt'') sample_quote (Fin 30) ''bank'' None sample_book =
     (Inr t, sample_book\<lparr>pd_trades := [t]\<rparr>) \<and> t_expires_at t = Some 1900 \<and> truthy (t_buyer_address t)"
proof -
  let ?s = "start_trade sample_cfg 100 9 (Some ''0xt'') sample_quote (Fin 30) ''bank'' None sample_book"
  have s: "isl (fst ?s) = False" "snd ?s = sample_book\<lparr>pd_trades := pd_trades (snd ?s)\<rparr>" "pd_trades sample_book = []"
    "q_source sample_quote = source_value NATIVE" by code_simp+
  from start_trade_guarded [OF prod.collapse [of ?s, symmetric]] s(1) obtain t where
    "fst ?s = Inr t" "pd_trades (snd ?s) = pd_trades sample_book @ [t]" "t_expires_at t = Some (100 + 1800)" "truthy (t_buyer_address t)"
    using s(4) by auto
  with s(2,3) have "?s = (Inr t, sample_book\<lparr>pd_trades := [t]\<rparr>)" by (simp add: prod_eq_iff)
  with \<open>t_expires_at t = _\<close> \<open>truthy _\<close> show ?thesis by auto
qed

end
