(* ===== verification/RefreshTokens.thy ===== *)
theory RefreshTokens
  imports Prelude
begin

text \<open>
  Session refresh tokens: \<open>bot/models/auth.py\<close> and \<open>bot/services/refresh_token_service.py\<close>.  The
  hash of a token is a parameter; opaque tokens and family ids come from the random source and
  are arguments.  A rotation is split at its queries: the lookup, and the write of the successor
  or the revocation of a family.
\<close>

subsection \<open>The table\<close>

record RefreshToken =
  rt_id :: int
  rt_user_id :: int
  rt_token_hash :: string
  rt_family_id :: string
  rt_address :: "string option"
  rt_client :: "string option"
  rt_issued_at :: int
  rt_expires_at :: int
  rt_revoked_at :: "int option"
  rt_replaced_by :: "string option"

type_synonym token_table = "RefreshToken list"

datatype token_error = DuplicateToken

definition REFRESH_TTL :: int where "REFRESH_TTL = 30 * 24 * 60 * 60"

definition find_token :: "string \<Rightarrow> token_table \<Rightarrow> RefreshToken option" where
  "find_token h db = List.find (\<lambda>r. rt_token_hash r = h) db"

definition insert_token :: "RefreshToken \<Rightarrow> token_table \<Rightarrow> token_error + token_table" where
  "insert_token r db =
     (if rt_token_hash r \<in> rt_token_hash ` set db then Inl DuplicateToken
      else Inr (db @ [r\<lparr>rt_id := next_id (map rt_id db)\<rparr>]))"

definition revoke_family :: "int \<Rightarrow> string \<Rightarrow> token_table \<Rightarrow> token_table" where
  "revoke_family now family db =
     upd_where (\<lambda>r. rt_family_id r = family \<and> rt_revoked_at r = None) (\<lambda>r. r\<lparr>rt_revoked_at := Some now\<rparr>) db"

subsection \<open>Operations\<close>

definition issue_refresh_token ::
  "(string \<Rightarrow> string) \<Rightarrow> int \<Rightarrow> string \<Rightarrow> string \<Rightarrow> int \<Rightarrow> string option \<Rightarrow> string option \<Rightarrow> string option \<Rightarrow> token_table
     \<Rightarrow> token_error + ((string \<times> int) \<times> token_table)" where
  "issue_refresh_token sha now token uuid user_id address client family_id db =
     (let expires_at = now + REFRESH_TTL
      in bindE (insert_token
           \<lparr>rt_id = 0, rt_user_id = user_id, rt_token_hash = sha token,
            rt_family_id = (if truthy family_id then the family_id else uuid), rt_address = address, rt_client = client,
            rt_issued_at = now, rt_expires_at = expires_at, rt_revoked_at = None, rt_replaced_by = None\<rparr> db)
         (\<lambda>db'. Inr ((token, expires_at), db')))"

datatype rotate_pc =
    RotStart
  | RotReuse string
  | RotWrite RefreshToken
  | RotDone "token_error + (int \<times> string option \<times> string \<times> int) option"

definition rotate_read :: "(string \<Rightarrow> string) \<Rightarrow> int \<Rightarrow> string \<Rightarrow> token_table \<Rightarrow> rotate_pc" where
  "rotate_read sha now token db =
     (case find_token (sha token) db of
        None \<Rightarrow> RotDone (Inr None)
      | Some row \<Rightarrow>
          if rt_revoked_at row \<noteq> None \<or> rt_replaced_by row \<noteq> None then RotReuse (rt_family_id row)
          else if rt_expires_at row \<le> now then RotDone (Inr None)
          else RotWrite row)"

definition successor :: "(string \<Rightarrow> string) \<Rightarrow> int \<Rightarrow> string \<Rightarrow> string option \<Rightarrow> RefreshToken \<Rightarrow> RefreshToken" where
  "successor sha now new_token client row =
     \<lparr>rt_id = 0, rt_user_id = rt_user_id row, rt_token_hash = sha new_token, rt_family_id = rt_family_id row,
      rt_address = rt_address row, rt_client = (if truthy client then client else rt_client row),
      rt_issued_at = now, rt_expires_at = now + REFRESH_TTL, rt_revoked_at = None, rt_replaced_by = None\<rparr>"

text \<open>The row that was read is written back by its primary key.\<close>

definition rotate_write ::
  "(string \<Rightarrow> string) \<Rightarrow> int \<Rightarrow> string \<Rightarrow> string option \<Rightarrow> RefreshToken \<Rightarrow> token_table \<Rightarrow> rotate_pc \<times> token_table" where
  "rotate_write sha now new_token client row db =
     (case insert_token (successor sha now new_token client row) db of
        Inl e \<Rightarrow> (RotDone (Inl e), db)
      | Inr db' \<Rightarrow>
          (RotDone (Inr (Some (rt_user_id row, rt_address row, new_token, now + REFRESH_TTL))),
           upd_where (\<lambda>r. rt_id r = rt_id row) (\<lambda>r. r\<lparr>rt_revoked_at := Some now, rt_replaced_by := Some (sha new_token)\<rparr>) db'))"

fun rotate_step ::
  "(string \<Rightarrow> string) \<Rightarrow> int \<Rightarrow> string \<Rightarrow> string \<Rightarrow> string option \<Rightarrow> rotate_pc \<Rightarrow> token_table \<Rightarrow> rotate_pc \<times> token_table" where
  "rotate_step sha now token new_token client RotStart db = (rotate_read sha now token db, db)"
| "rotate_step sha now token new_token client (RotReuse family) db = (RotDone (Inr None), revoke_family now family db)"
| "rotate_step sha now token new_token client (RotWrite row) db = rotate_write sha now new_token client row db"
| "rotate_step sha now token new_token client (RotDone r) db = (RotDone r, db)"

text \<open>A rotation that nothing interrupts: at most two sections.\<close>

definition rotate_refresh_token ::
  "(string \<Rightarrow> string) \<Rightarrow> int \<Rightarrow> string \<Rightarrow> string \<Rightarrow> string option \<Rightarrow> token_table \<Rightarrow> rotate_pc \<times> token_table" where
  "rotate_refresh_token sha now token new_token client db =
     (case rotate_step sha now token new_token client RotStart db of
        (pc, db') \<Rightarrow> rotate_step sha now token new_token client pc db')"

definition revoke_refresh_token :: "(string \<Rightarrow> string) \<Rightarrow> int \<Rightarrow> string \<Rightarrow> token_table \<Rightarrow> bool \<times> token_table" where
  "revoke_refresh_token sha now token db =
     (case find_token (sha token) db of
        None \<Rightarrow> (False, db)
      | Some row \<Rightarrow> (True, revoke_family now (rt_family_id row) db))"

subsection \<open>Routes\<close>

datatype auth_reply = MissingToken | InvalidToken | Refreshed int string string | ServerError

definition presented :: "string option \<Rightarrow> string option \<Rightarrow> string option" where
  "presented body cookie = (if truthy body then body else cookie)"

definition auth_refresh ::
  "(string \<Rightarrow> string) \<Rightarrow> int \<Rightarrow> string option \<Rightarrow> string option \<Rightarrow> string \<Rightarrow> token_table \<Rightarrow> auth_reply \<times> token_table" where
  "auth_refresh sha now body cookie new_token db =
     (if \<not> truthy (presented body cookie) then (MissingToken, db)
      else case rotate_refresh_token sha now (the (presented body cookie)) new_token (Some ''refresh'') db of
        (RotDone (Inr (Some (user_id, address, new_refresh, _))), db') \<Rightarrow>
          (Refreshed user_id (case address of Some a \<Rightarrow> a | None \<Rightarrow> []) new_refresh, db')
      | (RotDone (Inr None), db') \<Rightarrow> (InvalidToken, db')
      | (_, db') \<Rightarrow> (ServerError, db'))"

text \<open>A failing revocation is logged; the reply is the same.\<close>

definition auth_logout :: "(string \<Rightarrow> string) \<Rightarrow> int \<Rightarrow> string option \<Rightarrow> string option \<Rightarrow> token_table \<Rightarrow> token_table" where
  "auth_logout sha now body cookie db =
     (if truthy (presented body cookie) then snd (revoke_refresh_token sha now (the (presented body cookie)) db) else db)"

subsection \<open>Uninterrupted requests\<close>

text \<open>\<open>uuid4\<close> returns a family id no row has.\<close>

inductive token_step :: "(string \<Rightarrow> string) \<Rightarrow> token_table \<Rightarrow> token_table \<Rightarrow> bool" for sha where
  issue: "issue_refresh_token sha now token uuid user_id address client None db = Inr (r, db') \<Longrightarrow>
    uuid \<notin> rt_family_id ` set db \<Longrightarrow> token_step sha db db'"
| refresh: "auth_refresh sha now body cookie new_token db = (r, db') \<Longrightarrow> token_step sha db db'"
| logout: "token_step sha db (auth_logout sha now body cookie db)"

definition live :: "RefreshToken \<Rightarrow> bool" where
  "live r \<longleftrightarrow> rt_revoked_at r = None"

definition tokens_ok :: "token_table \<Rightarrow> bool" where
  "tokens_ok db \<longleftrightarrow> distinct (map rt_id db) \<and> distinct (map rt_token_hash db) \<and>
     distinct (map rt_family_id (filter live db)) \<and>
     (\<forall>r\<in>set db. rt_replaced_by r \<noteq> None \<longrightarrow> \<not> live r)"

text \<open>No row of the family is live.\<close>

definition dead :: "string \<Rightarrow> token_table \<Rightarrow> bool" where
  "dead family db \<longleftrightarrow> family \<in> rt_family_id ` set db \<and> (\<forall>r\<in>set db. rt_family_id r = family \<longrightarrow> \<not> live r)"

lemma insert_token_eq:
  "insert_token r db = Inr db' \<longleftrightarrow>
     rt_token_hash r \<notin> rt_token_hash ` set db \<and> db' = db @ [r\<lparr>rt_id := next_id (map rt_id db)\<rparr>]"
  by (auto simp: insert_token_def)

lemma fresh_row_id: "next_id (map rt_id db) \<notin> rt_id ` set db"
  using next_id_fresh [of _ "map rt_id db"] by fastforce

lemma live_revoke_family: "filter live (revoke_family now f db) = filter (\<lambda>r. rt_family_id r \<noteq> f) (filter live db)"
  by (induction db) (auto simp: revoke_family_def live_def)

lemma revoke_family_ok: "tokens_ok db \<Longrightarrow> tokens_ok (revoke_family now f db)"
proof -
  assume a: "tokens_ok db"
  then have "distinct (map rt_family_id (filter live (revoke_family now f db)))"
    unfolding live_revoke_family tokens_ok_def by (elim conjE) (rule distinct_map_filter)
  moreover have "\<forall>r\<in>set (revoke_family now f db). rt_replaced_by r \<noteq> None \<longrightarrow> \<not> live r"
    using a by (auto simp: tokens_ok_def revoke_family_def set_upd_where live_def)
  ultimately show ?thesis using a by (simp add: tokens_ok_def revoke_family_def map_upd_where)
qed

lemma issue_ok:
  assumes ok: "tokens_ok db" and r: "insert_token r db = Inr db'" and new: "live r" "rt_replaced_by r = None"
    "rt_family_id r \<notin> rt_family_id ` set (filter live db)"
  shows "tokens_ok db'"
  using assms fresh_row_id [of db] by (auto simp: insert_token_eq tokens_ok_def live_def)

text \<open>The table after a write that succeeds: the old rows, the presented one spent, and the successor.\<close>

lemma rotate_write_rows:
  assumes "insert_token (successor sha now t c row) db = Inr db1" and "row \<in> set db"
  shows "rotate_write sha now t c row db =
      (RotDone (Inr (Some (rt_user_id row, rt_address row, t, now + REFRESH_TTL))),
       upd_where (\<lambda>r. rt_id r = rt_id row) (\<lambda>r. r\<lparr>rt_revoked_at := Some now, rt_replaced_by := Some (sha t)\<rparr>) db @
         [(successor sha now t c row)\<lparr>rt_id := next_id (map rt_id db)\<rparr>])"
    and "sha t \<notin> rt_token_hash ` set db"
proof -
  have "next_id (map rt_id db) \<noteq> rt_id row" using fresh_row_id [of db] assms(2) by force
  moreover have "db1 = db @ [(successor sha now t c row)\<lparr>rt_id := next_id (map rt_id db)\<rparr>]"
    using assms(1) by (simp add: insert_token_eq)
  ultimately show "rotate_write sha now t c row db =
      (RotDone (Inr (Some (rt_user_id row, rt_address row, t, now + REFRESH_TTL))),
       upd_where (\<lambda>r. rt_id r = rt_id row) (\<lambda>r. r\<lparr>rt_revoked_at := Some now, rt_replaced_by := Some (sha t)\<rparr>) db @
         [(successor sha now t c row)\<lparr>rt_id := next_id (map rt_id db)\<rparr>])"
    by (simp add: rotate_write_def assms(1) upd_where_def)
  show "sha t \<notin> rt_token_hash ` set db" using assms(1) by (simp add: insert_token_eq successor_def)
qed

lemma rotate_write_ok:
  assumes ok: "tokens_ok db" and row: "row \<in> set db" "live row" "rt_replaced_by row = None"
  shows "tokens_ok (snd (rotate_write sha now t c row db))"
proof (cases "insert_token (successor sha now t c row) db")
  case (Inl e)
  with ok show ?thesis by (simp add: rotate_write_def)
next
  case (Inr db1)
  let ?w = "\<lambda>r. r\<lparr>rt_revoked_at := Some now, rt_replaced_by := Some (sha t)\<rparr>"
  let ?new = "(successor sha now t c row)\<lparr>rt_id := next_id (map rt_id db)\<rparr>"
  let ?db1 = "upd_where (\<lambda>r. rt_id r = rt_id row) ?w db"
  have d: "distinct (map rt_id db)" "distinct (map rt_token_hash db)" "distinct (map rt_family_id (filter live db))"
    "\<forall>r\<in>set db. rt_replaced_by r \<noteq> None \<longrightarrow> \<not> live r" using ok by (simp_all add: tokens_ok_def)
  note W = rotate_write_rows [OF Inr row(1)]
  have e: "snd (rotate_write sha now t c row db) = ?db1 @ [?new]" by (simp only: W(1) snd_conv)
  have fl: "filter live ?db1 = filter (\<lambda>r. rt_id r \<noteq> rt_id row) (filter live db)"
    by (induction db) (auto simp: live_def)
  have other: "rt_family_id x \<noteq> rt_family_id row" if x: "x \<in> set (filter live db)" "rt_id x \<noteq> rt_id row" for x
  proof
    assume "rt_family_id x = rt_family_id row"
    moreover have "inj_on rt_family_id (set (filter live db))" using d(3) unfolding distinct_map by blast
    ultimately have "x = row" using x(1) row(1,2) by (auto dest: inj_onD)
    with x(2) show False by simp
  qed
  show ?thesis
    unfolding tokens_ok_def e
  proof (intro conjI)
    show "distinct (map rt_id (?db1 @ [?new]))" using d(1) fresh_row_id [of db] by (simp add: map_upd_where)
    show "distinct (map rt_token_hash (?db1 @ [?new]))"
      using d(2) W(2) by (simp add: map_upd_where successor_def set_upd_where image_iff)
    have "distinct (map rt_family_id (filter live ?db1))" unfolding fl by (rule distinct_map_filter [OF d(3)])
    moreover have "rt_family_id row \<notin> rt_family_id ` set (filter live ?db1)" 
      unfolding fl
    proof
      assume "rt_family_id row \<in> rt_family_id ` set (filter (\<lambda>r. rt_id r \<noteq> rt_id row) (filter live db))"
      then obtain x where "rt_family_id row = rt_family_id x" "x \<in> set (filter live db)" "rt_id x \<noteq> rt_id row" by auto
      with other [of x] show False by simp
    qed
    ultimately show "distinct (map rt_family_id (filter live (?db1 @ [?new])))" by (simp add: successor_def live_def)
    show "\<forall>r\<in>set (?db1 @ [?new]). rt_replaced_by r \<noteq> None \<longrightarrow> \<not> live r"
      using d(4) by (auto simp: set_upd_where live_def successor_def)
  qed
qed

lemma find_tokenD: "find_token h db = Some row \<Longrightarrow> row \<in> set db \<and> rt_token_hash row = h"
  by (auto simp: find_token_def find_Some_iff)

text \<open>What a rotation does, seen from outside.\<close>

lemma rotate_cases:
  assumes "rotate_refresh_token sha now token new_token client db = (pc, db')"
  obtains (same) "db' = db" "pc = RotDone (Inr None)"
    | (reuse) row where "find_token (sha token) db = Some row" "\<not> live row \<or> rt_replaced_by row \<noteq> None"
        "db' = revoke_family now (rt_family_id row) db" "pc = RotDone (Inr None)"
    | (rotated) row where "find_token (sha token) db = Some row" "live row" "rt_replaced_by row = None" "now < rt_expires_at row"
        "(pc, db') = rotate_write sha now new_token client row db"
proof (cases "find_token (sha token) db")
  case None
  with assms show ?thesis by (intro same) (simp_all add: rotate_refresh_token_def rotate_read_def)
next
  case (Some row)
  consider "rt_revoked_at row \<noteq> None \<or> rt_replaced_by row \<noteq> None"
    | "rt_revoked_at row = None" "rt_replaced_by row = None" "rt_expires_at row \<le> now"
    | "rt_revoked_at row = None" "rt_replaced_by row = None" "now < rt_expires_at row" by fastforce
  then show ?thesis
  proof cases
    case 1
    with assms Some show ?thesis by (intro reuse [of row]) (auto simp: rotate_refresh_token_def rotate_read_def live_def)
  next
    case 2
    with assms Some show ?thesis by (intro same) (simp_all add: rotate_refresh_token_def rotate_read_def)
  next
    case 3
    with assms Some show ?thesis by (intro rotated [of row]) (simp_all add: rotate_refresh_token_def rotate_read_def live_def)
  qed
qed

lemma auth_refresh_db:
  assumes "auth_refresh sha now body cookie new_token db = (r, db')"
  obtains "db' = db" | token pc where "rotate_refresh_token sha now token new_token (Some ''refresh'') db = (pc, db')"
  using assms by (auto simp: auth_refresh_def split: if_splits prod.splits rotate_pc.splits sum.splits option.splits)

lemma token_step_ok:
  assumes "token_step sha db db'" and ok: "tokens_ok db"
  shows "tokens_ok db'"
  using assms(1)
proof (cases rule: token_step.cases)
  case (issue now token uuid user_id address client r)
  from issue(1) obtain r' where "insert_token r' db = Inr db'" "live r'" "rt_replaced_by r' = None" "rt_family_id r' = uuid"
    by (auto simp: issue_refresh_token_def bindE_eq_Inr live_def Let_def)
  with issue(2) show ?thesis by (intro issue_ok [OF ok]) auto
next
  case (refresh now body cookie new_token r)
  from refresh show ?thesis
  proof (cases rule: auth_refresh_db)
    case 1
    with ok show ?thesis by simp
  next
    case (2 token pc)
    then show ?thesis
    proof (cases rule: rotate_cases)
      case (rotated row)
      with rotate_write_ok [OF ok, of row sha now new_token "Some ''refresh''"] find_tokenD [OF rotated(1)] show ?thesis
        by (metis snd_conv)
    qed (use ok revoke_family_ok in auto)
  qed
next
  case (logout now body cookie)
  with ok revoke_family_ok show ?thesis by (auto simp: auth_logout_def revoke_refresh_token_def split: option.splits)
qed

lemma dead_revoke: "dead f db \<Longrightarrow> dead f (revoke_family now g db)"
  unfolding dead_def revoke_family_def by (auto simp: set_upd_where live_def image_iff)

lemma dead_append: "dead f db \<Longrightarrow> rt_family_id r \<noteq> f \<Longrightarrow> dead f (db @ [r])"
  by (auto simp: dead_def)

lemma token_step_dead:
  assumes "token_step sha db db'" and d: "dead f db"
  shows "dead f db'"
  using assms(1)
proof (cases rule: token_step.cases)
  case (issue now token uuid user_id address client r)
  from issue(1) obtain r' where r': "insert_token r' db = Inr db'" "rt_family_id r' = uuid"
    by (auto simp: issue_refresh_token_def bindE_eq_Inr Let_def)
  with issue(2) d have "uuid \<noteq> f" by (auto simp: dead_def)
  with r' d show ?thesis by (simp add: insert_token_eq dead_append)
next
  case (refresh now body cookie new_token r)
  from refresh show ?thesis
  proof (cases rule: auth_refresh_db)
    case 1
    with d show ?thesis by simp
  next
    case (2 token pc)
    then show ?thesis
    proof (cases rule: rotate_cases)
      case (rotated row)
      have f: "rt_family_id row \<noteq> f" using find_tokenD [OF rotated(1)] rotated(2) d by (auto simp: dead_def)
      show ?thesis
      proof (cases "insert_token (successor sha now new_token (Some ''refresh'') row) db")
        case (Inl e)
        with rotated(5) d show ?thesis by (simp add: rotate_write_def)
      next
        case (Inr db1)
        then have "dead f db1" using d f by (simp add: insert_token_eq dead_append successor_def)
        have "db' = upd_where (\<lambda>r. rt_id r = rt_id row) (\<lambda>r. r\<lparr>rt_revoked_at := Some now, rt_replaced_by := Some (sha new_token)\<rparr>) db1"
          using Inr rotated(5) by (simp add: rotate_write_def)
        then have "rt_family_id ` set db' = rt_family_id ` set db1" "\<forall>r\<in>set db'. rt_family_id r = f \<longrightarrow> \<not> live r"
          using \<open>dead f db1\<close> by (simp_all add: image_upd_where) (auto simp: dead_def set_upd_where live_def)
        with \<open>dead f db1\<close> show ?thesis by (simp add: dead_def)
      qed
    qed (use d dead_revoke in auto)
  qed
next
  case (logout now body cookie)
  with d dead_revoke show ?thesis by (auto simp: auth_logout_def revoke_refresh_token_def split: option.splits)
qed

interpretation tokens: invariant_of "token_step sha" tokens_ok for sha
  by unfold_locales (rule token_step_ok)

interpretation family: invariant_of "token_step sha" "dead f" for sha f
  by unfold_locales (rule token_step_dead)

text \<open>C15: While requests do not overlap, every login has at most one usable refresh token, and a token
  that was exchanged for a successor is never usable again.\<close>

theorem one_live_token_per_family:
  assumes "(token_step sha)\<^sup>*\<^sup>* [] db"
  shows "distinct (map rt_family_id (filter live db)) \<and> (\<forall>r\<in>set db. rt_replaced_by r \<noteq> None \<longrightarrow> \<not> live r)"
  using tokens.always [OF assms] by (simp add: tokens_ok_def)

text \<open>C14: When a token that was already used or revoked is presented again, its whole family is dead for
  ever: after any later requests no token of the family is accepted.\<close>

theorem reuse_kills_family:
  assumes "find_token (sha token) db = Some row" and "rt_revoked_at row \<noteq> None \<or> rt_replaced_by row \<noteq> None"
    and "auth_refresh sha now (Some token) cookie new_token db = (reply, db1)" and "token \<noteq> []"
    and "(token_step sha)\<^sup>*\<^sup>* db1 db2"
    and "find_token (sha token') db2 = Some row'" and "rt_family_id row' = rt_family_id row"
  shows "reply = InvalidToken \<and>
    (\<exists>db3. rotate_refresh_token sha now' token' new_token' client db2 = (RotDone (Inr None), db3))"
proof -
  have read: "rotate_read sha now token db = RotReuse (rt_family_id row)" using assms(1,2) by (simp add: rotate_read_def)
  with assms(3,4) have r: "reply = InvalidToken" "db1 = revoke_family now (rt_family_id row) db"
    by (auto simp: auth_refresh_def presented_def truthy_def rotate_refresh_token_def)
  have "rt_family_id ` set db1 = rt_family_id ` set db" unfolding r(2) revoke_family_def by (rule image_upd_where) simp
  moreover have "\<not> live x" if "x \<in> set db1" "rt_family_id x = rt_family_id row" for x
    using that by (auto simp: r(2) revoke_family_def set_upd_where live_def)
  ultimately have "dead (rt_family_id row) db1" using find_tokenD [OF assms(1)] by (auto simp: dead_def)
  from family.always [OF assms(5) this] have "\<not> live row'" using find_tokenD [OF assms(6)] assms(7) by (auto simp: dead_def)
  with assms(6) have "rotate_read sha now' token' db2 = RotReuse (rt_family_id row')" by (simp add: rotate_read_def live_def)
  with r(1) show ?thesis by (simp add: rotate_refresh_token_def)
qed

text \<open>C25: Two rotations of one token whose lookups both come before either write both succeed when their
  new tokens are new, and leave two usable tokens in the family: the reuse is not noticed.\<close>

theorem overlapping_rotations_both_succeed:
  assumes read: "rotate_read sha now token db = RotWrite row"
    and w1: "rotate_step sha now1 token t1 c1 (RotWrite row) db = (RotDone (Inr (Some a1)), db1)"
    and w2: "rotate_step sha now2 token t2 c2 (RotWrite row) db1 = (pc2, db2)" and fresh: "sha t2 \<notin> rt_token_hash ` set db1"
  shows "pc2 = RotDone (Inr (Some (rt_user_id row, rt_address row, t2, now2 + REFRESH_TTL))) \<and>
    (\<exists>r1\<in>set db2. \<exists>r2\<in>set db2. live r1 \<and> live r2 \<and> rt_token_hash r1 = sha t1 \<and> rt_token_hash r2 = sha t2 \<and>
      rt_token_hash r1 \<noteq> rt_token_hash r2 \<and> rt_family_id r1 = rt_family_id row \<and> rt_family_id r2 = rt_family_id row)"
proof -
  have row: "row \<in> set db" using read find_tokenD [of "sha token" db] by (auto simp: rotate_read_def split: option.splits if_splits)
  from w1 obtain x where i1: "insert_token (successor sha now1 t1 c1 row) db = Inr x"
    by (auto simp: rotate_write_def split: sum.splits)
  let ?w = "\<lambda>now t r. r\<lparr>rt_revoked_at := Some now, rt_replaced_by := Some (sha t)\<rparr>"
  let ?n1 = "(successor sha now1 t1 c1 row)\<lparr>rt_id := next_id (map rt_id db)\<rparr>"
  have db1: "db1 = upd_where (\<lambda>r. rt_id r = rt_id row) (?w now1 t1) db @ [?n1]"
    using w1 rotate_write_rows(1) [OF i1 row] by simp
  have r1: "?w now1 t1 row \<in> set db1" using row by (auto simp: db1 set_upd_where)
  have n1: "rt_id ?n1 \<noteq> rt_id row" using fresh_row_id [of db] row by force
  have i2: "insert_token (successor sha now2 t2 c2 row) db1 = Inr (db1 @ [(successor sha now2 t2 c2 row)\<lparr>rt_id := next_id (map rt_id db1)\<rparr>])"
    using fresh by (simp add: insert_token_eq successor_def)
  let ?n2 = "(successor sha now2 t2 c2 row)\<lparr>rt_id := next_id (map rt_id db1)\<rparr>"
  have "rt_id ?n2 \<noteq> rt_id row" using fresh_row_id [of db1] imageI [OF r1, of rt_id] by auto
  with i2 w2 have 2: "pc2 = RotDone (Inr (Some (rt_user_id row, rt_address row, t2, now2 + REFRESH_TTL)))"
    "db2 = upd_where (\<lambda>r. rt_id r = rt_id row) (?w now2 t2) (db1 @ [?n2])"
    by (simp_all add: rotate_write_def)
  have "?n1 \<in> set db2" "?n2 \<in> set db2"
    using n1 \<open>rt_id ?n2 \<noteq> rt_id row\<close> by (auto simp: 2 db1 upd_where_def)
  moreover have "sha t1 \<noteq> sha t2" using fresh by (auto simp: db1 successor_def)
  ultimately show ?thesis
    by (intro conjI 2(1) bexI [of _ ?n1] bexI [of _ ?n2]) (simp_all add: successor_def live_def)
qed

text \<open>A logout between the lookup and the write is undone: the successor is usable.\<close>

lemma logout_during_rotation:
  assumes read: "rotate_read sha now token db = RotWrite row" and out: "revoke_refresh_token sha now' token db = (True, db1)"
    and w: "rotate_step sha now'' token t c (RotWrite row) db1 = (RotDone (Inr (Some a)), db2)"
  shows "\<exists>r\<in>set db2. live r \<and> rt_family_id r = rt_family_id row \<and> rt_token_hash r = sha t"
proof -
  from w obtain x where "insert_token (successor sha now'' t c row) db1 = Inr x" by (auto simp: rotate_write_def split: sum.splits)
  then have x: "x = db1 @ [(successor sha now'' t c row)\<lparr>rt_id := next_id (map rt_id db1)\<rparr>]" by (simp add: insert_token_eq)
  have "find_token (sha token) db = Some row" using read by (auto simp: rotate_read_def split: option.splits if_splits)
  then have "row \<in> set db" "db1 = revoke_family now' (rt_family_id row) db"
    using find_tokenD out by (auto simp: revoke_refresh_token_def)
  moreover have "rt_id ` set (revoke_family now' (rt_family_id row) db) = rt_id ` set db"
    unfolding revoke_family_def by (rule image_upd_where) simp
  ultimately have "rt_id row \<in> rt_id ` set db1" by simp
  then have "next_id (map rt_id db1) \<noteq> rt_id row" using fresh_row_id [of db1] by metis
  with w \<open>insert_token _ _ = _\<close> x have "(successor sha now'' t c row)\<lparr>rt_id := next_id (map rt_id db1)\<rparr> \<in> set db2"
    by (auto simp: rotate_write_def upd_where_def)
  then show ?thesis by (rule bexI [rotated]) (simp add: live_def successor_def)
qed

subsection \<open>A login\<close>

definition sample_sha :: "string \<Rightarrow> string" where
  "sample_sha s = s"

definition login_table :: token_table where
  "login_table = (case issue_refresh_token sample_sha 100 ''t0'' ''fam'' 7 None None None [] of Inr (_, db) \<Rightarrow> db | Inl _ \<Rightarrow> [])"

definition rotated_table :: token_table where
  "rotated_table = snd (rotate_refresh_token sample_sha 200 ''t0'' ''t1'' (Some ''refresh'') login_table)"

lemma login_run: "(token_step sample_sha)\<^sup>*\<^sup>* [] rotated_table"
proof -
  have "issue_refresh_token sample_sha 100 ''t0'' ''fam'' 7 None None None [] = Inr ((''t0'', 100 + REFRESH_TTL), login_table)" by code_simp
  then have "token_step sample_sha [] login_table" by (rule token_step.issue) simp
  moreover have "auth_refresh sample_sha 200 (Some ''t0'') None ''t1'' login_table = (Refreshed 7 [] ''t1'', rotated_table)" by code_simp
  then have "token_step sample_sha login_table rotated_table" by (rule token_step.refresh)
  ultimately show ?thesis by (meson rtranclp.simps)
qed

theorem one_live_token_per_family_witness: "distinct (map rt_family_id (filter live rotated_table)) \<and> length rotated_table = 2"
proof -
  have "length rotated_table = 2" by code_simp
  with one_live_token_per_family [OF login_run] show ?thesis by simp
qed

theorem reuse_kills_family_witness:
  "\<exists>db3. rotate_refresh_token sample_sha 400 ''t1'' ''t9'' None (snd (auth_refresh sample_sha 300 (Some ''t0'') None ''t2'' rotated_table)) =
     (RotDone (Inr None), db3)"
proof -
  have f: "find_token (sample_sha ''t0'') rotated_table = Some (hd rotated_table)" "rt_replaced_by (hd rotated_table) = Some ''t1''"
    "find_token (sample_sha ''t1'') (snd (auth_refresh sample_sha 300 (Some ''t0'') None ''t2'' rotated_table)) =
       Some (last (snd (auth_refresh sample_sha 300 (Some ''t0'') None ''t2'' rotated_table)))"
    "rt_family_id (last (snd (auth_refresh sample_sha 300 (Some ''t0'') None ''t2'' rotated_table))) = rt_family_id (hd rotated_table)" by code_simp+
  have "rt_revoked_at (hd rotated_table) \<noteq> None \<or> rt_replaced_by (hd rotated_table) \<noteq> None" using f(2) by simp
  from reuse_kills_family [OF f(1) this prod.collapse [symmetric] _ rtranclp.rtrancl_refl f(3,4), of 400 "''t9''" None] show ?thesis by blast
qed

theorem overlapping_rotations_both_succeed_witness:
  "\<exists>db1 db2. rotate_step sample_sha 200 ''t0'' ''t1'' None (RotWrite (hd login_table)) login_table = (RotDone (Inr (Some (7, None, ''t1'', 200 + REFRESH_TTL))), db1) \<and>
     rotate_step sample_sha 201 ''t0'' ''t2'' None (RotWrite (hd login_table)) db1 = (RotDone (Inr (Some (7, None, ''t2'', 201 + REFRESH_TTL))), db2) \<and>
     (\<exists>r1\<in>set db2. \<exists>r2\<in>set db2. live r1 \<and> live r2 \<and> rt_token_hash r1 \<noteq> rt_token_hash r2 \<and> rt_family_id r1 = rt_family_id r2)"
proof -
  have r: "rotate_read sample_sha 150 ''t0'' login_table = RotWrite (hd login_table)" by code_simp
  let ?s1 = "rotate_step sample_sha 200 ''t0'' ''t1'' None (RotWrite (hd login_table)) login_table"
  have s1: "?s1 = (RotDone (Inr (Some (7, None, ''t1'', 200 + REFRESH_TTL))), snd ?s1)" by code_simp
  have fr: "sample_sha ''t2'' \<notin> rt_token_hash ` set (snd ?s1)" by code_simp
  let ?s2 = "rotate_step sample_sha 201 ''t0'' ''t2'' None (RotWrite (hd login_table)) (snd ?s1)"
  have u: "rt_user_id (hd login_table) = 7" "rt_address (hd login_table) = None" by code_simp+
  note both = overlapping_rotations_both_succeed [OF r s1 prod.collapse [of ?s2, symmetric] fr, unfolded u]
  from conjunct2 [OF both] obtain r1 r2 where "r1 \<in> set (snd ?s2)" "r2 \<in> set (snd ?s2)" "live r1" "live r2"
    "rt_token_hash r1 \<noteq> rt_token_hash r2" "rt_family_id r1 = rt_family_id r2"
    by (elim bexE conjE) simp
  then have l: "\<exists>r1\<in>set (snd ?s2). \<exists>r2\<in>set (snd ?s2). live r1 \<and> live r2 \<and> rt_token_hash r1 \<noteq> rt_token_hash r2 \<and> rt_family_id r1 = rt_family_id r2"
    by (intro bexI conjI)
  from conjunct1 [OF both]
  have s2: "?s2 = (RotDone (Inr (Some (7, None, ''t2'', 201 + REFRESH_TTL))), snd ?s2)" by (simp add: prod_eq_iff)
  note s1s2 = conjI [OF s1 conjI [OF s2 l]]
  show ?thesis by (rule exI [of _ "snd ?s1"], rule exI [of _ "snd ?s2"], rule s1s2)
qed

end
