(* ===== verification/Merkle.thy ===== *)
theory Merkle
  imports PyFloat "HOL-Library.Product_Lexorder" "HOL-Library.List_Lexorder" "HOL-Library.Char_ord"
    "HOL-Library.Word"
begin

text \<open>
  \<open>bot/utils/merkle.py\<close>: the reward tree that is published on chain and the proofs the
  claimers submit.  A digest is a list of bytes, compared as Python compares \<open>bytes\<close>.  The
  hash, the packed encoding and the checksum spelling of an address come from \<open>eth_utils\<close>
  and \<open>eth_abi\<close>; they are parameters, and \<open>sound_hasher\<close> names what is known of them.
\<close>

type_synonym bytes = "8 word list"

datatype merkle_error =
  NoEntries | DuplicateAccount | AmountNotPositiveLeaf | NegativeReward | NotFinite | MerkleExternal string

record hasher =
  h_keccak :: "bytes \<Rightarrow> bytes"
  h_encode_packed :: "int \<Rightarrow> string \<Rightarrow> int \<Rightarrow> merkle_error + bytes"
  h_to_checksum_address :: "string \<Rightarrow> merkle_error + string"

definition USDC_DECIMALS :: nat where
  "USDC_DECIMALS = 6"

subsection \<open>Hashing\<close>

definition leaf_hash :: "hasher \<Rightarrow> int \<Rightarrow> string \<Rightarrow> int \<Rightarrow> merkle_error + bytes" where
  "leaf_hash h index account amount_base_units =
     bindE (h_to_checksum_address h account) (\<lambda>acct.
     bindE (h_encode_packed h index acct amount_base_units) (\<lambda>b. Inr (h_keccak h b)))"

definition hash_pair :: "hasher \<Rightarrow> bytes \<Rightarrow> bytes \<Rightarrow> bytes" where
  "hash_pair h a b = (if a \<le> b then h_keccak h (a @ b) else h_keccak h (b @ a))"

subsection \<open>Building a distribution\<close>

record MerkleDistribution =
  md_root :: bytes
  md_leaves :: "bytes list"
  md_proofs :: "bytes list list"

text \<open>A list comprehension stops at the first element that raises.\<close>

fun traverse :: "('a \<Rightarrow> 'e + 'b) \<Rightarrow> 'a list \<Rightarrow> 'e + 'b list" where
  "traverse f [] = Inr []"
| "traverse f (x # xs) = bindE (f x) (\<lambda>y. bindE (traverse f xs) (\<lambda>ys. Inr (y # ys)))"

definition sorted_entries :: "hasher \<Rightarrow> (string \<times> int) list \<Rightarrow> merkle_error + (string \<times> int) list" where
  "sorted_entries h entries =
     bindE (traverse (\<lambda>(acct, amt). bindE (h_to_checksum_address h acct) (\<lambda>c. Inr (c, amt))) entries)
       (\<lambda>es. Inr (sort es))"

fun pair_level :: "hasher \<Rightarrow> bytes list \<Rightarrow> bytes list" where
  "pair_level h (a # b # r) = hash_pair h a b # pair_level h r"
| "pair_level h r = r"

lemma length_pair_level: "length (pair_level h l) = (length l + 1) div 2"
  by (induction h l rule: pair_level.induct) auto

function levels :: "hasher \<Rightarrow> bytes list \<Rightarrow> bytes list list" where
  "levels h l = (if length l \<le> 1 then [l] else l # levels h (pair_level h l))"
  by pat_completeness auto
termination
  by (relation "measure (length \<circ> snd)") (auto simp: length_pair_level)

declare levels.simps [simp del]

fun proof_at :: "nat \<Rightarrow> bytes list list \<Rightarrow> bytes list" where
  "proof_at pos [] = []"
| "proof_at pos (level # rest) =
     (let sibling = Bit_Operations.xor pos 1
      in (if sibling < length level then [level ! sibling] else []) @ proof_at (pos div 2) rest)"

definition build_distribution :: "hasher \<Rightarrow> (string \<times> int) list \<Rightarrow> merkle_error + MerkleDistribution" where
  "build_distribution h entries =
     (if entries = [] then Inl NoEntries
      else bindE (sorted_entries h entries) (\<lambda>normalized.
        if length (remdups (map fst normalized)) \<noteq> length normalized then Inl DuplicateAccount
        else if \<exists>e\<in>set normalized. snd e \<le> 0 then Inl AmountNotPositiveLeaf
        else bindE (traverse (\<lambda>(i, acct, amt). leaf_hash h (int i) acct amt) (enumerate 0 normalized)) (\<lambda>leaves.
          let lv = levels h leaves
          in Inr \<lparr>md_root = hd (last lv), md_leaves = leaves,
                 md_proofs = map (\<lambda>index. proof_at index (butlast lv)) [0..<length leaves]\<rparr>)))"

definition verify_proof :: "hasher \<Rightarrow> bytes \<Rightarrow> int \<Rightarrow> string \<Rightarrow> int \<Rightarrow> bytes list \<Rightarrow> merkle_error + bool" where
  "verify_proof h rt index account amount_base_units proof_nodes =
     bindE (leaf_hash h index account amount_base_units) (\<lambda>node.
       Inr (foldl (hash_pair h) node proof_nodes = rt))"

definition hex_digit :: "nat \<Rightarrow> char" where
  "hex_digit n = (if n < 10 then digit_char n else char_of (87 + n))"

definition hex :: "bytes \<Rightarrow> string" where
  "hex b = concat (map (\<lambda>w. [hex_digit (unat w div 16), hex_digit (unat w mod 16)]) b)"

definition root_hex :: "MerkleDistribution \<Rightarrow> string" where
  "root_hex d = ''0x'' @ hex (md_root d)"

definition proof_hex :: "MerkleDistribution \<Rightarrow> nat \<Rightarrow> string list" where
  "proof_hex d index = map (\<lambda>b. ''0x'' @ hex b) (md_proofs d ! index)"

subsection \<open>Proofs verify\<close>

lemma hash_pair_commute: "hash_pair h a b = hash_pair h b a"
  by (auto simp: hash_pair_def)

lemma xor_one_nat: "Bit_Operations.xor n 1 = (if even n then n + 1 else n - 1)" for n :: nat
  by (simp add: xor_nat_def flip: xor_int_def) (auto simp: xor_one_eq elim!: oddE)

lemma nth_pair_level:
  assumes "i < length l"
  shows "pair_level h l ! (i div 2) =
    (if Bit_Operations.xor i 1 < length l then hash_pair h (l ! i) (l ! Bit_Operations.xor i 1) else l ! i)"
  using assms
proof (induction h l arbitrary: i rule: pair_level.induct)
  case (1 h a b r)
  show ?case
  proof (cases "i < 2")
    case True
    then have "i = 0 \<or> i = 1" by auto
    then show ?thesis by (auto simp: xor_one_nat hash_pair_commute)
  next
    case False
    then obtain j where j: "i = j + 2" by (metis add.commute le_add_diff_inverse not_less)
    have e: "Bit_Operations.xor i 1 = Bit_Operations.xor j 1 + 2"
      unfolding j xor_one_nat by (cases j) auto
    from 1 j have "j < length r" by simp
    from 1(1) [OF this] show ?thesis unfolding e unfolding j by simp
  qed
qed (auto simp: xor_one_nat)

lemma levels_not_Nil [simp]: "levels h l \<noteq> []"
  by (subst levels.simps) simp

lemma proof_reaches_root:
  assumes "i < length l"
  shows "foldl (hash_pair h) (l ! i) (proof_at i (butlast (levels h l))) = hd (last (levels h l))"
  using assms
proof (induction h l arbitrary: i rule: levels.induct)
  case (1 h l)
  show ?case
  proof (cases "length l \<le> 1")
    case True
    with 1(2) show ?thesis by (subst (1 2) levels.simps) (cases l; simp)
  next
    case False
    let ?p = "pair_level h l"
    from 1(2) False have "i div 2 < length ?p" by (auto simp: length_pair_level)
    from 1(1) [OF False this]
    have "foldl (hash_pair h) (?p ! (i div 2)) (proof_at (i div 2) (butlast (levels h ?p))) = hd (last (levels h ?p))" .
    then show ?thesis
      using False nth_pair_level [OF 1(2), of h] by (subst (1 2) levels.simps) (auto simp: Let_def)
  qed
qed

lemma traverse_Inr:
  "traverse f xs = Inr ys \<Longrightarrow> length ys = length xs \<and> (\<forall>i<length xs. f (xs ! i) = Inr (ys ! i))"
proof (induction xs arbitrary: ys)
  case (Cons x xs)
  from Cons.prems obtain y ys' where y: "f x = Inr y" "traverse f xs = Inr ys'" "ys = y # ys'"
    by (auto simp: bindE_eq_Inr)
  from Cons.IH [OF y(2)] y show ?case by (auto simp: nth_Cons split: nat.splits)
qed simp

lemma build_InrE:
  assumes "build_distribution h entries = Inr d" and "sorted_entries h entries = Inr es"
  shows "entries \<noteq> []" and "distinct (map fst es)" and "\<forall>e\<in>set es. 0 < snd e"
    and "length (md_leaves d) = length es"
    and "i < length es \<Longrightarrow> leaf_hash h (int i) (fst (es ! i)) (snd (es ! i)) = Inr (md_leaves d ! i)"
    and "md_root d = hd (last (levels h (md_leaves d)))"
    and "md_proofs d = map (\<lambda>index. proof_at index (butlast (levels h (md_leaves d)))) [0..<length es]"
proof -
  from assms obtain leaves where
    d: "entries \<noteq> []" "length (remdups (map fst es)) = length es" "\<not> (\<exists>e\<in>set es. snd e \<le> 0)"
      "d = \<lparr>md_root = hd (last (levels h leaves)), md_leaves = leaves,
            md_proofs = map (\<lambda>index. proof_at index (butlast (levels h leaves))) [0..<length leaves]\<rparr>"
    and t: "traverse (\<lambda>(i, acct, amt). leaf_hash h (int i) acct amt) (enumerate 0 es) = Inr leaves"
    by (auto simp: build_distribution_def bindE_eq_Inr Let_def split: if_splits)
  note tr = traverse_Inr [OF t]
  show "entries \<noteq> []" and "distinct (map fst es)" and "\<forall>e\<in>set es. 0 < snd e"
    using d(1,2,3) by (auto simp: not_le length_remdups_eq [of "map fst es", simplified])
  show l: "length (md_leaves d) = length es" using tr d(4) by simp
  show "md_root d = hd (last (levels h (md_leaves d)))"
    "md_proofs d = map (\<lambda>index. proof_at index (butlast (levels h (md_leaves d)))) [0..<length es]"
    using l d(4) by simp_all
  assume "i < length es"
  with tr d(4) show "leaf_hash h (int i) (fst (es ! i)) (snd (es ! i)) = Inr (md_leaves d ! i)"
    by (auto simp: nth_enumerate_eq split: prod.splits)
qed

subsection \<open>What the hash is relied on for\<close>

text \<open>
  Digests have 32 bytes; the packed encoding of \<open>(uint256, address, uint256)\<close> has
  32 + 20 + 32 bytes and is injective on checksummed addresses; a checksummed spelling is
  its own checksum.
\<close>

definition sound_hasher :: "hasher \<Rightarrow> bool" where
  "sound_hasher h \<longleftrightarrow>
     (\<forall>b. length (h_keccak h b) = 32) \<and>
     (\<forall>i a n b. h_encode_packed h i a n = Inr b \<longrightarrow> length b = 84) \<and>
     (\<forall>i a n a0 i' a' n' a1 b. h_to_checksum_address h a0 = Inr a \<longrightarrow> h_to_checksum_address h a1 = Inr a' \<longrightarrow>
        h_encode_packed h i a n = Inr b \<longrightarrow> h_encode_packed h i' a' n' = Inr b \<longrightarrow> i = i' \<and> a = a' \<and> n = n') \<and>
     (\<forall>a c. h_to_checksum_address h a = Inr c \<longrightarrow> h_to_checksum_address h c = Inr c)"

lemma sound_hasherD:
  assumes "sound_hasher h"
  shows "length (h_keccak h b) = 32"
    and "h_encode_packed h i a n = Inr b \<Longrightarrow> length b = 84"
    and "h_to_checksum_address h a0 = Inr a \<Longrightarrow> h_to_checksum_address h a1 = Inr a' \<Longrightarrow>
        h_encode_packed h i a n = Inr b \<Longrightarrow> h_encode_packed h i' a' n' = Inr b \<Longrightarrow> i = i' \<and> a = a' \<and> n = n'"
    and "h_to_checksum_address h a = Inr c \<Longrightarrow> h_to_checksum_address h c = Inr c"
  using assms unfolding sound_hasher_def by blast+

lemma length_hash_pair: "sound_hasher h \<Longrightarrow> length (hash_pair h a b) = 32"
  by (simp add: hash_pair_def sound_hasherD)


text \<open>
  The byte strings that a build and a verification hash.  No function into 32 bytes is
  injective, so what the tree needs is stated of these strings only.
\<close>

definition pair_input :: "bytes \<Rightarrow> bytes \<Rightarrow> bytes" where
  "pair_input a b = (if a \<le> b then a @ b else b @ a)"

fun level_inputs :: "bytes list \<Rightarrow> bytes list" where
  "level_inputs (a # b # r) = pair_input a b # level_inputs r"
| "level_inputs _ = []"

fun path_inputs :: "hasher \<Rightarrow> bytes \<Rightarrow> bytes list \<Rightarrow> bytes list" where
  "path_inputs h m [] = []"
| "path_inputs h m (s # p) = pair_input m s # path_inputs h (hash_pair h m s) p"

definition leaf_inputs :: "hasher \<Rightarrow> int \<Rightarrow> string \<Rightarrow> int \<Rightarrow> bytes list" where
  "leaf_inputs h i a n =
     (case bindE (h_to_checksum_address h a) (\<lambda>c. h_encode_packed h i c n) of Inl _ \<Rightarrow> [] | Inr b \<Rightarrow> [b])"

definition distribution_inputs :: "hasher \<Rightarrow> (string \<times> int) list \<Rightarrow> bytes list \<Rightarrow> bytes list" where
  "distribution_inputs h es leaves =
     concat (map (\<lambda>(i, a, n). leaf_inputs h (int i) a n) (enumerate 0 es)) @ concat (map level_inputs (levels h leaves))"

definition claim_inputs :: "hasher \<Rightarrow> int \<Rightarrow> string \<Rightarrow> int \<Rightarrow> bytes list \<Rightarrow> bytes list" where
  "claim_inputs h i a n p =
     leaf_inputs h i a n @ (case leaf_hash h i a n of Inl _ \<Rightarrow> [] | Inr m \<Rightarrow> path_inputs h m p)"

lemma hash_pair_input: "hash_pair h a b = h_keccak h (pair_input a b)"
  by (simp add: hash_pair_def pair_input_def)

lemma length_pair_input: "length (pair_input a b) = length a + length b"
  by (simp add: pair_input_def)

lemma pair_input_halves:
  assumes "length a = 32" "length b = 32" "length c = 32" "length d = 32"
    and "pair_input a b = pair_input c d"
  shows "a = c \<or> a = d"
  using assms by (auto simp: pair_input_def split: if_splits)

lemma path_inputs_snoc [simp]:
  "path_inputs h m (p @ [s]) = path_inputs h m p @ [pair_input (foldl (hash_pair h) m p) s]"
  by (induction h m p rule: path_inputs.induct) auto

lemma leaf_hashE:
  assumes "leaf_hash h i a n = Inr d"
  obtains c b where "h_to_checksum_address h a = Inr c" and "h_encode_packed h i c n = Inr b"
    and "d = h_keccak h b" and "leaf_inputs h i a n = [b]"
  using assms by (auto simp: leaf_hash_def leaf_inputs_def bindE_eq_Inr)

lemma leaf_inputsD:
  "b \<in> set (leaf_inputs h i a n) \<Longrightarrow> \<exists>c. h_to_checksum_address h a = Inr c \<and> h_encode_packed h i c n = Inr b"
  by (cases "h_to_checksum_address h a"; auto simp: leaf_inputs_def split: sum.splits)

lemma leaf_hash_length: "sound_hasher h \<Longrightarrow> leaf_hash h i a n = Inr d \<Longrightarrow> length d = 32"
  by (elim leaf_hashE) (simp add: sound_hasherD(1))

text \<open>The nodes of a tree: a leaf, or the hash of two nodes that the build hashed together.\<close>

inductive node :: "hasher \<Rightarrow> bytes list \<Rightarrow> bytes set \<Rightarrow> bytes \<Rightarrow> bool" for h leaves I where
  node_leaf: "d \<in> set leaves \<Longrightarrow> node h leaves I d"
| node_pair: "node h leaves I a \<Longrightarrow> node h leaves I b \<Longrightarrow> pair_input a b \<in> I \<Longrightarrow> node h leaves I (hash_pair h a b)"

lemma pair_level_nodes:
  "(\<And>d. d \<in> set l \<Longrightarrow> node h leaves I d) \<Longrightarrow> set (level_inputs l) \<subseteq> I \<Longrightarrow>
     d \<in> set (pair_level h l) \<Longrightarrow> node h leaves I d"
  by (induction h l rule: pair_level.induct) (auto intro: node_pair)

lemma levels_nodes:
  assumes "\<And>d. d \<in> set l \<Longrightarrow> node h leaves I d" and "set (concat (map level_inputs (levels h l))) \<subseteq> I"
  shows "lv \<in> set (levels h l) \<Longrightarrow> d \<in> set lv \<Longrightarrow> node h leaves I d"
  using assms
proof (induction h l arbitrary: lv d rule: levels.induct)
  case (1 h l)
  show ?case
  proof (cases "length l \<le> 1")
    case True
    with 1(2-4) show ?thesis by (simp add: levels.simps [of h l])
  next
    case False
    then have e: "levels h l = l # levels h (pair_level h l)" by (simp add: levels.simps [of h l])
    have I: "set (level_inputs l) \<subseteq> I" "set (concat (map level_inputs (levels h (pair_level h l)))) \<subseteq> I"
      using 1(5) by (simp_all add: e)
    from 1(2) consider "lv = l" | "lv \<in> set (levels h (pair_level h l))" by (auto simp: e)
    then show ?thesis
    proof cases
      case 1
      then show ?thesis using \<open>d \<in> set lv\<close> \<open>\<And>d. d \<in> set l \<Longrightarrow> node h leaves I d\<close> by simp
    next
      case 2
      from 1(1) [OF False 2 1(3) _ I(2)] pair_level_nodes [OF 1(4) I(1)] show ?thesis by blast
    qed
  qed
qed

lemma levels_nonempty: "l \<noteq> [] \<Longrightarrow> lv \<in> set (levels h l) \<Longrightarrow> lv \<noteq> []"
proof (induction h l arbitrary: lv rule: levels.induct)
  case (1 h l)
  from 1(3) have "lv = l \<or> (\<not> length l \<le> 1 \<and> lv \<in> set (levels h (pair_level h l)))"
    by (subst (asm) levels.simps) (auto split: if_splits)
  moreover have "\<not> length l \<le> 1 \<Longrightarrow> pair_level h l \<noteq> []"
    using length_pair_level [of h l] by auto
  ultimately show ?case using 1(1,2) by blast
qed

lemma root_node:
  "l \<noteq> [] \<Longrightarrow> set (concat (map level_inputs (levels h l))) \<subseteq> I \<Longrightarrow> node h l I (hd (last (levels h l)))"
  using levels_nodes [of l h l I "last (levels h l)"] levels_nonempty [of l "last (levels h l)" h]
  by (simp add: node_leaf)

text \<open>
  A tree together with what was hashed: every leaf is the digest of one of the 84-byte
  strings \<open>E\<close>, and \<open>K\<close>, on which the hash has no collision, holds all inputs.
\<close>

definition tree_ok :: "hasher \<Rightarrow> bytes list \<Rightarrow> bytes set \<Rightarrow> bytes set \<Rightarrow> bytes set \<Rightarrow> bool" where
  "tree_ok h leaves E I K \<longleftrightarrow>
     sound_hasher h \<and> set leaves \<subseteq> h_keccak h ` E \<and> (\<forall>b\<in>E. length b = 84) \<and> E \<union> I \<subseteq> K \<and> inj_on (h_keccak h) K"

lemma node_length: "tree_ok h leaves E I K \<Longrightarrow> node h leaves I x \<Longrightarrow> length x = 32"
  by (erule node.cases) (auto simp: tree_ok_def length_hash_pair sound_hasherD(1))

lemma pair_of_node:
  assumes t: "tree_ok h leaves E I K" and m: "length m = 32" and s: "length s = 32"
    and K: "pair_input m s \<in> K" and nd: "node h leaves I (hash_pair h m s)"
  shows "node h leaves I m"
  using nd
proof cases
  case node_leaf
  with t obtain b where "b \<in> E" "h_keccak h b = h_keccak h (pair_input m s)" "length b = 84"
    by (auto simp: tree_ok_def hash_pair_input)
  with t K have "b = pair_input m s" by (auto simp: tree_ok_def inj_on_def)
  with \<open>length b = 84\<close> m s show ?thesis by (simp add: length_pair_input)
next
  case (node_pair a b)
  have "h_keccak h (pair_input m s) = h_keccak h (pair_input a b)"
    using node_pair(1) by (simp add: hash_pair_input)
  then have "pair_input m s = pair_input a b"
    using t K node_pair(4) unfolding tree_ok_def inj_on_def by blast
  from pair_input_halves [OF m s node_length [OF t node_pair(2)] node_length [OF t node_pair(3)] this]
  show ?thesis using node_pair(2,3) by auto
qed

lemma proof_from_node:
  assumes t: "tree_ok h leaves E I K"
  shows "length m = 32 \<Longrightarrow> \<forall>s\<in>set p. length s = 32 \<Longrightarrow> set (path_inputs h m p) \<subseteq> K \<Longrightarrow>
    node h leaves I (foldl (hash_pair h) m p) \<Longrightarrow> node h leaves I m"
proof (induction p rule: rev_induct)
  case (snoc s p)
  have "length (foldl (hash_pair h) m p) = 32"
    using snoc.prems(1) t by (cases p rule: rev_cases) (simp_all add: tree_ok_def length_hash_pair)
  with snoc.prems pair_of_node [OF t, of "foldl (hash_pair h) m p" s]
  have "node h leaves I (foldl (hash_pair h) m p)" by simp
  with snoc show ?case by simp
qed simp

lemma leaf_of_node:
  assumes t: "tree_ok h leaves E I K" and b: "length b = 84" "b \<in> K" and nd: "node h leaves I (h_keccak h b)"
  shows "b \<in> E"
  using nd
proof cases
  case node_leaf
  with t obtain b' where "b' \<in> E" "h_keccak h b = h_keccak h b'" by (auto simp: tree_ok_def)
  moreover from this t b(2) have "b = b'" unfolding tree_ok_def inj_on_def by blast
  ultimately show ?thesis by simp
next
  case (node_pair a c)
  have "h_keccak h b = h_keccak h (pair_input a c)" using node_pair(1) by (simp add: hash_pair_input)
  then have "b = pair_input a c"
    using t b(2) node_pair(4) unfolding tree_ok_def inj_on_def by blast
  with b(1) node_length [OF t node_pair(2)] node_length [OF t node_pair(3)] show ?thesis
    by (simp add: length_pair_input)
qed


lemma checksummed_entries:
  assumes "sound_hasher h" and "sorted_entries h entries = Inr es" and "i < length es"
  shows "h_to_checksum_address h (fst (es ! i)) = Inr (fst (es ! i))"
proof -
  from assms(2) obtain ys where
    t: "traverse (\<lambda>(acct, amt). bindE (h_to_checksum_address h acct) (\<lambda>c. Inr (c, amt))) entries = Inr ys"
    and es: "es = sort ys" by (auto simp: sorted_entries_def bindE_eq_Inr)
  from assms(3) es have "es ! i \<in> set ys" by (metis nth_mem set_sort)
  then obtain j where j: "j < length entries" "es ! i = ys ! j"
    using traverse_Inr [OF t] by (auto simp: in_set_conv_nth)
  with traverse_Inr [OF t]
  have "(case entries ! j of (acct, amt) \<Rightarrow> bindE (h_to_checksum_address h acct) (\<lambda>c. Inr (c, amt))) = Inr (es ! i)"
    by simp
  then have "h_to_checksum_address h (fst (entries ! j)) = Inr (fst (es ! i))"
    by (cases "entries ! j"; cases "es ! i") (auto simp: bindE_eq_Inr)
  then show ?thesis by (rule sound_hasherD(4) [OF assms(1)])
qed

lemma entry_inputs:
  "set (concat (map (\<lambda>(i, a, n). leaf_inputs h (int i) a n) (enumerate 0 es))) =
     (\<Union>i<length es. set (leaf_inputs h (int i) (fst (es ! i)) (snd (es ! i))))"
proof -
  have "enumerate 0 es = map (\<lambda>i. (i, es ! i)) [0..<length es]"
    by (rule nth_equalityI) (simp_all add: nth_enumerate_eq)
  then show ?thesis by (simp add: case_prod_beta' atLeast0LessThan comp_def)
qed

lemma built_tree_ok:
  assumes h: "sound_hasher h" and b: "build_distribution h entries = Inr d" "sorted_entries h entries = Inr es"
    and K: "set (distribution_inputs h es (md_leaves d)) \<subseteq> K" and inj: "inj_on (h_keccak h) K"
  defines "E \<equiv> set (concat (map (\<lambda>(i, a, n). leaf_inputs h (int i) a n) (enumerate 0 es)))"
    and "I \<equiv> set (concat (map level_inputs (levels h (md_leaves d))))"
  shows "tree_ok h (md_leaves d) E I K" and "node h (md_leaves d) I (md_root d)"
proof -
  note B = build_InrE [OF b]
  have E: "leaf_inputs h (int i) (fst (es ! i)) (snd (es ! i)) = [x] \<Longrightarrow> i < length es \<Longrightarrow> x \<in> E" for i x
    unfolding E_def entry_inputs by force
  have "y \<in> h_keccak h ` E" if y: "y \<in> set (md_leaves d)" for y
  proof -
    from y obtain i where i: "i < length es" "y = md_leaves d ! i" by (auto simp: in_set_conv_nth B(4))
    from B(5) [OF i(1)] obtain x where "leaf_inputs h (int i) (fst (es ! i)) (snd (es ! i)) = [x]" "y = h_keccak h x"
      by (elim leaf_hashE) (simp add: i)
    with E i(1) show ?thesis by blast
  qed
  moreover have "length x = 84" if "x \<in> E" for x
    using that sound_hasherD(2) [OF h] unfolding E_def entry_inputs by (blast dest: leaf_inputsD)
  moreover have "E \<union> I \<subseteq> K" using K by (auto simp: distribution_inputs_def E_def I_def)
  ultimately show t: "tree_ok h (md_leaves d) E I K"
    using h inj by (auto simp: tree_ok_def)
  have "es \<noteq> []" using B(1) b(2) by (cases entries) (auto simp: sorted_entries_def bindE_eq_Inr)
  with B(4) have "md_leaves d \<noteq> []" by auto
  from root_node [OF this subset_refl] show "node h (md_leaves d) I (md_root d)"
    unfolding I_def B(6) .
qed

text \<open>C11: In a distribution that was built, the entry at every index of the canonical order is
  accepted by the verifier with the proof stored for that index, whatever spelling of the
  account with that checksum the claimer presents.\<close>

theorem built_proofs_verify:
  assumes "sound_hasher h" and "build_distribution h entries = Inr d" and "sorted_entries h entries = Inr es"
    and "index < length es" and "h_to_checksum_address h account = Inr (fst (es ! index))"
  shows "verify_proof h (md_root d) (int index) account (snd (es ! index)) (md_proofs d ! index) = Inr True"
proof -
  note B = build_InrE [OF assms(2,3)]
  from assms(5) have "h_to_checksum_address h (fst (es ! index)) = Inr (fst (es ! index))"
    by (rule sound_hasherD(4) [OF assms(1)])
  with assms(5) B(5) [OF assms(4)] have
    "leaf_hash h (int index) account (snd (es ! index)) = Inr (md_leaves d ! index)"
    by (simp add: leaf_hash_def)
  with assms(4) B(4,6,7) proof_reaches_root [of index "md_leaves d" h] show ?thesis
    by (simp add: verify_proof_def)
qed

text \<open>C10: A claim that the verifier accepts against a built root, with 32-byte siblings, is an entry of
  the distribution at its index: account, index and amount cannot be forged unless the hash
  collides on one of the strings that this build and this verification hash.\<close>

theorem accepted_claim_in_distribution:
  assumes h: "sound_hasher h" and b: "build_distribution h entries = Inr d" "sorted_entries h entries = Inr es"
    and v: "verify_proof h (md_root d) index account amount p = Inr True"
    and p: "\<forall>s\<in>set p. length s = 32"
    and inj: "inj_on (h_keccak h) (set (distribution_inputs h es (md_leaves d)) \<union> set (claim_inputs h index account amount p))"
  shows "\<exists>i c. i < length es \<and> index = int i \<and> h_to_checksum_address h account = Inr c \<and> es ! i = (c, amount)"
proof -
  let ?K = "set (distribution_inputs h es (md_leaves d)) \<union> set (claim_inputs h index account amount p)"
  note t = built_tree_ok [OF h b Un_upper1 inj]
  from v obtain m where m: "leaf_hash h index account amount = Inr m" "foldl (hash_pair h) m p = md_root d"
    by (auto simp: verify_proof_def bindE_eq_Inr)
  from m(1) obtain c x where c: "h_to_checksum_address h account = Inr c" "h_encode_packed h index c amount = Inr x"
    "m = h_keccak h x" "leaf_inputs h index account amount = [x]" by (rule leaf_hashE)
  have K: "set (path_inputs h m p) \<subseteq> ?K" "x \<in> ?K" using m(1) c(4) by (auto simp: claim_inputs_def)
  have "node h (md_leaves d) (set (concat (map level_inputs (levels h (md_leaves d))))) m"
    using proof_from_node [OF t(1) leaf_hash_length [OF h m(1)] p K(1)] t(2) m(2) by simp
  then have "x \<in> set (concat (map (\<lambda>(i, a, n). leaf_inputs h (int i) a n) (enumerate 0 es)))"
    unfolding c(3) by (rule leaf_of_node [OF t(1) sound_hasherD(2) [OF h c(2)] K(2)])
  then obtain i where i: "i < length es" "x \<in> set (leaf_inputs h (int i) (fst (es ! i)) (snd (es ! i)))"
    unfolding entry_inputs by auto
  then obtain c' where c': "h_to_checksum_address h (fst (es ! i)) = Inr c'"
    "h_encode_packed h (int i) c' (snd (es ! i)) = Inr x"
    by (blast dest: leaf_inputsD)
  have "(fst (es ! i)) = c'" using checksummed_entries [OF h b(2) i(1)] c'(1) by simp
  with sound_hasherD(3) [OF h c(1) c'(1) c(2) c'(2)] i(1) c(1) show ?thesis by (metis prod.collapse)
qed

subsection \<open>Base units\<close>

text \<open>\<open>int(d)\<close> cuts the fraction off and refuses an infinity and a NaN.\<close>

definition dec_to_int :: "dec \<Rightarrow> int option" where
  "dec_to_int d =
     (case d of
        Dec s c e \<Rightarrow>
          let m = (if 0 \<le> e then c * 10 ^ nat e else c div 10 ^ nat (- e)) in Some (if s then - int m else int m)
      | _ \<Rightarrow> None)"

definition usd_to_base_units :: "pyfloat \<Rightarrow> nat \<Rightarrow> merkle_error + int" where
  "usd_to_base_units amount_usd decimals =
     (if fl_lt amount_usd (Fin 0) then Inl NegativeReward
      else case dec_parse (fl_repr amount_usd) of
        None \<Rightarrow> Inl NotFinite
      | Some d \<Rightarrow>
          (case dec_mul d (Dec False (10 ^ decimals) 0) of
             Inl _ \<Rightarrow> Inl NotFinite
           | Inr r \<Rightarrow> (case dec_to_int r of None \<Rightarrow> Inl NotFinite | Some n \<Rightarrow> Inr n)))"

lemma dec_to_int_floor:
  assumes "dec_to_int (Dec False c e) = Some n"
  shows "of_int n \<le> dec_val (Dec False c e) \<and> dec_val (Dec False c e) < of_int n + 1 \<and> 0 \<le> n"
proof (cases "0 \<le> e")
  case True
  with assms have "n = int (c * 10 ^ nat e)" by (simp add: dec_to_int_def)
  with True show ?thesis by (simp add: pow10_nat)
next
  case False
  let ?d = "10 ^ nat (- e) :: nat"
  from False assms have n: "n = int (c div ?d)" by (simp add: dec_to_int_def)
  have p: "pow10 e = 1 / of_nat ?d" using False by (simp add: pow10_def)
  have "c div ?d * ?d \<le> c" "c < (c div ?d + 1) * ?d"
    using dividend_less_times_div [of ?d c] by (simp_all add: algebra_simps)
  then have "(of_nat (c div ?d * ?d) :: rat) \<le> of_nat c" "(of_nat c :: rat) < of_nat ((c div ?d + 1) * ?d)"
    by (simp_all only: of_nat_le_iff of_nat_less_iff)
  then have "(of_nat (c div ?d) :: rat) \<le> of_nat c / of_nat ?d" "(of_nat c :: rat) / of_nat ?d < of_nat (c div ?d) + 1"
    by (simp_all add: field_simps)
  then show ?thesis by (simp add: n p)
qed

text \<open>C28: The base units of a reward are its printed decimal value times ten to the number of decimals, rounded down:
  the leaf of a user never exceeds the reward, and falls short of it by less than one unit.\<close>

theorem base_units_round_down:
  assumes "usd_to_base_units x 6 = Inr n" and "dec_parse (fl_repr x) = Some d" and "dec_wf d" and "dec_coeff d < 10 ^ 21"
    and "\<not> dec_neg d"
  shows "0 \<le> n \<and> of_int n \<le> dec_val d * 10 ^ 6 \<and> dec_val d * 10 ^ 6 < of_int n + 1"
proof -
  obtain c e where d: "d = Dec False c e" "c < 10 ^ 21" "dec_Etiny \<le> e"
    using assms(3-5) by (cases d) auto
  obtain r where r: "dec_fix False (c * 10 ^ 6) e = Inr r" "dec_to_int r = Some n"
    using assms(1,2) d(1) by (auto simp: usd_to_base_units_def split: if_splits sum.splits option.splits)
  have "c * 10 ^ 6 < 10 ^ 28" using d(2) by simp
  then have "int (ndigits (c * 10 ^ 6)) \<le> dec_prec" using ndigits_le_iff [of 28 "c * 10 ^ 6"] by (simp add: dec_prec_def)
  with d(3) have m: "c * 10 ^ 6 = 0 \<or> max (int (ndigits (c * 10 ^ 6)) + e - dec_prec) dec_Etiny \<le> e" by simp
  obtain e' where e': "r = Dec False (c * 10 ^ 6) e'" "of_nat (c * 10 ^ 6) * pow10 e' = of_nat (c * 10 ^ 6) * pow10 e"
    using dec_fix_exact [OF r(1) m] by blast
  have "dec_val r = dec_val d * 10 ^ 6" using e'(2) unfolding e'(1) d(1) by (simp add: algebra_simps)
  with dec_to_int_floor [OF r(2) [unfolded e'(1)]] e'(1) show ?thesis by simp
qed

theorem base_units_round_down_witness:
  "(0 :: int) \<le> 5000000 \<and> of_int 5000000 \<le> dec_val (Dec False 50 (- 1)) * 10 ^ 6 \<and>
   dec_val (Dec False 50 (- 1)) * 10 ^ 6 < of_int 5000000 + 1"
proof -
  have "usd_to_base_units (Fin 5) 6 = Inr 5000000" by code_simp
  moreover have "dec_parse (fl_repr (Fin 5)) = Some (Dec False 50 (- 1))" by code_simp
  ultimately show ?thesis
    by (rule base_units_round_down) (simp_all add: dec_Etiny_def dec_Emax_def)
qed

subsection \<open>A concrete hasher\<close>

text \<open>
  Two addresses, indices and amounts below 256, and a digest that has no collision on the strings
  of the sample distribution.
\<close>

definition sample_checksum :: "string \<Rightarrow> merkle_error + string" where
  "sample_checksum a =
     (if a = ''a'' \<or> a = ''A'' then Inr ''A'' else if a = ''b'' \<or> a = ''B'' then Inr ''B'' else Inl (MerkleExternal a))"

definition sample_encode :: "int \<Rightarrow> string \<Rightarrow> int \<Rightarrow> merkle_error + bytes" where
  "sample_encode i a n =
     (if 0 \<le> i \<and> i < 256 \<and> (a = ''A'' \<or> a = ''B'') \<and> 0 \<le> n \<and> n < 256
      then Inr (replicate 31 0 @ word_of_int i # replicate 19 0 @ (if a = ''A'' then 1 else 2) # replicate 31 0 @ [word_of_int n])
      else Inl (MerkleExternal a))"

definition sample_keccak :: "bytes \<Rightarrow> bytes" where
  "sample_keccak b = b ! 31 # b ! 51 # last b # replicate 29 0"

definition sample_hasher :: hasher where
  "sample_hasher = \<lparr>h_keccak = sample_keccak, h_encode_packed = sample_encode, h_to_checksum_address = sample_checksum\<rparr>"

lemma byte_inj: "0 \<le> i \<Longrightarrow> i < 256 \<Longrightarrow> 0 \<le> j \<Longrightarrow> j < 256 \<Longrightarrow> (word_of_int i :: 8 word) = word_of_int j \<Longrightarrow> i = j"
  by (simp add: word_of_int_eq_iff take_bit_eq_mod)

lemma sample_encode_inj:
  assumes "sample_encode i a n = Inr b" and "sample_encode i' a' n' = Inr b"
  shows "i = i' \<and> a = a' \<and> n = n'"
proof -
  have e: "0 \<le> k \<and> k < 256 \<and> 0 \<le> m \<and> m < 256 \<and> (c = ''A'' \<or> c = ''B'') \<and>
      b ! 31 = word_of_int k \<and> b ! 51 = (if c = ''A'' then 1 else 2) \<and> last b = word_of_int m"
    if "sample_encode k c m = Inr b" for k c m
    using that by (auto simp: sample_encode_def nth_append nth_Cons' split: if_splits)
  from e [OF assms(1)] e [OF assms(2)] have "(word_of_int i :: 8 word) = word_of_int i'" "(word_of_int n :: 8 word) = word_of_int n'"
    "(if a = ''A'' then 1 else 2 :: 8 word) = (if a' = ''A'' then 1 else 2)" by metis+
  moreover from this(3) have "(a = ''A'') = (a' = ''A'')" by (simp split: if_splits)
  ultimately show ?thesis using e [OF assms(1)] e [OF assms(2)] byte_inj [of i i'] byte_inj [of n n'] by auto
qed

lemma sample_sound: "sound_hasher sample_hasher"
  unfolding sound_hasher_def sample_hasher_def hasher.simps
proof (intro conjI allI impI)
  show "length (sample_keccak b) = 32" for b by (simp add: sample_keccak_def)
  show "sample_encode i a n = Inr b \<Longrightarrow> length b = 84" for i a n b
    by (auto simp: sample_encode_def split: if_splits)
  show "i = i'" "a = a'" "n = n'" if "sample_encode i a n = Inr b" "sample_encode i' a' n' = Inr b" for i a n b i' a' n'
    using sample_encode_inj [OF that] by simp_all
  show "sample_checksum a = Inr c \<Longrightarrow> sample_checksum c = Inr c" for a c
    by (auto simp: sample_checksum_def split: if_splits)
qed

definition sample_entries :: "(string \<times> int) list" where
  "sample_entries = [(''b'', 5), (''a'', 7)]"

lemma sample_sorted: "sorted_entries sample_hasher sample_entries = Inr [(''A'', 7), (''B'', 5)]"
  by code_simp

definition sample_distribution :: MerkleDistribution where
  "sample_distribution = (case build_distribution sample_hasher sample_entries of Inr d \<Rightarrow> d | Inl _ \<Rightarrow> undefined)"

lemma sample_built: "build_distribution sample_hasher sample_entries = Inr sample_distribution"
proof -
  have "case build_distribution sample_hasher sample_entries of Inr d \<Rightarrow> True | Inl _ \<Rightarrow> False" by code_simp
  then show ?thesis by (auto simp: sample_distribution_def split: sum.splits)
qed

theorem built_proofs_verify_witness:
  "verify_proof sample_hasher (md_root sample_distribution) 1 ''b'' 5 (md_proofs sample_distribution ! 1) = Inr True"
  using built_proofs_verify [OF sample_sound sample_built sample_sorted, of 1 "''b''"]
  by (simp add: sample_hasher_def sample_checksum_def)

lemma sample_claim:
  "(\<forall>s\<in>set (md_proofs sample_distribution ! 1). length s = 32) \<and>
   (let K = distribution_inputs sample_hasher [(''A'', 7), (''B'', 5)] (md_leaves sample_distribution) @
            claim_inputs sample_hasher 1 ''b'' 5 (md_proofs sample_distribution ! 1)
    in \<forall>x\<in>set K. \<forall>y\<in>set K. h_keccak sample_hasher x = h_keccak sample_hasher y \<longrightarrow> x = y)"
  by code_simp

theorem accepted_claim_in_distribution_witness:
  "\<exists>i c. i < length [(''A'', 7 :: int), (''B'', 5)] \<and> (1 :: int) = int i \<and>
     h_to_checksum_address sample_hasher ''b'' = Inr c \<and> [(''A'', 7), (''B'', 5)] ! i = (c, 5 :: int)"
  by (rule accepted_claim_in_distribution [OF sample_sound sample_built sample_sorted built_proofs_verify_witness])
    (use sample_claim in \<open>auto simp: inj_on_def Let_def\<close>)

end
