(* ===== verification/CustodialLedger.thy ===== *)
theory CustodialLedger
  imports PyDecimal "HOL-Library.Multiset"
begin

text \<open>
  The custodial ledger: \<open>bot/models/custodial.py\<close> and the balance and transaction
  operations of \<open>bot/services/hot_wallet.py\<close>.  Balances are stored as texts, as in the
  table.  The token registry (\<open>get_token_address\<close>) is a parameter of the operations that
  store an address; instants are seconds.
\<close>

subsection \<open>Tables\<close>

datatype TransactionType = TX_DEPOSIT | TX_WITHDRAWAL | TX_SWAP_IN | TX_SWAP_OUT | TX_GAS_SPONSORSHIP | TX_FEE | TX_REFUND

datatype TransactionStatus = TX_PENDING | TX_CONFIRMING | TX_COMPLETED | TX_FAILED | TX_CANCELLED

record CustodialBalance =
  cb_id :: int
  cb_user_id :: int
  cb_chain :: string
  cb_token_symbol :: string
  cb_token_address :: string
  cb_balance :: string

record CustodialTransaction =
  ct_id :: int
  ct_user_id :: int
  ct_tx_type :: TransactionType
  ct_status :: TransactionStatus
  ct_chain :: string
  ct_token_symbol :: string
  ct_token_address :: string
  ct_amount :: string
  ct_tx_hash :: "string option"
  ct_from_address :: "string option"
  ct_to_address :: "string option"
  ct_gas_sponsored :: bool
  ct_gas_cost :: "string option"
  ct_notes :: "string option"
  ct_idempotency_key :: "string option"
  ct_created_at :: int
  ct_completed_at :: "int option"

text \<open>Transaction rows can be deleted, so their primary keys come from a sequence.\<close>

record ledger =
  lg_balances :: "CustodialBalance list"
  lg_txs :: "CustodialTransaction list"
  lg_next_tx :: int

datatype ledger_error = InsufficientBalance | UnknownOperation string | NotADecimal string | BalanceSignal dec_signal | DuplicateKey

type_synonym token_registry = "string \<Rightarrow> string \<Rightarrow> string option"

subsection \<open>Decimal helpers\<close>

definition dec_flip :: "dec \<Rightarrow> dec" where
  "dec_flip d = (case d of Dec s c e \<Rightarrow> Dec (\<not> s) c e | DInf s \<Rightarrow> DInf (\<not> s) | DNaN q \<Rightarrow> DNaN q)"

definition dec_sub :: "dec \<Rightarrow> dec \<Rightarrow> dec_signal + dec" where
  "dec_sub a b = dec_add a (dec_flip b)"

definition dec_less :: "dec \<Rightarrow> dec \<Rightarrow> dec_signal + bool" where
  "dec_less a b = bindE (dec_le b a) (\<lambda>x. Inr (\<not> x))"

definition read_decimal :: "string \<Rightarrow> ledger_error + dec" where
  "read_decimal s = (case dec_parse s of None \<Rightarrow> Inl (NotADecimal s) | Some d \<Rightarrow> Inr d)"

subsection \<open>Balances\<close>

definition same_account :: "int \<Rightarrow> string \<Rightarrow> string \<Rightarrow> CustodialBalance \<Rightarrow> bool" where
  "same_account user_id chain token b \<longleftrightarrow> cb_user_id b = user_id \<and> cb_chain b = chain \<and> cb_token_symbol b = token"

definition find_balance :: "int \<Rightarrow> string \<Rightarrow> string \<Rightarrow> ledger \<Rightarrow> CustodialBalance option" where
  "find_balance user_id chain token lg = List.find (same_account user_id chain token) (lg_balances lg)"

definition get_custodial_balance :: "int \<Rightarrow> string \<Rightarrow> string \<Rightarrow> ledger \<Rightarrow> ledger_error + dec" where
  "get_custodial_balance user_id chain token lg =
     (case find_balance user_id chain token lg of
        None \<Rightarrow> Inr dec_zero
      | Some b \<Rightarrow> read_decimal (cb_balance b))"

definition get_all_custodial_balances ::
  "int \<Rightarrow> ledger \<Rightarrow> ledger_error + (string \<Rightarrow> string \<Rightarrow> dec option)" where
  "get_all_custodial_balances user_id lg =
     fold (\<lambda>b acc. bindE acc (\<lambda>m. bindE (read_decimal (cb_balance b))
            (\<lambda>d. Inr (m (cb_chain b := (m (cb_chain b)) (cb_token_symbol b \<mapsto> d))))))
       (filter (\<lambda>b. cb_user_id b = user_id) (lg_balances lg)) (Inr (\<lambda>_. Map.empty))"

definition NATIVE_TOKEN_ADDRESS :: string where
  "NATIVE_TOKEN_ADDRESS = ''0x0000000000000000000000000000000000000000''"

definition set_balance :: "int \<Rightarrow> string \<Rightarrow> ledger \<Rightarrow> ledger" where
  "set_balance i s lg = lg\<lparr>lg_balances := upd_where (\<lambda>b. cb_id b = i) (\<lambda>b. b\<lparr>cb_balance := s\<rparr>) (lg_balances lg)\<rparr>"

datatype balance_op = OpAdd | OpSubtract | OpOther string

definition moved_balance :: "balance_op \<Rightarrow> dec \<Rightarrow> dec \<Rightarrow> ledger_error + dec" where
  "moved_balance operation current amount =
     (case operation of
        OpAdd \<Rightarrow> mapErr BalanceSignal (dec_add current amount)
      | OpSubtract \<Rightarrow>
          bindE (mapErr BalanceSignal (dec_sub current amount)) (\<lambda>r.
          bindE (mapErr BalanceSignal (dec_less r dec_zero)) (\<lambda>neg.
            if neg then Inl InsufficientBalance else Inr r))
      | OpOther s \<Rightarrow> Inl (UnknownOperation s))"

definition open_balance :: "token_registry \<Rightarrow> int \<Rightarrow> string \<Rightarrow> string \<Rightarrow> ledger \<Rightarrow> CustodialBalance \<times> ledger" where
  "open_balance reg user_id chain token lg =
     (case find_balance user_id chain token lg of
        Some b \<Rightarrow> (b, lg)
      | None \<Rightarrow>
          let b = \<lparr>cb_id = next_id (map cb_id (lg_balances lg)), cb_user_id = user_id, cb_chain = chain,
                   cb_token_symbol = token, cb_token_address = py_or (reg token chain) NATIVE_TOKEN_ADDRESS,
                   cb_balance = ''0''\<rparr>
          in (b, lg\<lparr>lg_balances := lg_balances lg @ [b]\<rparr>))"

definition apply_custodial_balance ::
  "token_registry \<Rightarrow> int \<Rightarrow> string \<Rightarrow> string \<Rightarrow> dec \<Rightarrow> balance_op \<Rightarrow> ledger \<Rightarrow> ledger_error + (dec \<times> ledger)" where
  "apply_custodial_balance reg user_id chain token amount operation lg =
     (let (b, lg1) = open_balance reg user_id chain token lg
      in bindE (read_decimal (cb_balance b)) (\<lambda>current.
         bindE (moved_balance operation current amount) (\<lambda>new_balance.
           Inr (new_balance, set_balance (cb_id b) (dec_str new_balance) lg1))))"

text \<open>Without a session of the caller the whole move is one transaction, undone when it raises.\<close>

definition update_custodial_balance ::
  "token_registry \<Rightarrow> int \<Rightarrow> string \<Rightarrow> string \<Rightarrow> dec \<Rightarrow> balance_op \<Rightarrow> ledger \<Rightarrow> (ledger_error + dec) \<times> ledger" where
  "update_custodial_balance reg user_id chain token amount operation lg =
     (case apply_custodial_balance reg user_id chain token amount operation lg of
        Inl e \<Rightarrow> (Inl e, lg)
      | Inr (new_balance, lg') \<Rightarrow> (Inr new_balance, lg'))"

subsection \<open>Reserving a balance\<close>

text \<open>
  The compare-and-swap loop.  \<open>RTry k\<close> has \<open>k\<close> rounds left and reads the row; \<open>RCas\<close> holds
  the row's key, the text that was read and the text to write.  Another session can commit
  between the two.
\<close>

datatype reserve_pc = RTry nat | RCas nat int string string | RDone "ledger_error + bool"

definition reserve_read :: "int \<Rightarrow> string \<Rightarrow> string \<Rightarrow> dec \<Rightarrow> nat \<Rightarrow> ledger \<Rightarrow> reserve_pc" where
  "reserve_read user_id chain token amount k lg =
     (case find_balance user_id chain token lg of
        None \<Rightarrow> RDone (Inr False)
      | Some row \<Rightarrow>
          (case bindE (read_decimal (cb_balance row)) (\<lambda>current.
                bindE (mapErr BalanceSignal (dec_less current amount)) (\<lambda>less.
                  if less then Inr None else
                  bindE (mapErr BalanceSignal (dec_sub current amount)) (\<lambda>new_balance. Inr (Some new_balance)))) of
             Inl e \<Rightarrow> RDone (Inl e)
           | Inr None \<Rightarrow> RDone (Inr False)
           | Inr (Some new_balance) \<Rightarrow> RCas k (cb_id row) (cb_balance row) (dec_str new_balance)))"

definition cas_balance :: "int \<Rightarrow> string \<Rightarrow> string \<Rightarrow> ledger \<Rightarrow> bool \<times> ledger" where
  "cas_balance i expected new_text lg =
     (let P = (\<lambda>b. cb_id b = i \<and> cb_balance b = expected)
      in (\<exists>b\<in>set (lg_balances lg). P b,
          lg\<lparr>lg_balances := upd_where P (\<lambda>b. b\<lparr>cb_balance := new_text\<rparr>) (lg_balances lg)\<rparr>))"

fun reserve_step :: "int \<Rightarrow> string \<Rightarrow> string \<Rightarrow> dec \<Rightarrow> reserve_pc \<Rightarrow> ledger \<Rightarrow> reserve_pc \<times> ledger" where
  "reserve_step user_id chain token amount (RTry 0) lg = (RDone (Inr False), lg)"
| "reserve_step user_id chain token amount (RTry (Suc k)) lg = (reserve_read user_id chain token amount k lg, lg)"
| "reserve_step user_id chain token amount (RCas k i expected new_text) lg =
     (case cas_balance i expected new_text lg of
        (True, lg') \<Rightarrow> (RDone (Inr True), lg')
      | (False, lg') \<Rightarrow> (RTry k, lg'))"
| "reserve_step user_id chain token amount (RDone r) lg = (RDone r, lg)"

definition reserve_start :: "dec \<Rightarrow> nat \<Rightarrow> reserve_pc" where
  "reserve_start amount max_retries =
     (case dec_le amount dec_zero of
        Inl s \<Rightarrow> RDone (Inl (BalanceSignal s))
      | Inr True \<Rightarrow> RDone (Inr False)
      | Inr False \<Rightarrow> RTry max_retries)"

text \<open>An uninterrupted call; \<open>max_retries\<close> defaults to 5, and eleven steps always suffice.\<close>

fun reserve_steps ::
  "nat \<Rightarrow> int \<Rightarrow> string \<Rightarrow> string \<Rightarrow> dec \<Rightarrow> reserve_pc \<Rightarrow> ledger \<Rightarrow> reserve_pc \<times> ledger" where
  "reserve_steps 0 user_id chain token amount pc lg = (pc, lg)"
| "reserve_steps (Suc n) user_id chain token amount pc lg =
     (case reserve_step user_id chain token amount pc lg of
        (pc', lg') \<Rightarrow> reserve_steps n user_id chain token amount pc' lg')"

definition reserve_custodial_balance ::
  "int \<Rightarrow> string \<Rightarrow> string \<Rightarrow> dec \<Rightarrow> ledger \<Rightarrow> (ledger_error + bool) option \<times> ledger" where
  "reserve_custodial_balance user_id chain token amount lg =
     (case reserve_steps 11 user_id chain token amount (reserve_start amount 5) lg of
        (RDone r, lg') \<Rightarrow> (Some r, lg')
      | (_, lg') \<Rightarrow> (None, lg'))"

subsection \<open>Transaction rows\<close>

definition find_tx :: "int \<Rightarrow> ledger \<Rightarrow> CustodialTransaction option" where
  "find_tx i lg = List.find (\<lambda>t. ct_id t = i) (lg_txs lg)"

definition upd_txs :: "(CustodialTransaction \<Rightarrow> bool) \<Rightarrow> (CustodialTransaction \<Rightarrow> CustodialTransaction) \<Rightarrow> ledger \<Rightarrow> bool \<times> ledger" where
  "upd_txs P f lg = (\<exists>t\<in>set (lg_txs lg). P t, lg\<lparr>lg_txs := upd_where P f (lg_txs lg)\<rparr>)"

text \<open>\<open>UNIQUE(user_id, idempotency_key)\<close>; rows without a key do not collide.\<close>

definition key_taken :: "int \<Rightarrow> string option \<Rightarrow> ledger \<Rightarrow> bool" where
  "key_taken user_id key lg \<longleftrightarrow> key \<noteq> None \<and> (\<exists>t\<in>set (lg_txs lg). ct_user_id t = user_id \<and> ct_idempotency_key t = key)"

definition insert_tx :: "CustodialTransaction \<Rightarrow> ledger \<Rightarrow> ledger_error + (int \<times> ledger)" where
  "insert_tx t lg =
     (if key_taken (ct_user_id t) (ct_idempotency_key t) lg then Inl DuplicateKey
      else Inr (lg_next_tx lg, lg\<lparr>lg_txs := lg_txs lg @ [t\<lparr>ct_id := lg_next_tx lg\<rparr>], lg_next_tx := lg_next_tx lg + 1\<rparr>))"

definition record_transaction ::
  "token_registry \<Rightarrow> int \<Rightarrow> int \<Rightarrow> TransactionType \<Rightarrow> string \<Rightarrow> string \<Rightarrow> dec \<Rightarrow> string option \<Rightarrow> string option
     \<Rightarrow> string option \<Rightarrow> bool \<Rightarrow> dec option \<Rightarrow> string option \<Rightarrow> string option \<Rightarrow> ledger
     \<Rightarrow> (ledger_error + CustodialTransaction option) \<times> ledger" where
  "record_transaction reg now user_id tx_type chain token amount tx_hash from_address to_address gas_sponsored gas_cost
       notes idempotency_key lg =
     (case insert_tx
         \<lparr>ct_id = 0, ct_user_id = user_id, ct_tx_type = tx_type, ct_status = TX_PENDING, ct_chain = chain,
          ct_token_symbol = token, ct_token_address = py_or (reg token chain) NATIVE_TOKEN_ADDRESS,
          ct_amount = dec_str amount, ct_tx_hash = tx_hash, ct_from_address = from_address, ct_to_address = to_address,
          ct_gas_sponsored = gas_sponsored,
          ct_gas_cost = (case gas_cost of Some g \<Rightarrow> if dec_true g then Some (dec_str g) else None | None \<Rightarrow> None),
          ct_notes = notes, ct_idempotency_key = idempotency_key, ct_created_at = now, ct_completed_at = None\<rparr> lg of
        Inl e \<Rightarrow> (Inl e, lg)
      | Inr (i, lg') \<Rightarrow> (Inr (find_tx i lg'), lg'))"

definition claim_idempotency_key ::
  "token_registry \<Rightarrow> int \<Rightarrow> string \<Rightarrow> int \<Rightarrow> TransactionType \<Rightarrow> string \<Rightarrow> string \<Rightarrow> dec \<Rightarrow> string option \<Rightarrow> ledger
     \<Rightarrow> int option \<times> ledger" where
  "claim_idempotency_key reg now idempotency_key user_id tx_type chain token amount to_address lg =
     (case insert_tx
         \<lparr>ct_id = 0, ct_user_id = user_id, ct_tx_type = tx_type, ct_status = TX_PENDING, ct_chain = chain,
          ct_token_symbol = token, ct_token_address = py_or (reg token chain) NATIVE_TOKEN_ADDRESS,
          ct_amount = dec_str amount, ct_tx_hash = None, ct_from_address = None, ct_to_address = to_address,
          ct_gas_sponsored = False, ct_gas_cost = None, ct_notes = None, ct_idempotency_key = Some idempotency_key,
          ct_created_at = now, ct_completed_at = None\<rparr> lg of
        Inl _ \<Rightarrow> (None, lg)
      | Inr (i, lg') \<Rightarrow> (Some i, lg'))"

definition finalize_claimed_transaction :: "int \<Rightarrow> int \<Rightarrow> string \<Rightarrow> string option \<Rightarrow> ledger \<Rightarrow> ledger" where
  "finalize_claimed_transaction now tx_id tx_hash from_address lg =
     snd (upd_txs (\<lambda>t. ct_id t = tx_id)
       (\<lambda>t. t\<lparr>ct_status := TX_COMPLETED, ct_tx_hash := Some tx_hash,
             ct_from_address := (if truthy from_address then from_address else ct_from_address t),
             ct_completed_at := Some now\<rparr>) lg)"

definition stamp_pending_tx_hash :: "int \<Rightarrow> string \<Rightarrow> ledger \<Rightarrow> ledger" where
  "stamp_pending_tx_hash tx_id tx_hash lg =
     (if tx_hash = [] then lg
      else snd (upd_txs (\<lambda>t. ct_id t = tx_id \<and> \<not> truthy (ct_tx_hash t)) (\<lambda>t. t\<lparr>ct_tx_hash := Some tx_hash\<rparr>) lg))"

definition record_pending_tx_hash :: "int \<Rightarrow> string option \<Rightarrow> ledger \<Rightarrow> bool \<times> ledger" where
  "record_pending_tx_hash tx_id tx_hash lg =
     (if \<not> truthy tx_hash then (False, lg)
      else upd_txs (\<lambda>t. ct_id t = tx_id \<and> ct_status t = TX_PENDING \<and> ct_tx_hash t = None) (\<lambda>t. t\<lparr>ct_tx_hash := tx_hash\<rparr>) lg)"

definition cas_transaction_status ::
  "int \<Rightarrow> int \<Rightarrow> TransactionStatus \<Rightarrow> TransactionStatus \<Rightarrow> string option \<Rightarrow> ledger \<Rightarrow> bool \<times> ledger" where
  "cas_transaction_status now tx_id expected_status new_status tx_hash lg =
     upd_txs (\<lambda>t. ct_id t = tx_id \<and> ct_status t = expected_status)
       (\<lambda>t. t\<lparr>ct_status := new_status,
             ct_completed_at := (if new_status = TX_COMPLETED then Some now else ct_completed_at t),
             ct_tx_hash := (if truthy tx_hash then tx_hash else ct_tx_hash t)\<rparr>) lg"

definition release_claimed_transaction :: "int \<Rightarrow> ledger \<Rightarrow> ledger" where
  "release_claimed_transaction tx_id lg = lg\<lparr>lg_txs := filter (\<lambda>t. ct_id t \<noteq> tx_id) (lg_txs lg)\<rparr>"

definition get_transaction_by_idempotency_key :: "int \<Rightarrow> string \<Rightarrow> ledger \<Rightarrow> CustodialTransaction option" where
  "get_transaction_by_idempotency_key user_id idempotency_key lg =
     (if idempotency_key = [] then None
      else List.find (\<lambda>t. ct_user_id t = user_id \<and> ct_idempotency_key t = Some idempotency_key) (lg_txs lg))"

definition update_transaction_status :: "int \<Rightarrow> int \<Rightarrow> TransactionStatus \<Rightarrow> string option \<Rightarrow> ledger \<Rightarrow> ledger" where
  "update_transaction_status now tx_id status tx_hash lg =
     snd (upd_txs (\<lambda>t. ct_id t = tx_id)
       (\<lambda>t. t\<lparr>ct_status := status, ct_tx_hash := (if truthy tx_hash then tx_hash else ct_tx_hash t),
             ct_completed_at := (if status = TX_COMPLETED then Some now else ct_completed_at t)\<rparr>) lg)"

subsection \<open>Reservations, credits and subtractions running together\<close>

text \<open>The sequential account that the concurrent one is compared with.\<close>

definition debit :: "int \<Rightarrow> string \<Rightarrow> string \<Rightarrow> dec \<Rightarrow> ledger \<Rightarrow> ledger option" where
  "debit user_id chain token amount lg =
     (case find_balance user_id chain token lg of
        None \<Rightarrow> None
      | Some b \<Rightarrow>
          (case dec_parse (cb_balance b) of
             None \<Rightarrow> None
           | Some current \<Rightarrow>
               (case (dec_less current amount, dec_sub current amount) of
                  (Inr False, Inr r) \<Rightarrow> Some (set_balance (cb_id b) (dec_str r) lg)
                | _ \<Rightarrow> None)))"

datatype ledger_op =
    Debit int string string dec
  | Credit int string string dec
  | Subtract int string string dec

fun run_op :: "token_registry \<Rightarrow> ledger_op \<Rightarrow> ledger \<Rightarrow> ledger option" where
  "run_op reg (Debit u c t a) lg = debit u c t a lg"
| "run_op reg (Credit u c t a) lg =
     (case apply_custodial_balance reg u c t a OpAdd lg of Inl _ \<Rightarrow> None | Inr (_, lg') \<Rightarrow> Some lg')"
| "run_op reg (Subtract u c t a) lg =
     (case apply_custodial_balance reg u c t a OpSubtract lg of Inl _ \<Rightarrow> None | Inr (_, lg') \<Rightarrow> Some lg')"

fun run_ops :: "token_registry \<Rightarrow> ledger_op list \<Rightarrow> ledger \<Rightarrow> ledger option" where
  "run_ops reg [] lg = Some lg"
| "run_ops reg (p # ps) lg = (case run_op reg p lg of None \<Rightarrow> None | Some lg' \<Rightarrow> run_ops reg ps lg')"

record reserve_call =
  rc_user :: int
  rc_chain :: string
  rc_token :: string
  rc_amount :: dec
  rc_pc :: reserve_pc

record lsys =
  ls_ledger :: ledger
  ls_calls :: "reserve_call list"
  ls_log :: "ledger_op list"

definition call_debit :: "reserve_call \<Rightarrow> ledger_op" where
  "call_debit c = Debit (rc_user c) (rc_chain c) (rc_token c) (rc_amount c)"

definition reserved :: "reserve_call \<Rightarrow> bool" where
  "reserved c \<longleftrightarrow> rc_pc c = RDone (Inr True)"

text \<open>Additions and subtractions are whole here; their two sections are those of \<open>balance_step\<close> below.\<close>

inductive ledger_step :: "token_registry \<Rightarrow> lsys \<Rightarrow> lsys \<Rightarrow> bool" for reg where
  call: "ledger_step reg s (s\<lparr>ls_calls := ls_calls s @
      [\<lparr>rc_user = u, rc_chain = ch, rc_token = t, rc_amount = a, rc_pc = reserve_start a 5\<rparr>]\<rparr>)"
| sec: "i < length (ls_calls s) \<Longrightarrow> c = ls_calls s ! i \<Longrightarrow>
    reserve_step (rc_user c) (rc_chain c) (rc_token c) (rc_amount c) (rc_pc c) (ls_ledger s) = (pc', lg') \<Longrightarrow>
    ledger_step reg s (s\<lparr>ls_ledger := lg', ls_calls := (ls_calls s)[i := c\<lparr>rc_pc := pc'\<rparr>],
      ls_log := ls_log s @ (if \<not> reserved c \<and> reserved (c\<lparr>rc_pc := pc'\<rparr>) then [call_debit c] else [])\<rparr>)"
| credit: "apply_custodial_balance reg u ch t a OpAdd (ls_ledger s) = Inr (r, lg') \<Longrightarrow>
    ledger_step reg s (s\<lparr>ls_ledger := lg', ls_log := ls_log s @ [Credit u ch t a]\<rparr>)"
| subtract: "apply_custodial_balance reg u ch t a OpSubtract (ls_ledger s) = Inr (r, lg') \<Longrightarrow>
    ledger_step reg s (s\<lparr>ls_ledger := lg', ls_log := ls_log s @ [Subtract u ch t a]\<rparr>)"

inductive ledger_reach :: "token_registry \<Rightarrow> ledger \<Rightarrow> lsys \<Rightarrow> bool" for reg lg0 where
  reach_init: "ledger_reach reg lg0 \<lparr>ls_ledger = lg0, ls_calls = [], ls_log = []\<rparr>"
| reach_step: "ledger_reach reg lg0 s \<Longrightarrow> ledger_step reg s s' \<Longrightarrow> ledger_reach reg lg0 s'"

lemma run_ops_append:
  "run_ops reg (ps @ qs) lg = (case run_ops reg ps lg of None \<Rightarrow> None | Some lg' \<Rightarrow> run_ops reg qs lg')"
  by (induction ps arbitrary: lg) (auto split: option.splits)

subsection \<open>Rows keep their account\<close>

definition balance_ids :: "ledger \<Rightarrow> int list" where
  "balance_ids lg = map cb_id (lg_balances lg)"

lemma find_balance_set [simp]:
  "find_balance u c t (set_balance i s lg) =
     map_option (\<lambda>b. if cb_id b = i then b\<lparr>cb_balance := s\<rparr> else b) (find_balance u c t lg)"
proof -
  have "List.find (same_account u c t) (upd_where (\<lambda>b. cb_id b = i) (\<lambda>b. b\<lparr>cb_balance := s\<rparr>) rows) =
      map_option (\<lambda>b. if cb_id b = i then b\<lparr>cb_balance := s\<rparr> else b) (List.find (same_account u c t) rows)" for rows
    by (induction rows) (auto simp: same_account_def)
  then show ?thesis by (simp add: find_balance_def set_balance_def)
qed

lemma balance_ids_set [simp]: "balance_ids (set_balance i s lg) = balance_ids lg"
  by (simp add: balance_ids_def set_balance_def map_upd_where)

lemma next_id_notin: "next_id ids \<notin> set ids"
  using next_id_fresh [of "next_id ids" ids] by auto

lemma open_balance_find:
  assumes "open_balance reg u c t lg = (b, lg')"
  shows "find_balance u' c' t' lg = Some b' \<Longrightarrow> find_balance u' c' t' lg' = Some b'"
    and "distinct (balance_ids lg) \<Longrightarrow> distinct (balance_ids lg')"
    and "lg_txs lg' = lg_txs lg"
    and "lg_next_tx lg' = lg_next_tx lg"
  using assms next_id_notin [of "map cb_id (lg_balances lg)"]
  by (auto simp: open_balance_def find_balance_def balance_ids_def find_append Let_def split: option.splits)

lemma apply_InrE:
  assumes "apply_custodial_balance reg u c t a op lg = Inr (r, lg')"
  obtains b lg1 current where "open_balance reg u c t lg = (b, lg1)" "read_decimal (cb_balance b) = Inr current"
    "moved_balance op current a = Inr r" "lg' = set_balance (cb_id b) (dec_str r) lg1"
  using assms by (auto simp: apply_custodial_balance_def bindE_eq_Inr split: prod.splits)

text \<open>A ledger that only grew: the row of an account stays the row of that account.\<close>

definition keeps_rows :: "ledger \<Rightarrow> ledger \<Rightarrow> bool" where
  "keeps_rows lg lg' \<longleftrightarrow>
     (\<forall>u c t b. find_balance u c t lg = Some b \<longrightarrow> (\<exists>b'. find_balance u c t lg' = Some b' \<and> cb_id b' = cb_id b)) \<and>
     (distinct (balance_ids lg) \<longrightarrow> distinct (balance_ids lg'))"

lemma keeps_rows_refl [simp]: "keeps_rows lg lg"
  by (simp add: keeps_rows_def)

lemma keeps_rows_set: "keeps_rows lg (set_balance i s lg)"
  by (auto simp: keeps_rows_def)

lemma keeps_rows_open: "open_balance reg u c t lg = (b, lg1) \<Longrightarrow> keeps_rows lg (set_balance i s lg1)"
  using open_balance_find [of reg u c t lg b lg1] by (auto simp: keeps_rows_def)

lemma keeps_rows_apply: "apply_custodial_balance reg u c t a op lg = Inr (r, lg') \<Longrightarrow> keeps_rows lg lg'"
  by (elim apply_InrE) (auto intro: keeps_rows_open)

subsection \<open>A balance move reads the balances only\<close>

lemma set_balance_balances:
  "lg_balances (set_balance i s lg) = upd_where (\<lambda>b. cb_id b = i) (\<lambda>b. b\<lparr>cb_balance := s\<rparr>) (lg_balances lg)"
  by (simp add: set_balance_def)

lemma find_balance_same: "lg_balances x = lg_balances y \<Longrightarrow> find_balance u c t x = find_balance u c t y"
  by (simp add: find_balance_def)

lemma open_balance_same:
  assumes "lg_balances x = lg_balances y"
  shows "fst (open_balance reg u c t x) = fst (open_balance reg u c t y)"
    "lg_balances (snd (open_balance reg u c t x)) = lg_balances (snd (open_balance reg u c t y))"
  using assms by (auto simp: open_balance_def find_balance_def Let_def split: option.splits)

lemma apply_same:
  assumes "apply_custodial_balance reg u c t a op x = Inr (r, x')" and "lg_balances x = lg_balances y"
  shows "\<exists>y'. apply_custodial_balance reg u c t a op y = Inr (r, y') \<and> lg_balances y' = lg_balances x'"
proof -
  obtain b x1 cur where ob: "open_balance reg u c t x = (b, x1)" and m: "read_decimal (cb_balance b) = Inr cur"
      "moved_balance op cur a = Inr r" "x' = set_balance (cb_id b) (dec_str r) x1"
    using assms(1) by (elim apply_InrE)
  obtain y1 where "open_balance reg u c t y = (b, y1)" "lg_balances y1 = lg_balances x1"
    using open_balance_same [OF assms(2), of reg u c t] ob by (cases "open_balance reg u c t y") auto
  with m show ?thesis by (simp add: apply_custodial_balance_def set_balance_balances)
qed

lemma update_same:
  assumes "update_custodial_balance reg u c t a op x = (Inr r, x')" and "lg_balances x = lg_balances y"
  shows "\<exists>y'. update_custodial_balance reg u c t a op y = (Inr r, y') \<and> lg_balances y' = lg_balances x'"
proof -
  have "apply_custodial_balance reg u c t a op x = Inr (r, x')"
    using assms(1) by (auto simp: update_custodial_balance_def split: sum.splits prod.splits)
  from apply_same [OF this assms(2)] show ?thesis by (auto simp: update_custodial_balance_def)
qed

subsection \<open>The reservation is a debit\<close>

definition cas_ready :: "int \<Rightarrow> string \<Rightarrow> string \<Rightarrow> dec \<Rightarrow> reserve_pc \<Rightarrow> ledger \<Rightarrow> bool" where
  "cas_ready u c t a pc lg =
     (case pc of
        RCas k i cur nw \<Rightarrow>
          (\<exists>b current r. find_balance u c t lg = Some b \<and> cb_id b = i \<and> dec_parse cur = Some current \<and>
             dec_less current a = Inr False \<and> dec_sub current a = Inr r \<and> nw = dec_str r)
      | _ \<Rightarrow> True)"

lemma cas_ready_simps [simp]: "cas_ready u c t a (RTry k) lg" "cas_ready u c t a (RDone r) lg"
  by (simp_all add: cas_ready_def)

lemma cas_ready_keeps: "cas_ready u c t a pc lg \<Longrightarrow> keeps_rows lg lg' \<Longrightarrow> cas_ready u c t a pc lg'"
  by (cases pc) (fastforce simp: cas_ready_def keeps_rows_def)+

lemma cas_ready_read: "cas_ready u c t a (reserve_read u c t a k lg) lg"
  by (auto simp: cas_ready_def reserve_read_def read_decimal_def bindE_eq_Inr mapErr_eq_Inr
      split: option.splits sum.splits if_splits)

lemma set_once:
  assumes "distinct (balance_ids lg)" and "b \<in> set (lg_balances lg)"
  shows "upd_where (\<lambda>x. cb_id x = cb_id b \<and> cb_balance x = cb_balance b) f (lg_balances lg) =
    upd_where (\<lambda>x. cb_id x = cb_id b) f (lg_balances lg)"
proof -
  have "x = b" if "x \<in> set (lg_balances lg)" "cb_id x = cb_id b" for x
    using assms that by (auto simp: balance_ids_def distinct_map inj_on_def)
  then show ?thesis unfolding upd_where_def by (intro map_cong) auto
qed

lemma find_balance_mem: "find_balance u c t lg = Some b \<Longrightarrow> b \<in> set (lg_balances lg) \<and> same_account u c t b"
  unfolding find_balance_def by (auto dest: find_SomeD)

lemma cas_balance_lost:
  assumes "cas_balance i cur nw lg = (False, lg')"
  shows "lg' = lg"
proof -
  let ?P = "\<lambda>b. cb_id b = i \<and> cb_balance b = cur"
  from assms have "\<forall>b\<in>set (lg_balances lg). \<not> ?P b"
    and lg': "lg' = lg\<lparr>lg_balances := upd_where ?P (\<lambda>b. b\<lparr>cb_balance := nw\<rparr>) (lg_balances lg)\<rparr>"
    by (auto simp: cas_balance_def Let_def)
  then have "upd_where ?P (\<lambda>b. b\<lparr>cb_balance := nw\<rparr>) (lg_balances lg) = lg_balances lg"
    by (intro upd_where_idem) blast
  with lg' show ?thesis by simp
qed

lemma cas_wins_debit:
  assumes "cas_ready u c t a (RCas k i cur nw) lg" and "distinct (balance_ids lg)"
    and "cas_balance i cur nw lg = (True, lg')"
  shows "debit u c t a lg = Some lg'" and "keeps_rows lg lg'"
proof -
  obtain b current r where b: "find_balance u c t lg = Some b" "cb_id b = i" "dec_parse cur = Some current"
    "dec_less current a = Inr False" "dec_sub current a = Inr r" "nw = dec_str r"
    using assms(1) by (auto simp: cas_ready_def)
  from assms(3) obtain x where x: "x \<in> set (lg_balances lg)" "cb_id x = i" "cb_balance x = cur"
    by (auto simp: cas_balance_def Let_def)
  have "x = b"
    using assms(2) b(1,2) x(1,2) find_balance_mem [OF b(1)] by (auto simp: balance_ids_def distinct_map inj_on_def)
  with x have cur: "cb_balance b = cur" by simp
  have "lg' = set_balance i nw lg"
    using assms(3) set_once [OF assms(2), of b] find_balance_mem [OF b(1)]
    unfolding cas_balance_def Let_def set_balance_def b(2) cur by simp
  then show "debit u c t a lg = Some lg'" and "keeps_rows lg lg'"
    using b cur by (simp_all add: debit_def keeps_rows_set)
qed

lemma reserve_step_cases:
  assumes "reserve_step u c t a pc lg = (pc', lg')" and "cas_ready u c t a pc lg" and "distinct (balance_ids lg)"
  shows "(pc \<noteq> RDone (Inr True) \<and> pc' = RDone (Inr True) \<and> debit u c t a lg = Some lg' \<and> keeps_rows lg lg') \<or>
    ((pc' = RDone (Inr True) \<longrightarrow> pc = pc') \<and> lg' = lg \<and> cas_ready u c t a pc' lg)"
proof (cases pc)
  case (RTry n)
  have "reserve_read u c t a k lg \<noteq> RDone (Inr True)" for k
    by (auto simp: reserve_read_def split: option.splits sum.splits)
  with RTry assms(1) show ?thesis by (cases n) (auto simp: cas_ready_read)
next
  case (RCas k i cur nw)
  show ?thesis
  proof (cases "cas_balance i cur nw lg")
    case (Pair won lg1)
    show ?thesis
    proof (cases won)
      case True
      with Pair RCas assms(1) cas_wins_debit [OF assms(2) [unfolded RCas] assms(3)] show ?thesis by auto
    next
      case False
      with Pair RCas assms(1) cas_balance_lost [of i cur nw lg lg1] show ?thesis by (auto simp: cas_ready_def)
    qed
  qed
next
  case (RDone r)
  with assms show ?thesis by auto
qed


subsection \<open>Every schedule is a sequential account\<close>

definition sys_inv :: "token_registry \<Rightarrow> ledger \<Rightarrow> lsys \<Rightarrow> bool" where
  "sys_inv reg lg0 s \<longleftrightarrow>
     run_ops reg (ls_log s) lg0 = Some (ls_ledger s) \<and> distinct (balance_ids (ls_ledger s)) \<and>
     (\<forall>c\<in>set (ls_calls s). cas_ready (rc_user c) (rc_chain c) (rc_token c) (rc_amount c) (rc_pc c) (ls_ledger s)) \<and>
     mset (map call_debit (filter reserved (ls_calls s))) =
       mset (filter (\<lambda>p. case p of Debit _ _ _ _ \<Rightarrow> True | _ \<Rightarrow> False) (ls_log s))"

lemma run_ops_snoc: "run_ops reg ps lg0 = Some lg \<Longrightarrow> run_op reg p lg = Some lg' \<Longrightarrow> run_ops reg (ps @ [p]) lg0 = Some lg'"
  by (simp add: run_ops_append)

lemma mset_filter_update:
  assumes "i < length xs" and "f y = f (xs ! i)"
  shows "mset (map f (filter P (xs[i := y]))) + (if P (xs ! i) then {#f y#} else {#}) =
    mset (map f (filter P xs)) + (if P y then {#f y#} else {#})"
  using assms
proof (induction xs arbitrary: i)
  case (Cons x xs)
  show ?case
  proof (cases i)
    case 0
    with Cons.prems show ?thesis by simp
  next
    case (Suc j)
    with Cons.prems Cons.IH [of j] show ?thesis by (auto split: if_splits)
  qed
qed simp

lemma ready_all:
  assumes "\<forall>c\<in>set calls. cas_ready (rc_user c) (rc_chain c) (rc_token c) (rc_amount c) (rc_pc c) lg" and "keeps_rows lg lg'"
    and "cas_ready (rc_user d) (rc_chain d) (rc_token d) (rc_amount d) (rc_pc d) lg'"
  shows "\<forall>c\<in>set (calls[i := d]). cas_ready (rc_user c) (rc_chain c) (rc_token c) (rc_amount c) (rc_pc c) lg'"
  using assms set_update_subset_insert [of calls i d] cas_ready_keeps by blast

lemma sys_inv_step:
  assumes "ledger_step reg s s'" and "sys_inv reg lg0 s"
  shows "sys_inv reg lg0 s'"
  using assms(1)
proof cases
  case (call u ch t a)
  have "reserve_start a 5 \<noteq> RDone (Inr True)"
    by (auto simp: reserve_start_def split: sum.splits bool.splits)
  then show ?thesis
    using assms(2) call by (auto simp: sys_inv_def reserved_def cas_ready_def reserve_start_def split: sum.splits bool.splits)
next
  case (sec i c pc' lg')
  let ?d = "c\<lparr>rc_pc := pc'\<rparr>"
  have c: "c \<in> set (ls_calls s)" using sec(2,3) by simp
  with assms(2) have ready: "cas_ready (rc_user c) (rc_chain c) (rc_token c) (rc_amount c) (rc_pc c) (ls_ledger s)"
    and dist: "distinct (balance_ids (ls_ledger s))" by (auto simp: sys_inv_def)
  have cd: "call_debit ?d = call_debit c" by (simp add: call_debit_def)
  from reserve_step_cases [OF sec(4) ready dist] show ?thesis
  proof
    assume won: "rc_pc c \<noteq> RDone (Inr True) \<and> pc' = RDone (Inr True) \<and>
      debit (rc_user c) (rc_chain c) (rc_token c) (rc_amount c) (ls_ledger s) = Some lg' \<and> keeps_rows (ls_ledger s) lg'"
    then have r: "\<not> reserved c" "reserved ?d" and op: "run_op reg (call_debit c) (ls_ledger s) = Some lg'"
      by (auto simp: reserved_def call_debit_def)
    have "mset (map call_debit (filter reserved ((ls_calls s)[i := ?d]))) =
        mset (map call_debit (filter reserved (ls_calls s))) + {#call_debit c#}"
      using mset_filter_update [OF sec(2), of call_debit ?d reserved] r cd sec(3) by simp
    moreover have "cas_ready (rc_user ?d) (rc_chain ?d) (rc_token ?d) (rc_amount ?d) (rc_pc ?d) lg'"
      using won by (simp add: cas_ready_def)
    ultimately show ?thesis
      using assms(2) won r op run_ops_snoc [of reg "ls_log s" lg0 "ls_ledger s" "call_debit c" lg']
        ready_all [of "ls_calls s" "ls_ledger s" lg' ?d i]
      unfolding sys_inv_def sec(1) by (auto simp: keeps_rows_def call_debit_def)
  next
    assume lost: "(pc' = RDone (Inr True) \<longrightarrow> rc_pc c = pc') \<and> lg' = ls_ledger s \<and>
      cas_ready (rc_user c) (rc_chain c) (rc_token c) (rc_amount c) pc' (ls_ledger s)"
    have r: "reserved ?d \<longrightarrow> reserved c" using lost by (auto simp: reserved_def)
    have "reserved c \<longrightarrow> reserved ?d" using sec(4) by (auto simp: reserved_def)
    with r mset_filter_update [OF sec(2), of call_debit ?d reserved] cd sec(3)
    have "mset (map call_debit (filter reserved ((ls_calls s)[i := ?d]))) = mset (map call_debit (filter reserved (ls_calls s)))"
      by (auto split: if_splits)
    then show ?thesis
      using assms(2) lost r ready_all [of "ls_calls s" "ls_ledger s" lg' ?d i]
      unfolding sys_inv_def sec(1) by auto
  qed
next
  case (credit u ch t a r lg')
  have k: "keeps_rows (ls_ledger s) lg'" using credit(2) by (rule keeps_rows_apply)
  have "run_op reg (Credit u ch t a) (ls_ledger s) = Some lg'" using credit(2) by simp
  then show ?thesis
    using assms(2) credit k run_ops_snoc [of reg "ls_log s" lg0 "ls_ledger s" "Credit u ch t a" lg'] cas_ready_keeps [OF _ k]
    unfolding sys_inv_def by (auto simp: keeps_rows_def)
next
  case (subtract u ch t a r lg')
  have k: "keeps_rows (ls_ledger s) lg'" using subtract(2) by (rule keeps_rows_apply)
  have "run_op reg (Subtract u ch t a) (ls_ledger s) = Some lg'" using subtract(2) by simp
  then show ?thesis
    using assms(2) subtract k run_ops_snoc [of reg "ls_log s" lg0 "ls_ledger s" "Subtract u ch t a" lg'] cas_ready_keeps [OF _ k]
    unfolding sys_inv_def by (auto simp: keeps_rows_def)
qed

lemma reached_inv:
  assumes "ledger_reach reg lg0 s" and "distinct (balance_ids lg0)"
  shows "sys_inv reg lg0 s"
  using assms
proof induction
  case reach_init
  then show ?case by (simp add: sys_inv_def)
next
  case (reach_step s s')
  then show ?case by (blast intro: sys_inv_step)
qed

text \<open>C6: However reservations, credits and subtractions interleave, the ledger is the one that running them one
  after the other would give: each successful reservation, and no other, is one full debit of an account that covers it.\<close>

theorem reservations_are_debits:
  assumes "ledger_reach reg lg0 s" and "distinct (balance_ids lg0)"
  shows "run_ops reg (ls_log s) lg0 = Some (ls_ledger s) \<and>
    mset (map call_debit (filter reserved (ls_calls s))) =
      mset (filter (\<lambda>p. case p of Debit _ _ _ _ \<Rightarrow> True | _ \<Rightarrow> False) (ls_log s))"
  using reached_inv [OF assms] by (simp add: sys_inv_def)

subsection \<open>The loop ends\<close>

text \<open>\<open>budget\<close> bounds the sections a call still needs, whatever the ledger is when each one runs.\<close>

fun budget :: "reserve_pc \<Rightarrow> nat" where
  "budget (RTry k) = 2 * k + 1"
| "budget (RCas k i cur nw) = 2 * k + 2"
| "budget (RDone r) = 0"

lemma budget_read: "budget (reserve_read u c t a k lg) \<le> 2 * k + 2"
  by (auto simp: reserve_read_def split: option.splits sum.splits)

lemma budget_step: "budget (fst (reserve_step u c t a pc lg)) \<le> budget pc - 1"
proof (cases pc)
  case (RTry k)
  then show ?thesis using budget_read [of u c t a _ lg] by (cases k) (auto simp: le_Suc_eq)
qed (auto split: prod.splits bool.splits)

lemma budget_0: "budget pc = 0 \<Longrightarrow> \<exists>r. pc = RDone r"
  by (cases pc) auto

lemma budget_run:
  "budget pc \<le> length lgs \<Longrightarrow> \<exists>r. fold (\<lambda>lg pc. fst (reserve_step u c t a pc lg)) lgs pc = RDone r"
proof (induction lgs arbitrary: pc)
  case Nil
  then show ?case by (simp add: budget_0)
next
  case (Cons lg lgs)
  then show ?case using budget_step [of u c t a pc lg] by simp
qed

lemma budget_start: "budget (reserve_start a n) \<le> 2 * n + 1"
  by (auto simp: reserve_start_def split: sum.splits bool.splits)

text \<open>C27: A reservation returns after at most eleven sections, whatever other sessions commit to the ledger
  between them.\<close>

theorem reservation_returns:
  assumes "length lgs = 11"
  shows "\<exists>r. fold (\<lambda>lg pc. fst (reserve_step u c t a pc lg)) lgs (reserve_start a 5) = RDone r"
  using assms budget_start [of a 5] by (intro budget_run) simp

theorem reservation_returns_witness:
  "\<exists>r. fold (\<lambda>lg pc. fst (reserve_step 1 ''base'' ''USDC'' (Dec False 5 0) pc lg))
     (replicate 11 \<lparr>lg_balances = [], lg_txs = [], lg_next_tx = 1\<rparr>) (reserve_start (Dec False 5 0) 5) = RDone r"
  by (rule reservation_returns) simp

subsection \<open>Overlapping credits\<close>

text \<open>
  \<open>_apply_custodial_balance\<close> reads the row and writes it back without a guard; \<open>balance_read\<close>
  is the part before the write: the row's key, the text to write, and the ledger with the
  row opened.
\<close>

definition balance_read ::
  "token_registry \<Rightarrow> int \<Rightarrow> string \<Rightarrow> string \<Rightarrow> dec \<Rightarrow> balance_op \<Rightarrow> ledger \<Rightarrow> ledger_error + (int \<times> string \<times> ledger)" where
  "balance_read reg user_id chain token amount operation lg =
     (let (b, lg1) = open_balance reg user_id chain token lg
      in bindE (read_decimal (cb_balance b)) (\<lambda>current.
         bindE (moved_balance operation current amount) (\<lambda>new_balance. Inr (cb_id b, dec_str new_balance, lg1))))"

lemma apply_sections:
  "map_sum id snd (apply_custodial_balance reg u c t a op lg) =
     bindE (balance_read reg u c t a op lg) (\<lambda>(i, s, lg1). Inr (set_balance i s lg1))"
  by (auto simp: apply_custodial_balance_def balance_read_def bindE_def split: prod.splits sum.splits)

lemma set_balance_twice: "set_balance i s (set_balance i s' lg) = set_balance i s lg"
  by (simp add: set_balance_def upd_where_def comp_def)


definition sample_ledger :: ledger where
  "sample_ledger =
     \<lparr>lg_balances = [\<lparr>cb_id = 1, cb_user_id = 7, cb_chain = ''base'', cb_token_symbol = ''USDC'',
                      cb_token_address = ''0xA'', cb_balance = ''10''\<rparr>],
      lg_txs = [], lg_next_tx = 1\<rparr>"

lemma sample_read:
  "balance_read (\<lambda>_ _. None) 7 ''base'' ''USDC'' (Dec False 1 0) OpAdd sample_ledger = Inr (1, ''11'', sample_ledger)"
  by code_simp

lemma sample_debit:
  "debit 7 ''base'' ''USDC'' (Dec False 10 0) sample_ledger = Some (set_balance 1 ''0'' sample_ledger)"
  by code_simp


lemma sample_reservation:
  "ledger_reach (\<lambda>_ _. None) sample_ledger
     \<lparr>ls_ledger = set_balance 1 ''6'' sample_ledger,
      ls_calls = [\<lparr>rc_user = 7, rc_chain = ''base'', rc_token = ''USDC'', rc_amount = Dec False 4 0,
                   rc_pc = RDone (Inr True)\<rparr>],
      ls_log = [Debit 7 ''base'' ''USDC'' (Dec False 4 0)]\<rparr>"
proof -
  let ?c = "\<lambda>pc. \<lparr>rc_user = 7, rc_chain = ''base'', rc_token = ''USDC'', rc_amount = Dec False 4 0, rc_pc = pc\<rparr>"
  let ?s = "\<lambda>lg pc ops. \<lparr>ls_ledger = lg, ls_calls = [?c pc], ls_log = ops\<rparr>"
  let ?reg = "\<lambda>_ _. None :: string option"
  have r: "reserve_start (Dec False 4 0) 5 = RTry 5"
    "reserve_step 7 ''base'' ''USDC'' (Dec False 4 0) (RTry 5) sample_ledger = (RCas 4 1 ''10'' ''6'', sample_ledger)"
    "cas_balance 1 ''10'' ''6'' sample_ledger = (True, set_balance 1 ''6'' sample_ledger)"
    by code_simp+
  have "ledger_reach ?reg sample_ledger (?s sample_ledger (RTry 5) [])"
    using reach_step [OF reach_init [of ?reg sample_ledger] call [of ?reg _ 7 "''base''" "''USDC''" "Dec False 4 0"]]
    by (simp add: r)
  from reach_step [OF this sec [of 0 _ "?c (RTry 5)" "RCas 4 1 ''10'' ''6''" sample_ledger]]
  have "ledger_reach ?reg sample_ledger (?s sample_ledger (RCas 4 1 ''10'' ''6'') [])"
    by (simp add: r reserved_def)
  from reach_step [OF this sec [of 0 _ "?c (RCas 4 1 ''10'' ''6'')" "RDone (Inr True)" "set_balance 1 ''6'' sample_ledger"]]
  show ?thesis by (simp add: r reserved_def call_debit_def)
qed

subsection \<open>A balance move in two sections\<close>

text \<open>
  \<open>read_move\<close> is the query and the arithmetic of \<open>_apply_custodial_balance\<close>, \<open>write_move\<close>
  its flush and commit: another session can commit between the two.  The update names the
  row's key and not its balance; a column that keeps its value is not written; an account
  without a row gets one, and no constraint keeps two sessions from adding one each.
\<close>

record pending_move =
  pm_user :: int
  pm_chain :: string
  pm_token :: string
  pm_amount :: dec
  pm_operation :: balance_op
  pm_seen :: "CustodialBalance option"
  pm_text :: string

definition read_move :: "int \<Rightarrow> string \<Rightarrow> string \<Rightarrow> dec \<Rightarrow> balance_op \<Rightarrow> ledger \<Rightarrow> ledger_error + pending_move" where
  "read_move user_id chain token amount operation lg =
     (let seen = find_balance user_id chain token lg
      in bindE (read_decimal (case seen of None \<Rightarrow> ''0'' | Some b \<Rightarrow> cb_balance b)) (\<lambda>current.
         bindE (moved_balance operation current amount) (\<lambda>new_balance.
           Inr \<lparr>pm_user = user_id, pm_chain = chain, pm_token = token, pm_amount = amount, pm_operation = operation,
                pm_seen = seen, pm_text = dec_str new_balance\<rparr>)))"

definition write_move :: "token_registry \<Rightarrow> pending_move \<Rightarrow> ledger \<Rightarrow> ledger" where
  "write_move reg m lg =
     (case pm_seen m of
        Some b \<Rightarrow> if pm_text m = cb_balance b then lg else set_balance (cb_id b) (pm_text m) lg
      | None \<Rightarrow>
          lg\<lparr>lg_balances := lg_balances lg @
            [\<lparr>cb_id = next_id (map cb_id (lg_balances lg)), cb_user_id = pm_user m, cb_chain = pm_chain m,
              cb_token_symbol = pm_token m, cb_token_address = py_or (reg (pm_token m) (pm_chain m)) NATIVE_TOKEN_ADDRESS,
              cb_balance = pm_text m\<rparr>]\<rparr>)"

lemma find_balance_mem_id: "find_balance u c t lg = Some b \<Longrightarrow> distinct (balance_ids lg) \<Longrightarrow> x \<in> set (lg_balances lg) \<Longrightarrow>
    cb_id x = cb_id b \<Longrightarrow> x = b"
  using find_balance_mem [of u c t lg b] by (auto simp: balance_ids_def distinct_map inj_on_def)

text \<open>Nothing committed in between: the two sections are one move.\<close>

lemma undisturbed_move:
  assumes "read_move u c t a op lg = Inr m" and "distinct (balance_ids lg)"
  shows "\<exists>r. apply_custodial_balance reg u c t a op lg = Inr (r, write_move reg m lg)"
proof -
  let ?seen = "find_balance u c t lg"
  obtain current r where cur: "read_decimal (case ?seen of None \<Rightarrow> ''0'' | Some b \<Rightarrow> cb_balance b) = Inr current"
    and r: "moved_balance op current a = Inr r" and m: "m = \<lparr>pm_user = u, pm_chain = c, pm_token = t, pm_amount = a,
      pm_operation = op, pm_seen = ?seen, pm_text = dec_str r\<rparr>"
    using assms(1) by (auto simp: read_move_def Let_def bindE_eq_Inr)
  show ?thesis
  proof (cases ?seen)
    case (Some b)
    have "upd_where (\<lambda>x. cb_id x = cb_id b) (\<lambda>x. x\<lparr>cb_balance := cb_balance b\<rparr>) (lg_balances lg) = lg_balances lg"
      using find_balance_mem_id [OF Some assms(2)] by (intro upd_where_idem) force
    then have "set_balance (cb_id b) (cb_balance b) lg = lg" by (simp add: set_balance_def)
    with Some cur r m show ?thesis by (auto simp: apply_custodial_balance_def open_balance_def write_move_def)
  next
    case None
    let ?i = "next_id (map cb_id (lg_balances lg))"
    have "upd_where (\<lambda>x. cb_id x = ?i) f (lg_balances lg) = lg_balances lg" for f
      using next_id_notin [of "map cb_id (lg_balances lg)"] by (intro upd_where_idem) (metis image_eqI set_map)
    moreover have "upd_where P f (rows @ [b]) = upd_where P f rows @ [if P b then f b else b]" for P f and rows :: "CustodialBalance list" and b
      by (simp add: upd_where_def)
    ultimately show ?thesis using cur r m
      by (auto simp: None apply_custodial_balance_def open_balance_def write_move_def set_balance_def Let_def)
  qed
qed

subsection \<open>Balances stay non-negative\<close>

lemma dec_amount_val: "dec_amount d \<Longrightarrow> 0 \<le> dec_val d"
  by (elim dec_amount_cases) auto

definition nonneg_balance :: "dec \<Rightarrow> bool" where
  "nonneg_balance d \<longleftrightarrow> dec_wf d \<and> 0 \<le> dec_val d"

definition nonneg_text :: "string \<Rightarrow> bool" where
  "nonneg_text s \<longleftrightarrow> (\<exists>d. dec_parse s = Some d \<and> nonneg_balance d)"

definition nonneg_ledger :: "ledger \<Rightarrow> bool" where
  "nonneg_ledger lg \<longleftrightarrow> (\<forall>b\<in>set (lg_balances lg). nonneg_text (cb_balance b))"

text \<open>Everybody at the ledger: reservations in their sections, and moves between their read and their write.\<close>

record balance_sys =
  bs_ledger :: ledger
  bs_calls :: "reserve_call list"
  bs_moves :: "pending_move list"
  bs_asked :: "(balance_op \<times> dec) list"

definition balances_start :: "ledger \<Rightarrow> balance_sys" where
  "balances_start lg = \<lparr>bs_ledger = lg, bs_calls = [], bs_moves = [], bs_asked = []\<rparr>"

text \<open>\<open>rows\<close>: an unordered query may see the rows in any order.\<close>

inductive balance_step :: "token_registry \<Rightarrow> balance_sys \<Rightarrow> balance_sys \<Rightarrow> bool" for reg where
  bcall: "balance_step reg s (s\<lparr>bs_calls := bs_calls s @
      [\<lparr>rc_user = u, rc_chain = ch, rc_token = t, rc_amount = a, rc_pc = reserve_start a 5\<rparr>]\<rparr>)"
| bsection: "i < length (bs_calls s) \<Longrightarrow> c = bs_calls s ! i \<Longrightarrow>
    reserve_step (rc_user c) (rc_chain c) (rc_token c) (rc_amount c) (rc_pc c) (bs_ledger s) = (pc', lg') \<Longrightarrow>
    balance_step reg s (s\<lparr>bs_ledger := lg', bs_calls := (bs_calls s)[i := c\<lparr>rc_pc := pc'\<rparr>]\<rparr>)"
| bread: "read_move u ch t a op (bs_ledger s) = Inr m \<Longrightarrow>
    balance_step reg s (s\<lparr>bs_moves := bs_moves s @ [m], bs_asked := bs_asked s @ [(op, a)]\<rparr>)"
| bwrite: "m \<in> set (bs_moves s) \<Longrightarrow>
    balance_step reg s (s\<lparr>bs_ledger := write_move reg m (bs_ledger s), bs_moves := remove1 m (bs_moves s)\<rparr>)"
| babort: "m \<in> set (bs_moves s) \<Longrightarrow> balance_step reg s (s\<lparr>bs_moves := remove1 m (bs_moves s)\<rparr>)"
| brows: "mset rows = mset (lg_balances (bs_ledger s)) \<Longrightarrow>
    balance_step reg s (s\<lparr>bs_ledger := (bs_ledger s)\<lparr>lg_balances := rows\<rparr>\<rparr>)"

lemma nonneg_printed: "nonneg_balance d \<Longrightarrow> nonneg_text (dec_str d)"
  using dec_wf_roundtrip by (auto simp: nonneg_text_def nonneg_balance_def)

lemma nonneg_zero_text: "nonneg_text ''0''"
proof -
  have "dec_parse ''0'' = Some dec_zero \<and> dec_wf dec_zero \<and> dec_val dec_zero = 0" by code_simp
  then show ?thesis unfolding nonneg_text_def nonneg_balance_def by auto
qed

lemma finite_add_wf: "dec_finite a \<Longrightarrow> dec_finite b \<Longrightarrow> dec_add a b = Inr r \<Longrightarrow> dec_wf r"
  by (cases a; cases b) (auto simp: Let_def dest: dec_fix_wf split: if_splits)

lemma wf_finite: "dec_wf d \<Longrightarrow> dec_finite d"
  by (cases d) simp_all

lemma flip_finite [simp]: "dec_finite (dec_flip d) = dec_finite d"
  by (cases d) (simp_all add: dec_flip_def)

lemma dec_less_vals: "dec_finite a \<Longrightarrow> dec_finite b \<Longrightarrow> dec_less a b = Inr (dec_val a < dec_val b)"
  by (cases a; cases b) (auto simp: dec_less_def)

text \<open>The guard of a subtraction is what keeps the result from going below zero.\<close>

lemma subtract_nonneg:
  assumes "nonneg_balance current" and "dec_finite a" and "moved_balance OpSubtract current a = Inr r"
  shows "nonneg_balance r"
proof -
  have sub: "dec_add current (dec_flip a) = Inr r" and less: "dec_less r dec_zero = Inr False"
    using assms(3) by (auto simp: moved_balance_def dec_sub_def bindE_eq_Inr mapErr_eq_Inr split: if_splits)
  have r: "dec_wf r"
    using finite_add_wf [OF _ _ sub] assms(1,2) by (simp add: nonneg_balance_def wf_finite)
  with less dec_less_vals [of r dec_zero] show ?thesis
    by (simp add: nonneg_balance_def wf_finite dec_zero_def not_less)
qed

lemma nonneg_balance_cases:
  assumes "nonneg_balance d"
  obtains (plain) "dec_nonneg d" | (minus_zero) e where "d = Dec True 0 e"
proof (cases d)
  case (Dec s c e)
  show ?thesis
  proof (cases "s \<and> c \<noteq> 0")
    case True
    with Dec assms pow10_pos [of e] show ?thesis by (simp add: nonneg_balance_def mult_le_0_iff)
  next
    case False
    then show ?thesis
    proof (cases s)
      case True
      with False Dec that(2) show ?thesis by simp
    next
      case False
      with Dec assms that(1) show ?thesis by (simp add: nonneg_balance_def dec_nonneg_def)
    qed
  qed
qed (use assms in \<open>simp_all add: nonneg_balance_def\<close>)

lemma nonneg_balanceI: "dec_nonneg d \<Longrightarrow> nonneg_balance d"
  by (simp add: nonneg_balance_def dec_nonneg_val) (simp add: dec_nonneg_def)

lemma add_nonneg:
  assumes "nonneg_balance current" and "dec_amount a" and "moved_balance OpAdd current a = Inr r"
  shows "nonneg_balance r"
proof -
  have add: "dec_add current a = Inr r" using assms(3) by (simp add: moved_balance_def mapErr_eq_Inr)
  from assms(1) have "dec_nonneg r"
  proof (cases rule: nonneg_balance_cases)
    case plain
    with add dec_add_nonneg2 [of current a r] assms(2) show ?thesis by simp
  next
    case (minus_zero e)
    with add assms(2) show ?thesis
      by (elim dec_amount_cases) (auto simp: Let_def intro: dec_fix_nonneg split: if_splits)
  qed
  then show ?thesis by (rule nonneg_balanceI)
qed

lemma dec_sub_nonneg:
  assumes "dec_nonneg a" and "dec_amount b" and "dec_less a b = Inr False" and "dec_sub a b = Inr r"
  shows "dec_nonneg r"
proof -
  obtain c e where a: "a = Dec False c e" using assms(1) by (elim dec_nonneg_cases)
  obtain d f where b: "b = Dec False d f" using assms(2) by (elim dec_amount_cases)
  have le: "of_nat d * pow10 f \<le> of_nat c * pow10 e"
    using assms(3) unfolding a b by (simp add: dec_less_def)
  have r: "dec_add (Dec False c e) (Dec True d f) = Inr r"
    using assms(4) unfolding a b by (simp add: dec_sub_def dec_flip_def)
  have z: "d = 0" if "c = 0" using le that pow10_pos [of f] by (simp add: mult_le_0_iff)
  let ?m = "min e f"
  have "(of_nat d * of_nat (10 ^ nat (f - ?m))) * pow10 ?m \<le> (of_nat c * of_nat (10 ^ nat (e - ?m))) * pow10 ?m"
    using le pow10_shift [of ?m f] pow10_shift [of ?m e] by (simp add: mult.assoc)
  then have "(of_nat (d * 10 ^ nat (f - ?m)) :: rat) \<le> of_nat (c * 10 ^ nat (e - ?m))"
    using pow10_pos [of ?m] by (simp add: mult_le_cancel_right_pos)
  then have ge: "d * 10 ^ nat (f - ?m) \<le> c * 10 ^ nat (e - ?m)" by (simp only: of_nat_le_iff)
  have "int (d * 10 ^ nat (f - ?m)) \<le> int (c * 10 ^ nat (e - ?m))" using ge by (simp only: of_nat_le_iff)
  then have "\<not> int c * 10 ^ nat (e - ?m) < int d * 10 ^ nat (f - ?m)" by simp
  then have "\<exists>k m. dec_fix False k m = Inr r"
    using r z ge by (auto simp: Let_def dec_signed_def split: if_splits)
  then show ?thesis using dec_fix_wf by (auto simp: dec_nonneg_def)
qed

text \<open>What a reservation writes is not negative: it is only made of a balance that covers it.\<close>

lemma reserve_nonneg:
  assumes "nonneg_balance current" and "dec_le a dec_zero = Inr False" and "dec_less current a = Inr False" and "dec_sub current a = Inr r"
  shows "nonneg_balance r"
proof (cases a)
  case (Dec s c e)
  then have pos: "0 < dec_val a" using assms(2) by (simp add: dec_zero_def not_le)
  then have "\<not> s" using Dec pow10_pos [of e] by (auto simp: zero_less_mult_iff)
  with Dec have am: "dec_amount a" by (simp add: dec_amount_def)
  have less: "\<not> dec_val current < dec_val a"
    using assms(1,3) dec_less_vals [of current a] Dec by (simp add: nonneg_balance_def wf_finite)
  from assms(1) show ?thesis
  proof (cases rule: nonneg_balance_cases)
    case plain
    with dec_sub_nonneg am assms(3,4) show ?thesis by (blast intro: nonneg_balanceI)
  next
    case (minus_zero f)
    with less pos show ?thesis by simp
  qed
next
  case (DInf s)
  with assms(2) have "\<not> s" by (simp add: dec_zero_def)
  with DInf assms(1,3) show ?thesis by (cases current) (simp_all add: dec_less_def nonneg_balance_def)
qed (use assms(2) in \<open>simp add: dec_zero_def\<close>)

fun nonneg_pc :: "dec \<Rightarrow> reserve_pc \<Rightarrow> bool" where
  "nonneg_pc a (RTry k) = (dec_le a dec_zero = Inr False)"
| "nonneg_pc a (RCas k i cur nw) = (dec_le a dec_zero = Inr False \<and> nonneg_text nw)"
| "nonneg_pc a (RDone r) = True"

lemma nonneg_start: "nonneg_pc a (reserve_start a n)"
  by (auto simp: reserve_start_def split: sum.splits bool.splits)

lemma nonneg_read:
  assumes "nonneg_ledger lg" and "dec_le a dec_zero = Inr False"
  shows "nonneg_pc a (reserve_read u c t a k lg)"
proof (cases "\<exists>n i cur nw. reserve_read u c t a k lg = RCas n i cur nw")
  case True
  then obtain k' i cur nw where pc: "reserve_read u c t a k lg = RCas k' i cur nw" by blast
  with cas_ready_read [of u c t a k lg] obtain row current r where row: "find_balance u c t lg = Some row"
    "dec_parse cur = Some current" "dec_less current a = Inr False" "dec_sub current a = Inr r" "nw = dec_str r"
    by (auto simp: cas_ready_def)
  have "cur = cb_balance row"
    using pc row(1) by (auto simp: reserve_read_def split: sum.splits option.splits)
  note row = row(1) row(2) [unfolded this] row(3-)
  have "nonneg_balance current"
    using assms(1) find_balance_mem [OF row(1)] row(2) by (auto simp: nonneg_ledger_def nonneg_text_def)
  from reserve_nonneg [OF this assms(2) row(3,4)] show ?thesis using row(5) assms(2) by (simp add: pc nonneg_printed)
next
  case False
  then have "\<exists>r. reserve_read u c t a k lg = RDone r"
    by (auto simp: reserve_read_def split: option.splits sum.splits)
  then show ?thesis by auto
qed

lemma nonneg_rows: "nonneg_ledger lg \<Longrightarrow> nonneg_text s \<Longrightarrow> nonneg_ledger (lg\<lparr>lg_balances := upd_where P (\<lambda>b. b\<lparr>cb_balance := s\<rparr>) (lg_balances lg)\<rparr>)"
  by (auto simp: nonneg_ledger_def set_upd_where)

lemma nonneg_section:
  assumes "reserve_step u c t a pc lg = (pc', lg')" and "nonneg_ledger lg" and "nonneg_pc a pc"
  shows "nonneg_ledger lg' \<and> nonneg_pc a pc'"
proof (cases pc)
  case (RTry k)
  with assms nonneg_read [OF assms(2), of a u c t] show ?thesis by (cases k) auto
next
  case (RCas k i cur nw)
  with assms nonneg_rows [OF assms(2), of nw "\<lambda>b. cb_id b = i \<and> cb_balance b = cur"] show ?thesis
    by (auto simp: cas_balance_def Let_def split: bool.splits)
qed (use assms in auto)

lemma nonneg_written: "nonneg_ledger lg \<Longrightarrow> nonneg_text (pm_text m) \<Longrightarrow> nonneg_ledger (write_move reg m lg)"
  using nonneg_rows [of lg "pm_text m" "\<lambda>b. cb_id b = cb_id (the (pm_seen m))"]
  by (auto simp: write_move_def set_balance_def nonneg_ledger_def split: option.splits)

lemma nonneg_move:
  assumes "read_move u c t a op lg = Inr m" and "nonneg_ledger lg" and "dec_finite a" and "op = OpAdd \<longrightarrow> dec_amount a"
  shows "nonneg_text (pm_text m)"
proof -
  let ?s = "case find_balance u c t lg of None \<Rightarrow> ''0'' | Some b \<Rightarrow> cb_balance b"
  obtain current r where m: "dec_parse ?s = Some current" "moved_balance op current a = Inr r" "pm_text m = dec_str r"
    using assms(1) by (auto simp: read_move_def Let_def read_decimal_def bindE_eq_Inr split: option.splits)
  have "nonneg_text ?s"
    using assms(2) find_balance_mem [of u c t lg] nonneg_zero_text by (auto simp: nonneg_ledger_def split: option.splits)
  with m(1) have cur: "nonneg_balance current" by (auto simp: nonneg_text_def)
  have "nonneg_balance r"
  proof (cases op)
    case OpAdd
    with add_nonneg [OF cur _ m(2) [unfolded OpAdd]] assms(4) show ?thesis by simp
  next
    case OpSubtract
    with subtract_nonneg [OF cur assms(3) m(2) [unfolded OpSubtract]] show ?thesis by simp
  next
    case (OpOther x)
    with m(2) show ?thesis by (simp add: moved_balance_def)
  qed
  with m(3) show ?thesis by (simp add: nonneg_printed)
qed

definition asked_ok :: "balance_sys \<Rightarrow> bool" where
  "asked_ok s \<longleftrightarrow> (\<forall>(op, a)\<in>set (bs_asked s). dec_finite a \<and> (op = OpAdd \<longrightarrow> dec_amount a))"

definition nonneg_sys :: "balance_sys \<Rightarrow> bool" where
  "nonneg_sys s \<longleftrightarrow> nonneg_ledger (bs_ledger s) \<and> (\<forall>c\<in>set (bs_calls s). nonneg_pc (rc_amount c) (rc_pc c)) \<and>
     (\<forall>m\<in>set (bs_moves s). nonneg_text (pm_text m))"

lemma nonneg_sys_step:
  assumes "balance_step reg s s'" and "asked_ok s \<longrightarrow> nonneg_sys s"
  shows "asked_ok s' \<longrightarrow> nonneg_sys s'"
proof
  assume ok': "asked_ok s'"
  have "set (bs_asked s) \<subseteq> set (bs_asked s')" using assms(1) by cases auto
  with ok' have "asked_ok s" by (auto simp: asked_ok_def)
  with assms(2) have inv: "nonneg_sys s" by simp
  show "nonneg_sys s'"
    using assms(1)
  proof cases
    case (bcall u ch t a)
    with inv show ?thesis by (simp add: nonneg_sys_def nonneg_start)
  next
    case (bsection i c pc' lg')
    have "c \<in> set (bs_calls s)" using bsection by simp
    with inv have "nonneg_pc (rc_amount c) (rc_pc c)" "nonneg_ledger (bs_ledger s)" by (simp_all add: nonneg_sys_def)
    from nonneg_section [OF bsection(4) this(2,1)] have "nonneg_ledger lg'" "nonneg_pc (rc_amount c) pc'" by simp_all
    with inv bsection(1) show ?thesis
      using set_update_subset_insert [of "bs_calls s" i "c\<lparr>rc_pc := pc'\<rparr>"] by (auto simp: nonneg_sys_def)
  next
    case (bread u ch t a op m)
    with ok' have "dec_finite a" "op = OpAdd \<longrightarrow> dec_amount a" by (simp_all add: asked_ok_def)
    with nonneg_move [OF bread(2)] inv bread(1) show ?thesis by (auto simp: nonneg_sys_def)
  next
    case (bwrite m)
    with inv nonneg_written [of "bs_ledger s" m reg] show ?thesis
      using notin_set_remove1 [of _ "bs_moves s" m] by (auto simp: nonneg_sys_def)
  next
    case (babort m)
    with inv show ?thesis using notin_set_remove1 [of _ "bs_moves s" m] by (auto simp: nonneg_sys_def)
  next
    case (brows rows)
    with inv mset_eq_setD [OF brows(2)] show ?thesis by (simp add: nonneg_sys_def nonneg_ledger_def)
  qed
qed

interpretation nonneg: invariant_of "balance_step reg" "\<lambda>s. asked_ok s \<longrightarrow> nonneg_sys s" for reg
  by unfold_locales (rule nonneg_sys_step)

text \<open>C7: No custodial balance becomes negative, however reservations, additions and subtractions interleave: even
  when two moves overlap and one overwrites the other, or the rows come back in another order.  Only the added
  amounts must be non-negative: a subtraction is refused by its own guard and a reservation by its own check.\<close>

theorem balances_never_negative:
  assumes "(balance_step reg)\<^sup>*\<^sup>* (balances_start lg0) s" and "nonneg_ledger lg0" and "asked_ok s"
  shows "nonneg_ledger (bs_ledger s)"
proof -
  have "nonneg_sys (balances_start lg0)" using assms(2) by (simp add: nonneg_sys_def balances_start_def)
  with nonneg.always [OF assms(1)] assms(3) show ?thesis by (simp add: nonneg_sys_def)
qed

lemma sample_nonneg: "distinct (balance_ids sample_ledger)" "nonneg_ledger sample_ledger"
proof -
  show "distinct (balance_ids sample_ledger)" by code_simp
  have "dec_parse ''10'' = Some (Dec False 10 0) \<and> dec_nonneg (Dec False 10 0)" by code_simp
  then show "nonneg_ledger sample_ledger"
    using nonneg_balanceI by (auto simp: nonneg_ledger_def nonneg_text_def sample_ledger_def)
qed

theorem reservations_are_debits_witness:
  "run_ops (\<lambda>_ _. None) [Debit 7 ''base'' ''USDC'' (Dec False 4 0)] sample_ledger = Some (set_balance 1 ''6'' sample_ledger)"
  using reservations_are_debits [OF sample_reservation sample_nonneg(1)] by simp

text \<open>A gift card of 4 USDC: the read, then the write.\<close>

definition sample_gift_move :: pending_move where
  "sample_gift_move =
     \<lparr>pm_user = 7, pm_chain = ''base'', pm_token = ''USDC'', pm_amount = Dec False 4 0, pm_operation = OpSubtract,
      pm_seen = Some \<lparr>cb_id = 1, cb_user_id = 7, cb_chain = ''base'', cb_token_symbol = ''USDC'',
                      cb_token_address = ''0xA'', cb_balance = ''10''\<rparr>, pm_text = ''6''\<rparr>"

theorem balances_never_negative_witness: "nonneg_ledger (set_balance 1 ''6'' sample_ledger)"
proof -
  let ?reg = "\<lambda>_ _. None :: string option" let ?a = "[(OpSubtract, Dec False 4 0)]"
  have seen: "read_move 7 ''base'' ''USDC'' (Dec False 4 0) OpSubtract sample_ledger = Inr sample_gift_move" by code_simp
  have written: "write_move ?reg sample_gift_move sample_ledger = set_balance 1 ''6'' sample_ledger"
    by (simp add: write_move_def sample_gift_move_def)
  let ?s = "\<lambda>lg ms. \<lparr>bs_ledger = lg, bs_calls = [], bs_moves = ms, bs_asked = ?a\<rparr>"
  have "balance_step ?reg (balances_start sample_ledger) (?s sample_ledger [sample_gift_move])"
    using bread [of 7 "''base''" "''USDC''" "Dec False 4 0" OpSubtract "balances_start sample_ledger" sample_gift_move ?reg] seen
    by (simp add: balances_start_def)
  moreover have "balance_step ?reg (?s sample_ledger [sample_gift_move]) (?s (set_balance 1 ''6'' sample_ledger) [])"
    using bwrite [of sample_gift_move "?s sample_ledger [sample_gift_move]" ?reg] by (simp add: written)
  ultimately have "(balance_step ?reg)\<^sup>*\<^sup>* (balances_start sample_ledger) (?s (set_balance 1 ''6'' sample_ledger) [])"
    by (meson converse_rtranclp_into_rtranclp r_into_rtranclp)
  from balances_never_negative [OF this sample_nonneg(2)] show ?thesis by (simp add: asked_ok_def)
qed

end

