(* ===== verification/Withdrawals.thy ===== *)
theory Withdrawals
  imports CustodialLedger
begin

text \<open>
  Custodial withdrawals: the two request paths (\<open>terminal_wallet_withdraw\<close> of
  \<open>api/routes/terminal.py\<close>, \<open>withdraw_execute\<close> of \<open>bot/handlers/custodial.py\<close>), the
  broadcast wrapper of \<open>hot_wallet.py\<close> and \<open>bot/services/withdraw_reconciler.py\<close>.  A request
  is a sequence of sections, each one session or one call of the node; requests and passes
  of the reconciler interleave.  Signing, the node and Telegram answer from outside.
\<close>

subsection \<open>Checks before the claim\<close>

record withdraw_cfg =
  wc_registry :: token_registry
  wc_decimals :: "string \<Rightarrow> nat option"
  wc_enabled :: "string option"
  wc_deposit_wallet :: "string \<Rightarrow> string option"

datatype channel = Web | Telegram

record withdrawal =
  wd_channel :: channel
  wd_user :: int
  wd_chain :: string
  wd_token :: string
  wd_amount :: dec
  wd_to :: string
  wd_key :: string

datatype withdraw_reply =
    Submitted string | Unconfirmed | AlreadySubmitted "string option" | Insufficient | Undone string
  | Paused | KeyRequired | BadAddress | BadAmount | NotAboveZero | Unavailable | UnknownToken | SessionExpired | Raised

definition withdraw_enabled :: "withdraw_cfg \<Rightarrow> bool" where
  "withdraw_enabled cfg =
     (lower (strip (case wc_enabled cfg of None \<Rightarrow> ''true'' | Some s \<Rightarrow> s)) \<notin> {''false'', ''0'', ''no'', ''off''})"

definition is_base58 :: "string \<Rightarrow> bool" where
  "is_base58 s = (s \<noteq> [] \<and> list_all (\<lambda>c. c \<in> set ''123456789ABCDEFGHJKLMNPQRSTUVWXYZabcdefghijkmnopqrstuvwxyz'') s)"

definition is_hex_digit :: "char \<Rightarrow> bool" where
  "is_hex_digit c = (is_digit c \<or> c \<in> set ''abcdefABCDEF'')"

text \<open>\<open>int(s, 16)\<close> accepts white space around the number, a sign, a prefix and single underscores.\<close>

fun hex_groups :: "bool \<Rightarrow> string \<Rightarrow> bool" where
  "hex_groups seen [] = seen"
| "hex_groups seen (c # r) = (if is_hex_digit c then hex_groups True r else c = CHR ''_'' \<and> seen \<and> r \<noteq> [] \<and> hex_groups False r)"

definition int16_ok :: "string \<Rightarrow> bool" where
  "int16_ok s =
     (let t = strip s;
          u = (case t of c # r \<Rightarrow> if c = CHR ''+'' \<or> c = CHR ''-'' then r else t | [] \<Rightarrow> t)
      in (if take 2 u \<in> {''0x'', ''0X''}
          then hex_groups False (case drop 2 u of c # r \<Rightarrow> if c = CHR ''_'' then r else c # r | [] \<Rightarrow> [])
          else hex_groups False u))"

definition valid_withdraw_address :: "string list \<Rightarrow> string \<Rightarrow> string \<Rightarrow> bool" where
  "valid_withdraw_address solana_names chain address0 =
     (let address = strip address0; chain_l = lower chain
      in if chain_l \<in> set solana_names then is_base58 address \<and> 32 \<le> length address \<and> length address \<le> 44
         else if chain_l \<in> {''tron'', ''trx''} then take 1 address = ''T'' \<and> is_base58 address \<and> length address = 34
         else take 2 address = ''0x'' \<and> length address = 42 \<and> int16_ok (drop 2 address))"

text \<open>\<open>amount.quantize(Decimal(1).scaleb(-decimals), ROUND_DOWN)\<close>.\<close>

definition quantize_to_decimals :: "dec \<Rightarrow> nat \<Rightarrow> dec_signal + dec" where
  "quantize_to_decimals amount decimals =
     (case amount of
        Dec s c e \<Rightarrow>
          let t = - int decimals;
              q = (if t \<le> e then c * 10 ^ nat (e - t) else c div 10 ^ nat (t - e))
          in if int (ndigits q) > dec_prec then Inl InvalidOperation else Inr (Dec s q t)
      | DInf s \<Rightarrow> Inl InvalidOperation
      | DNaN True \<Rightarrow> Inl InvalidOperation
      | DNaN False \<Rightarrow> Inr (DNaN False))"

definition is_native_asset :: "withdraw_cfg \<Rightarrow> string \<Rightarrow> string \<Rightarrow> bool" where
  "is_native_asset cfg token chain =
     (case wc_registry cfg token chain of None \<Rightarrow> True | Some a \<Rightarrow> a = [] \<or> a = NATIVE_TOKEN_ADDRESS)"

record withdraw_body =
  wb_chain :: string
  wb_token :: string
  wb_amount :: string
  wb_to_address :: string
  wb_idempotency_key :: "string option"

text \<open>The web route up to the claim.\<close>

definition terminal_request :: "withdraw_cfg \<Rightarrow> int \<Rightarrow> withdraw_body \<Rightarrow> withdraw_reply + withdrawal" where
  "terminal_request cfg uid body =
     (let chain = strip (wb_chain body); token = upper (strip (wb_token body)); to_address = strip (wb_to_address body);
          key = strip (case wb_idempotency_key body of None \<Rightarrow> [] | Some k \<Rightarrow> k);
          chain_type = (if lower chain \<in> {''solana'', ''sol''} then ''solana'' else ''evm'')
      in if \<not> withdraw_enabled cfg then Inl Paused
         else if key = [] then Inl KeyRequired
         else if \<not> valid_withdraw_address [''solana'', ''sol''] chain to_address then Inl BadAddress
         else case dec_parse (wb_amount body) of
           None \<Rightarrow> Inl BadAmount
         | Some amount \<Rightarrow>
             (case (if dec_true amount then mapErr (\<lambda>_. Raised) (dec_less dec_zero amount) else Inr False) of
                Inl e \<Rightarrow> Inl e
              | Inr False \<Rightarrow> Inl NotAboveZero
              | Inr True \<Rightarrow>
                  if wc_deposit_wallet cfg chain_type = None then Inl Unavailable
                  else if \<not> is_native_asset cfg token chain \<and> wc_decimals cfg token = None then Inl UnknownToken
                  else
                    let decimals = (if wc_registry cfg token chain \<noteq> None \<and> wc_registry cfg token chain \<noteq> Some [] \<and> wc_decimals cfg token \<noteq> None
                                    then the (wc_decimals cfg token) else if chain_type = ''solana'' then 9 else 18)
                    in case quantize_to_decimals amount decimals of
                         Inl _ \<Rightarrow> Inl Raised
                       | Inr q \<Rightarrow>
                           (case dec_le q dec_zero of
                              Inl _ \<Rightarrow> Inl Raised
                            | Inr True \<Rightarrow> Inl NotAboveZero
                            | Inr False \<Rightarrow>
                                Inr \<lparr>wd_channel = Web, wd_user = uid, wd_chain = chain, wd_token = token, wd_amount = q,
                                     wd_to = to_address, wd_key = key\<rparr>)))"

text \<open>The Telegram handler up to the claim; \<open>amount\<close> is the text of the float kept in the session.\<close>

record withdraw_context =
  cx_token :: "string option"
  cx_chain :: "string option"
  cx_amount :: "string option"
  cx_address :: "string option"
  cx_confirm_token :: "string option"

definition telegram_request :: "withdraw_cfg \<Rightarrow> int \<Rightarrow> withdraw_context \<Rightarrow> withdraw_reply + withdrawal" where
  "telegram_request cfg user_id cx =
     (if \<not> (truthy (cx_token cx) \<and> truthy (cx_chain cx) \<and> truthy (cx_amount cx) \<and> truthy (cx_address cx) \<and> truthy (cx_confirm_token cx))
         \<or> \<not> valid_withdraw_address [''solana''] (the (cx_chain cx)) (the (cx_address cx))
      then Inl SessionExpired
      else
        let token = the (cx_token cx); chain = the (cx_chain cx);
            decimals = (if wc_decimals cfg token \<noteq> None \<and> \<not> is_native_asset cfg token chain then the (wc_decimals cfg token) else 18)
        in case dec_parse (the (cx_amount cx)) of
             None \<Rightarrow> Inl Raised
           | Some amount \<Rightarrow>
               (case quantize_to_decimals amount decimals of
                  Inl _ \<Rightarrow> Inl Raised
                | Inr q \<Rightarrow>
                    Inr \<lparr>wd_channel = Telegram, wd_user = user_id, wd_chain = chain, wd_token = token, wd_amount = q,
                         wd_to = the (cx_address cx),
                         wd_key = ''tg_withdraw:'' @ int_str user_id @ '':'' @ the (cx_confirm_token cx)\<rparr>))"

subsection \<open>A request in sections\<close>

datatype wpc =
    WClaim
  | WReserving int reserve_pc
  | WUnreserve int
  | WSend int
  | WStamp int string
  | WBroadcast int string
  | WRecord int string
  | WFinalize int string
  | WReply int string
  | WUndo int string
  | WRelease int string
  | WDone withdraw_reply

text \<open>
  What the outside answers: the calls before the broadcast, the node, Telegram, and the database,
  which may fail the session of a section.
\<close>

datatype answer = PreFails string | Signed string | NodeAccepts | NodeThrows | ReplyOk | ReplyFails string | DbFails string

text \<open>The ledger, and a record of what was debited, given back and handed to the node.\<close>

record wworld =
  ww_ledger :: ledger
  ww_debits :: "int list"
  ww_refunds :: "int list"
  ww_sent :: "(int \<times> string) list"

text \<open>
  The Telegram handler finalizes the row and sends its last message inside the \<open>try\<close> whose
  \<open>except Exception\<close> credits the amount back and deletes the row; the web route finalizes
  after its \<open>try\<close>.
\<close>

definition telegram_reply :: "int \<Rightarrow> string \<Rightarrow> answer \<Rightarrow> wpc" where
  "telegram_reply i h ans = (case ans of ReplyFails e \<Rightarrow> WUndo i e | _ \<Rightarrow> WDone (Submitted h))"

definition finalize_failed :: "channel \<Rightarrow> int \<Rightarrow> string \<Rightarrow> wpc" where
  "finalize_failed ch i e = (case ch of Web \<Rightarrow> WDone Raised | Telegram \<Rightarrow> WUndo i e)"

fun withdraw_section :: "token_registry \<Rightarrow> int \<Rightarrow> withdrawal \<Rightarrow> answer \<Rightarrow> wpc \<Rightarrow> wworld \<Rightarrow> wpc \<times> wworld" where
  "withdraw_section reg now r ans WClaim w =
     (case claim_idempotency_key reg now (wd_key r) (wd_user r) TX_WITHDRAWAL (wd_chain r) (wd_token r) (wd_amount r)
             (Some (wd_to r)) (ww_ledger w) of
        (None, _) \<Rightarrow>
          (WDone (AlreadySubmitted (case get_transaction_by_idempotency_key (wd_user r) (wd_key r) (ww_ledger w) of
                                     Some t \<Rightarrow> ct_tx_hash t | None \<Rightarrow> None)), w)
      | (Some i, lg) \<Rightarrow> (WReserving i (reserve_start (wd_amount r) 5), w\<lparr>ww_ledger := lg\<rparr>))"
| "withdraw_section reg now r ans (WReserving i pc) w =
     (case reserve_step (wd_user r) (wd_chain r) (wd_token r) (wd_amount r) pc (ww_ledger w) of
        (RDone (Inr True), lg) \<Rightarrow> (WSend i, w\<lparr>ww_ledger := lg, ww_debits := i # ww_debits w\<rparr>)
      | (RDone (Inr False), lg) \<Rightarrow> (WUnreserve i, w\<lparr>ww_ledger := lg\<rparr>)
      | (RDone (Inl _), lg) \<Rightarrow> (WDone Raised, w\<lparr>ww_ledger := lg\<rparr>)
      | (pc', lg) \<Rightarrow> (WReserving i pc', w\<lparr>ww_ledger := lg\<rparr>))"
| "withdraw_section reg now r ans (WUnreserve i) w =
     (WDone Insufficient, w\<lparr>ww_ledger := release_claimed_transaction i (ww_ledger w)\<rparr>)"
| "withdraw_section reg now r ans (WSend i) w =
     (case ans of Signed h \<Rightarrow> (WStamp i h, w) | PreFails e \<Rightarrow> (WUndo i e, w) | _ \<Rightarrow> (WSend i, w))"
| "withdraw_section reg now r ans (WStamp i h) w =
     (WBroadcast i h, w\<lparr>ww_ledger := stamp_pending_tx_hash i h (ww_ledger w)\<rparr>)"
| "withdraw_section reg now r ans (WBroadcast i h) w =
     (case ans of
        NodeAccepts \<Rightarrow> (WFinalize i h, w\<lparr>ww_sent := (i, h) # ww_sent w\<rparr>)
      | NodeThrows \<Rightarrow> (WRecord i h, w\<lparr>ww_sent := (i, h) # ww_sent w\<rparr>)
      | _ \<Rightarrow> (WBroadcast i h, w))"
| "withdraw_section reg now r ans (WRecord i h) w =
     (WDone Unconfirmed, w\<lparr>ww_ledger := snd (record_pending_tx_hash i (Some h) (ww_ledger w))\<rparr>)"
| "withdraw_section reg now r ans (WFinalize i h) w =
     (case wd_channel r of Web \<Rightarrow> WDone (Submitted h) | Telegram \<Rightarrow> WReply i h,
      w\<lparr>ww_ledger := finalize_claimed_transaction now i h None (ww_ledger w)\<rparr>)"
| "withdraw_section reg now r ans (WReply i h) w =
     (telegram_reply i h ans, w)"
| "withdraw_section reg now r ans (WUndo i e) w =
     (case update_custodial_balance reg (wd_user r) (wd_chain r) (wd_token r) (wd_amount r) OpAdd (ww_ledger w) of
        (Inl _, _) \<Rightarrow> (WDone Raised, w)
      | (Inr _, lg) \<Rightarrow> (WRelease i e, w\<lparr>ww_ledger := lg, ww_refunds := i # ww_refunds w\<rparr>))"
| "withdraw_section reg now r ans (WRelease i e) w =
     (WDone (Undone e), w\<lparr>ww_ledger := release_claimed_transaction i (ww_ledger w)\<rparr>)"
| "withdraw_section reg now r ans (WDone x) w = (WDone x, w)"

text \<open>
  A session that raises: before the broadcast the \<open>except\<close> branch undoes the request, outside
  the \<open>try\<close> and inside the \<open>except\<close> branches themselves the handler raises.  The sections
  that talk to the chain or to Telegram have no session of their own.
\<close>

fun session_raises :: "channel \<Rightarrow> string \<Rightarrow> wpc \<Rightarrow> wpc" where
  "session_raises ch e (WStamp i h) = WUndo i e"
| "session_raises ch e (WFinalize i h) = finalize_failed ch i e"
| "session_raises ch e (WSend i) = WSend i"
| "session_raises ch e (WBroadcast i h) = WBroadcast i h"
| "session_raises ch e (WReply i h) = WReply i h"
| "session_raises ch e (WDone x) = WDone x"
| "session_raises ch e pc = WDone Raised"

definition withdraw_step :: "token_registry \<Rightarrow> int \<Rightarrow> withdrawal \<Rightarrow> answer \<Rightarrow> wpc \<Rightarrow> wworld \<Rightarrow> wpc \<times> wworld" where
  "withdraw_step reg now r ans pc w =
     (case ans of DbFails e \<Rightarrow> (session_raises (wd_channel r) e pc, w) | _ \<Rightarrow> withdraw_section reg now r ans pc w)"

subsection \<open>The withdrawal reconciler\<close>

definition stale_after :: int where "stale_after = 3 * 60"

definition never_broadcast_after :: int where "never_broadcast_after = 30 * 60"

datatype ppc = PRows "CustodialTransaction list" | PCredit CustodialTransaction "CustodialTransaction list"

definition withdraw_candidates :: "int \<Rightarrow> ledger \<Rightarrow> CustodialTransaction list" where
  "withdraw_candidates now lg =
     filter (\<lambda>t. ct_tx_type t = TX_WITHDRAWAL \<and> ct_status t = TX_PENDING \<and> ct_created_at t < now - stale_after) (lg_txs lg)"

definition start_refund :: "int \<Rightarrow> CustodialTransaction \<Rightarrow> CustodialTransaction list \<Rightarrow> wworld \<Rightarrow> ppc \<times> wworld" where
  "start_refund now row rest w =
     (case cas_transaction_status now (ct_id row) TX_PENDING TX_FAILED None (ww_ledger w) of
        (True, lg) \<Rightarrow> (PCredit row rest, w\<lparr>ww_ledger := lg\<rparr>)
      | (False, _) \<Rightarrow> (PRows rest, w))"

text \<open>\<open>confirmed\<close> is what the chain lookup returned for the row's hash.\<close>

definition resolve_one ::
  "int \<Rightarrow> bool option \<Rightarrow> CustodialTransaction \<Rightarrow> CustodialTransaction list \<Rightarrow> wworld \<Rightarrow> ppc \<times> wworld" where
  "resolve_one now confirmed row rest w =
     (if truthy (ct_tx_hash row) then
        (case confirmed of
           Some True \<Rightarrow>
             (PRows rest, w\<lparr>ww_ledger := snd (cas_transaction_status now (ct_id row) TX_PENDING TX_COMPLETED (ct_tx_hash row) (ww_ledger w))\<rparr>)
         | Some False \<Rightarrow> start_refund now row rest w
         | None \<Rightarrow> (PRows rest, w))
      else if never_broadcast_after \<le> now - ct_created_at row then start_refund now row rest w
      else (PRows rest, w))"

fun pass_step :: "token_registry \<Rightarrow> int \<Rightarrow> bool option \<Rightarrow> ppc \<Rightarrow> wworld \<Rightarrow> ppc \<times> wworld" where
  "pass_step reg now confirmed (PRows []) w = (PRows [], w)"
| "pass_step reg now confirmed (PRows (row # rest)) w = resolve_one now confirmed row rest w"
| "pass_step reg now confirmed (PCredit row rest) w =
     (case dec_parse (ct_amount row) of
        None \<Rightarrow> (PRows rest, w)
      | Some a \<Rightarrow>
          (case update_custodial_balance reg (ct_user_id row) (ct_chain row) (ct_token_symbol row) a OpAdd (ww_ledger w) of
             (Inl _, _) \<Rightarrow> (PRows rest, w)
           | (Inr _, lg) \<Rightarrow> (PRows rest, w\<lparr>ww_ledger := lg, ww_refunds := ct_id row # ww_refunds w\<rparr>)))"

text \<open>The chain lookup, from the receipt status of an EVM transaction or the status of a Solana signature.\<close>

datatype chain_report =
    EvmReceipt "int option option"
  | SolanaStatus "(bool \<times> bool) option option"
  | LookupFailed

text \<open>
  \<open>EvmReceipt None\<close>: no receipt; \<open>Some s\<close>: its status field.  \<open>SolanaStatus None\<close>: no endpoint or no
  answer; \<open>Some None\<close>: signature unknown; \<open>Some (Some (err, confirmed))\<close>: an error, a confirmation status.
\<close>

definition check_chain_status :: "chain_report \<Rightarrow> bool option" where
  "check_chain_status rep =
     (case rep of
        EvmReceipt (Some (Some s)) \<Rightarrow> if s = 1 then Some True else if s = 0 then Some False else None
      | SolanaStatus (Some (Some (err, confirmed))) \<Rightarrow> if err then Some False else if confirmed then Some True else None
      | _ \<Rightarrow> None)"

end
