(* ===== verification/WithdrawSystem.thy ===== *)
theory WithdrawSystem
  imports Withdrawals
begin

text \<open>
  Requests and reconciler passes running together.  \<open>wexec\<close> executes one event; \<open>admissible\<close>
  lists what the main theorem assumes of a schedule.
\<close>

subsection \<open>The system\<close>

record wsys =
  ws_world :: wworld
  ws_reqs :: "(withdrawal \<times> wpc) list"
  ws_passes :: "ppc list"

datatype wevent =
    Arrive withdrawal
  | Section nat int answer
  | Stop nat
  | Pass int
  | PassSection nat int "bool option"
  | OtherBalances "CustodialBalance list"

text \<open>\<open>Stop\<close>: the worker of a request dies.\<close>

fun wexec :: "token_registry \<Rightarrow> wevent \<Rightarrow> wsys \<Rightarrow> wsys" where
  "wexec reg (Arrive r) s = s\<lparr>ws_reqs := ws_reqs s @ [(r, WClaim)]\<rparr>"
| "wexec reg (Section k now ans) s =
     (if k < length (ws_reqs s) then
        (case ws_reqs s ! k of (r, pc) \<Rightarrow>
          (case withdraw_step reg now r ans pc (ws_world s) of (pc', w) \<Rightarrow>
            s\<lparr>ws_world := w, ws_reqs := (ws_reqs s)[k := (r, pc')]\<rparr>))
      else s)"
| "wexec reg (Stop k) s =
     (if k < length (ws_reqs s) then
        (case ws_reqs s ! k of (r, pc) \<Rightarrow> s\<lparr>ws_reqs := (ws_reqs s)[k := (r, WDone Raised)]\<rparr>)
      else s)"
| "wexec reg (Pass now) s = s\<lparr>ws_passes := ws_passes s @ [PRows (withdraw_candidates now (ww_ledger (ws_world s)))]\<rparr>"
| "wexec reg (PassSection k now confirmed) s =
     (if k < length (ws_passes s) then
        (case pass_step reg now confirmed (ws_passes s ! k) (ws_world s) of (p', w) \<Rightarrow>
          s\<lparr>ws_world := w, ws_passes := (ws_passes s)[k := p']\<rparr>)
      else s)"
| "wexec reg (OtherBalances bs) s = s\<lparr>ws_world := (ws_world s)\<lparr>ww_ledger := (ww_ledger (ws_world s))\<lparr>lg_balances := bs\<rparr>\<rparr>\<rparr>"

fun wexecs :: "token_registry \<Rightarrow> wevent list \<Rightarrow> wsys \<Rightarrow> wsys" where
  "wexecs reg [] s = s"
| "wexecs reg (e # es) s = wexecs reg es (wexec reg e s)"

definition idle :: "ledger \<Rightarrow> wsys" where
  "idle lg = \<lparr>ws_world = \<lparr>ww_ledger = lg, ww_debits = [], ww_refunds = [], ww_sent = []\<rparr>, ws_reqs = [], ws_passes = []\<rparr>"

fun owned :: "wpc \<Rightarrow> int option" where
  "owned WClaim = None"
| "owned (WReserving i _) = Some i"
| "owned (WUnreserve i) = Some i"
| "owned (WSend i) = Some i"
| "owned (WStamp i _) = Some i"
| "owned (WBroadcast i _) = Some i"
| "owned (WRecord i _) = Some i"
| "owned (WFinalize i _) = Some i"
| "owned (WReply i _) = Some i"
| "owned (WUndo i _) = Some i"
| "owned (WRelease i _) = Some i"
| "owned (WDone _) = None"

definition owners :: "int \<Rightarrow> wsys \<Rightarrow> wpc list" where
  "owners i s = filter (\<lambda>pc. owned pc = Some i) (map snd (ws_reqs s))"

text \<open>Rows that a pass has loaded and not yet looked at, and the row it is about to credit.\<close>

fun loaded :: "ppc \<Rightarrow> CustodialTransaction list" where
  "loaded (PRows rows) = rows"
| "loaded (PCredit row rest) = rest"

fun crediting :: "ppc \<Rightarrow> int option" where
  "crediting (PRows rows) = None"
| "crediting (PCredit row rest) = Some (ct_id row)"

definition over_without_hash :: "wsys \<Rightarrow> int \<Rightarrow> bool" where
  "over_without_hash s i \<longleftrightarrow> owners i s = [] \<and>
     (case find_tx i (ww_ledger (ws_world s)) of None \<Rightarrow> True | Some t \<Rightarrow> ct_tx_hash t = None)"

text \<open>
  Hypotheses of a schedule, with \<open>lands h\<close> telling whether the transaction \<open>h\<close> succeeds on chain
  once it is handed to a node: neither do workers die nor does the database fail between the claim
  and the debit or between the credit and the deletion of an undo; the signed hash is not
  empty; once a Telegram withdrawal is broadcast, its row is finalized and Telegram accepts the final
  message; a request is over when its row, still without hash, is refunded at the age of thirty
  minutes; the reservation itself does not raise; and the chain lookup is truthful.
\<close>

fun exposed :: "wpc \<Rightarrow> bool" where
  "exposed (WReserving i pc) = True"
| "exposed (WUnreserve i) = True"
| "exposed (WRelease i e) = True"
| "exposed pc = False"

fun answer_ok :: "withdrawal \<Rightarrow> wpc \<Rightarrow> answer \<Rightarrow> bool" where
  "answer_ok r pc (Signed h) = (h \<noteq> [])"
| "answer_ok r pc (ReplyFails e) = False"
| "answer_ok r pc (DbFails e) = (\<not> exposed pc \<and> (wd_channel r = Telegram \<longrightarrow> (case pc of WFinalize _ _ \<Rightarrow> False | _ \<Rightarrow> True)))"
| "answer_ok r pc ans = True"

fun admissible :: "(string \<Rightarrow> bool) \<Rightarrow> wsys \<Rightarrow> wevent \<Rightarrow> bool" where
  "admissible lands s (Stop k) = (k < length (ws_reqs s) \<longrightarrow> \<not> exposed (snd (ws_reqs s ! k)))"
| "admissible lands s (Section k now ans) =
     (k < length (ws_reqs s) \<longrightarrow> (case ws_reqs s ! k of (r, pc) \<Rightarrow>
        answer_ok r pc ans \<and>
        (case pc of WReserving i p \<Rightarrow>
           (case fst (reserve_step (wd_user r) (wd_chain r) (wd_token r) (wd_amount r) p (ww_ledger (ws_world s))) of
              RDone (Inl _) \<Rightarrow> False | _ \<Rightarrow> True)
         | _ \<Rightarrow> True)))"
| "admissible lands s (PassSection k now confirmed) =
     (k < length (ws_passes s) \<longrightarrow> (case ws_passes s ! k of
        PRows (row # _) \<Rightarrow>
          if truthy (ct_tx_hash row) then confirmed = Some False \<longrightarrow> \<not> lands (the (ct_tx_hash row))
          else never_broadcast_after \<le> now - ct_created_at row \<longrightarrow> over_without_hash s (ct_id row)
      | _ \<Rightarrow> True))"
| "admissible lands s _ = True"

inductive wrun :: "token_registry \<Rightarrow> (string \<Rightarrow> bool) \<Rightarrow> ledger \<Rightarrow> wsys \<Rightarrow> bool" for reg lands lg0 where
  wrun_idle: "wrun reg lands lg0 (idle lg0)"
| wrun_event: "wrun reg lands lg0 s \<Longrightarrow> admissible lands s e \<Longrightarrow> wrun reg lands lg0 (wexec reg e s)"


subsection \<open>The life of one row\<close>

definition unsent :: "CustodialTransaction option \<Rightarrow> bool" where
  "unsent row \<longleftrightarrow> (\<exists>t. row = Some t \<and> ct_status t = TX_PENDING \<and> ct_tx_hash t = None)"

definition stamped :: "(string \<Rightarrow> bool) \<Rightarrow> string \<Rightarrow> CustodialTransaction option \<Rightarrow> nat \<Rightarrow> bool" where
  "stamped lands h row paid \<longleftrightarrow>
     (\<exists>t. row = Some t \<and> ct_tx_hash t = Some h \<and> h \<noteq> [] \<and>
       (if ct_status t = TX_PENDING then paid = 0 else paid \<le> 1 \<and> (paid = 1 \<longrightarrow> \<not> lands h)))"

text \<open>Debits, refunds, credits in flight and broadcasts of a row, by the section its request is in.\<close>

fun stage_ok :: "(string \<Rightarrow> bool) \<Rightarrow> wpc \<Rightarrow> CustodialTransaction option \<Rightarrow> nat \<Rightarrow> nat \<Rightarrow> nat \<Rightarrow> string list \<Rightarrow> bool" where
  "stage_ok lands (WReserving _ _) row d r c sent \<longleftrightarrow> unsent row \<and> d = 0 \<and> r = 0 \<and> c = 0 \<and> sent = []"
| "stage_ok lands (WUnreserve _) row d r c sent \<longleftrightarrow> unsent row \<and> d = 0 \<and> r = 0 \<and> c = 0 \<and> sent = []"
| "stage_ok lands (WSend _) row d r c sent \<longleftrightarrow> unsent row \<and> d = 1 \<and> r = 0 \<and> c = 0 \<and> sent = []"
| "stage_ok lands (WStamp _ h) row d r c sent \<longleftrightarrow> h \<noteq> [] \<and> unsent row \<and> d = 1 \<and> r = 0 \<and> c = 0 \<and> sent = []"
| "stage_ok lands (WBroadcast _ h) row d r c sent \<longleftrightarrow> stamped lands h row (r + c) \<and> d = 1 \<and> sent = []"
| "stage_ok lands (WRecord _ h) row d r c sent \<longleftrightarrow> stamped lands h row (r + c) \<and> d = 1 \<and> sent = [h]"
| "stage_ok lands (WFinalize _ h) row d r c sent \<longleftrightarrow> stamped lands h row (r + c) \<and> d = 1 \<and> sent = [h]"
| "stage_ok lands (WReply _ h) row d r c sent \<longleftrightarrow> stamped lands h row (r + c) \<and> d = 1 \<and> sent = [h]"
| "stage_ok lands (WUndo _ _) row d r c sent \<longleftrightarrow> unsent row \<and> d = 1 \<and> r = 0 \<and> c = 0 \<and> sent = []"
| "stage_ok lands (WRelease _ _) row d r c sent \<longleftrightarrow> unsent row \<and> d = 1 \<and> r = 1 \<and> c = 0 \<and> sent = []"
| "stage_ok lands WClaim row d r c sent \<longleftrightarrow> False"
| "stage_ok lands (WDone _) row d r c sent \<longleftrightarrow> False"

text \<open>A row whose request is over.\<close>

definition over_ok :: "(string \<Rightarrow> bool) \<Rightarrow> CustodialTransaction option \<Rightarrow> nat \<Rightarrow> nat \<Rightarrow> nat \<Rightarrow> string list \<Rightarrow> bool" where
  "over_ok lands row d r c sent \<longleftrightarrow>
     (case row of
        None \<Rightarrow> sent = [] \<and> r + c \<le> d \<and> d \<le> 1
      | Some t \<Rightarrow>
          if ct_status t = TX_PENDING
          then d = 1 \<and> r + c = 0 \<and> (case ct_tx_hash t of None \<Rightarrow> sent = [] | Some h \<Rightarrow> h \<noteq> [] \<and> (sent = [] \<or> sent = [h]))
          else d \<le> 1 \<and> r + c + length (filter lands sent) \<le> d)"

definition life_ok ::
  "(string \<Rightarrow> bool) \<Rightarrow> wpc list \<Rightarrow> CustodialTransaction option \<Rightarrow> nat \<Rightarrow> nat \<Rightarrow> nat \<Rightarrow> string list \<Rightarrow> bool" where
  "life_ok lands pcs row d r c sent \<longleftrightarrow>
     (case pcs of [] \<Rightarrow> over_ok lands row d r c sent | [pc] \<Rightarrow> stage_ok lands pc row d r c sent | _ \<Rightarrow> False)"

lemma life_ok_simps [simp]:
  "life_ok lands [] row d r c sent = over_ok lands row d r c sent"
  "life_ok lands [pc] row d r c sent = stage_ok lands pc row d r c sent"
  "\<not> life_ok lands (p # q # rest) row d r c sent"
  by (simp_all add: life_ok_def)

definition sent_of :: "int \<Rightarrow> wworld \<Rightarrow> string list" where
  "sent_of i w = map snd (filter (\<lambda>(j, h). j = i) (ww_sent w))"

definition debits_of :: "int \<Rightarrow> wworld \<Rightarrow> nat" where
  "debits_of i w = count_list (ww_debits w) i"

definition refunds_of :: "int \<Rightarrow> wworld \<Rightarrow> nat" where
  "refunds_of i w = count_list (ww_refunds w) i"

definition credits_of :: "int \<Rightarrow> ppc list \<Rightarrow> nat" where
  "credits_of i ps = length (filter (\<lambda>p. crediting p = Some i) ps)"

definition row_life :: "(string \<Rightarrow> bool) \<Rightarrow> int \<Rightarrow> wsys \<Rightarrow> bool" where
  "row_life lands i s \<longleftrightarrow>
     life_ok lands (owners i s) (find_tx i (ww_ledger (ws_world s))) (debits_of i (ws_world s)) (refunds_of i (ws_world s))
       (credits_of i (ws_passes s)) (sent_of i (ws_world s))"

definition unused :: "int \<Rightarrow> wsys \<Rightarrow> bool" where
  "unused i s \<longleftrightarrow> owners i s = [] \<and> debits_of i (ws_world s) = 0 \<and> refunds_of i (ws_world s) = 0 \<and>
     credits_of i (ws_passes s) = 0 \<and> sent_of i (ws_world s) = []"

definition tx_ids :: "ledger \<Rightarrow> int list" where
  "tx_ids lg = map ct_id (lg_txs lg)"

definition ids_ok :: "ledger \<Rightarrow> bool" where
  "ids_ok lg \<longleftrightarrow> distinct (tx_ids lg) \<and> (\<forall>i\<in>set (tx_ids lg). i < lg_next_tx lg)"

text \<open>What a pass has loaded names an old row, and a hash it has seen is the hash of the row.\<close>

definition seen_ok :: "ledger \<Rightarrow> CustodialTransaction \<Rightarrow> bool" where
  "seen_ok lg row \<longleftrightarrow> ct_id row < lg_next_tx lg \<and>
     (truthy (ct_tx_hash row) \<longrightarrow> (\<forall>t. find_tx (ct_id row) lg = Some t \<longrightarrow> ct_tx_hash t = ct_tx_hash row))"

definition winv :: "(string \<Rightarrow> bool) \<Rightarrow> wsys \<Rightarrow> bool" where
  "winv lands s \<longleftrightarrow>
     ids_ok (ww_ledger (ws_world s)) \<and>
     (\<forall>i. if i < lg_next_tx (ww_ledger (ws_world s)) then row_life lands i s else unused i s) \<and>
     (\<forall>p\<in>set (ws_passes s). (\<forall>row\<in>set (loaded p). seen_ok (ww_ledger (ws_world s)) row))"

subsection \<open>Operations of the ledger on rows\<close>

lemma find_tx_id: "find_tx i lg = Some t \<Longrightarrow> ct_id t = i \<and> t \<in> set (lg_txs lg)"
  unfolding find_tx_def by (auto dest: find_SomeD)

lemma find_tx_of_mem: "ids_ok lg \<Longrightarrow> t \<in> set (lg_txs lg) \<Longrightarrow> find_tx (ct_id t) lg = Some t"
  unfolding find_tx_def ids_ok_def tx_ids_def by (intro find_unique) auto

lemma find_tx_none: "ids_ok lg \<Longrightarrow> \<not> i < lg_next_tx lg \<Longrightarrow> find_tx i lg = None"
  using find_tx_id [of i lg] by (cases "find_tx i lg") (auto simp: ids_ok_def tx_ids_def)

lemma upd_txs_ledger:
  assumes "upd_txs P f lg = (b, lg')" and "\<And>t. ct_id (f t) = ct_id t" and "\<And>t. P t \<Longrightarrow> ct_id t = i"
  shows "ids_ok lg \<Longrightarrow> ids_ok lg'" and "lg_next_tx lg' = lg_next_tx lg"
    and "find_tx j lg' = (if j = i then map_option (\<lambda>t. if P t then f t else t) (find_tx i lg) else find_tx j lg)"
    and "ids_ok lg \<Longrightarrow> b = (\<exists>t. find_tx i lg = Some t \<and> P t)"
proof -
  from assms(1) have lg': "lg' = lg\<lparr>lg_txs := upd_where P f (lg_txs lg)\<rparr>" and b: "b = (\<exists>t\<in>set (lg_txs lg). P t)"
    by (auto simp: upd_txs_def)
  have "map ct_id (upd_where P f (lg_txs lg)) = map ct_id (lg_txs lg)" by (rule map_upd_where) (simp add: assms(2))
  then show "ids_ok lg \<Longrightarrow> ids_ok lg'" by (simp add: lg' ids_ok_def tx_ids_def)
  show "lg_next_tx lg' = lg_next_tx lg" by (simp add: lg')
  have "List.find (\<lambda>t. ct_id t = j) (upd_where P f rows) =
      (if j = i then map_option (\<lambda>t. if P t then f t else t) (List.find (\<lambda>t. ct_id t = i) rows)
       else List.find (\<lambda>t. ct_id t = j) rows)" for rows
    using assms(2,3) by (induction rows) auto
  then show "find_tx j lg' = (if j = i then map_option (\<lambda>t. if P t then f t else t) (find_tx i lg) else find_tx j lg)"
    by (simp add: find_tx_def lg')
  show "b = (\<exists>t. find_tx i lg = Some t \<and> P t)" if "ids_ok lg"
    using that b assms(3) find_tx_of_mem find_tx_id by metis
qed

lemma find_filter_other:
  "List.find (\<lambda>t. k t = j) (filter (\<lambda>t. k t \<noteq> i) rows) = (if j = i then None else List.find (\<lambda>t. k t = j) rows)"
  by (induction rows) auto

lemma release_ledger:
  "ids_ok lg \<Longrightarrow> ids_ok (release_claimed_transaction i lg)"
  "lg_next_tx (release_claimed_transaction i lg) = lg_next_tx lg"
  "find_tx j (release_claimed_transaction i lg) = (if j = i then None else find_tx j lg)"
proof -
  show "ids_ok lg \<Longrightarrow> ids_ok (release_claimed_transaction i lg)"
    by (auto simp: release_claimed_transaction_def ids_ok_def tx_ids_def distinct_map inj_on_def)
  show "lg_next_tx (release_claimed_transaction i lg) = lg_next_tx lg" by (simp add: release_claimed_transaction_def)
  show "find_tx j (release_claimed_transaction i lg) = (if j = i then None else find_tx j lg)"
    by (simp add: release_claimed_transaction_def find_tx_def find_filter_other)
qed

lemma claim_ledger:
  assumes "claim_idempotency_key reg now key u ty ch tok a to lg = (Some i, lg')" and "ids_ok lg"
  shows "i = lg_next_tx lg" and "ids_ok lg'" and "lg_next_tx lg' = lg_next_tx lg + 1"
    and "find_tx j lg' = (if j = i then find_tx i lg' else find_tx j lg)" and "unsent (find_tx i lg')"
proof -
  from assms(1) obtain t where t: "i = lg_next_tx lg" "lg' = lg\<lparr>lg_txs := lg_txs lg @ [t], lg_next_tx := lg_next_tx lg + 1\<rparr>"
    "ct_id t = i" "ct_status t = TX_PENDING" "ct_tx_hash t = None"
    by (auto simp: claim_idempotency_key_def insert_tx_def split: if_splits)
  show "i = lg_next_tx lg" "lg_next_tx lg' = lg_next_tx lg + 1" using t by simp_all
  show "ids_ok lg'" using assms(2) t by (fastforce simp: ids_ok_def tx_ids_def)
  have "find_tx i lg = None" using find_tx_none [OF assms(2), of i] t by simp
  then have f: "find_tx j lg' = (if j = i then Some t else find_tx j lg)" for j
    using t by (auto simp: find_tx_def find_append split: option.splits)
  then show "find_tx j lg' = (if j = i then find_tx i lg' else find_tx j lg)" "unsent (find_tx i lg')"
    using t by (auto simp: unsent_def)
qed

lemma same_rows:
  assumes "lg_txs lg' = lg_txs lg" and "lg_next_tx lg' = lg_next_tx lg"
  shows "ids_ok lg' = ids_ok lg" and "find_tx j lg' = find_tx j lg"
  using assms by (simp_all add: ids_ok_def tx_ids_def find_tx_def)

lemma reserve_step_rows:
  "reserve_step u c t a pc lg = (pc', lg') \<Longrightarrow> lg_txs lg' = lg_txs lg \<and> lg_next_tx lg' = lg_next_tx lg"
proof (cases pc)
  case (RTry k)
  then show "reserve_step u c t a pc lg = (pc', lg') \<Longrightarrow> ?thesis" by (cases k) auto
qed (auto simp: cas_balance_def Let_def split: prod.splits bool.splits)

lemma update_balance_rows:
  assumes "update_custodial_balance reg u c t a op lg = (r, lg')"
  shows "lg_txs lg' = lg_txs lg \<and> lg_next_tx lg' = lg_next_tx lg"
proof (cases "apply_custodial_balance reg u c t a op lg")
  case (Inl e)
  with assms show ?thesis by (simp add: update_custodial_balance_def)
next
  case (Inr x)
  obtain n lg2 where x: "x = (n, lg2)" by (cases x)
  with assms Inr have "lg' = lg2" by (simp add: update_custodial_balance_def)
  obtain b lg1 where "open_balance reg u c t lg = (b, lg1)" "lg2 = set_balance (cb_id b) (dec_str n) lg1"
    using Inr unfolding x by (rule apply_InrE)
  with open_balance_find(3,4) \<open>lg' = lg2\<close> show ?thesis by (simp add: set_balance_def)
qed


subsection \<open>One event touches one row\<close>

lemma filter_update:
  assumes "k < length xs"
  shows "filter Q (xs[k := y]) = filter Q (take k xs) @ (if Q y then [y] else []) @ filter Q (drop (Suc k) xs)"
    and "filter Q xs = filter Q (take k xs) @ (if Q (xs ! k) then [xs ! k] else []) @ filter Q (drop (Suc k) xs)"
proof -
  have "xs[k := y] = take k xs @ y # drop (Suc k) xs" using assms by (simp add: upd_conv_take_nth_drop)
  then show "filter Q (xs[k := y]) = filter Q (take k xs) @ (if Q y then [y] else []) @ filter Q (drop (Suc k) xs)" by simp
  have "filter Q xs = filter Q (take k xs @ xs ! k # drop (Suc k) xs)" using assms by (simp add: id_take_nth_drop [symmetric])
  then show "filter Q xs = filter Q (take k xs) @ (if Q (xs ! k) then [xs ! k] else []) @ filter Q (drop (Suc k) xs)" by simp
qed

definition owners_in :: "int \<Rightarrow> (withdrawal \<times> wpc) list \<Rightarrow> wpc list" where
  "owners_in i reqs = filter (\<lambda>pc. owned pc = Some i) (map snd reqs)"

lemma owners_eq: "owners i s = owners_in i (ws_reqs s)"
  by (simp add: owners_def owners_in_def)

lemma owners_update:
  assumes "k < length reqs" and "reqs ! k = (r, pc)"
  shows "owned pc \<noteq> Some j \<Longrightarrow> owned pc' \<noteq> Some j \<Longrightarrow> owners_in j (reqs[k := (r, pc')]) = owners_in j reqs"
    and "owned pc = Some j \<Longrightarrow> owners_in j reqs = [x] \<Longrightarrow>
      x = pc \<and> owners_in j (reqs[k := (r, pc')]) = (if owned pc' = Some j then [pc'] else [])"
    and "owned pc \<noteq> Some j \<Longrightarrow> owners_in j reqs = [] \<Longrightarrow>
      owners_in j (reqs[k := (r, pc')]) = (if owned pc' = Some j then [pc'] else [])"
proof -
  let ?Q = "\<lambda>pc. owned pc = Some j" and ?xs = "map snd reqs"
  have k: "k < length ?xs" and n: "?xs ! k = pc" using assms by simp_all
  have m: "map snd (reqs[k := (r, pc')]) = ?xs[k := pc']" by (simp add: map_update)
  note f = filter_update(1) [OF k, of ?Q pc'] and g = filter_update(2) [OF k, of ?Q]
  show "owned pc \<noteq> Some j \<Longrightarrow> owned pc' \<noteq> Some j \<Longrightarrow> owners_in j (reqs[k := (r, pc')]) = owners_in j reqs"
    using f g by (simp add: owners_in_def m n)
  show "owned pc = Some j \<Longrightarrow> owners_in j reqs = [x] \<Longrightarrow>
      x = pc \<and> owners_in j (reqs[k := (r, pc')]) = (if owned pc' = Some j then [pc'] else [])"
    using f g by (simp add: owners_in_def m n append_eq_Cons_conv)
  show "owned pc \<noteq> Some j \<Longrightarrow> owners_in j reqs = [] \<Longrightarrow>
      owners_in j (reqs[k := (r, pc')]) = (if owned pc' = Some j then [pc'] else [])"
    using f g by (simp add: owners_in_def m n)
qed

lemma credits_update:
  assumes "k < length ps"
  shows "credits_of j (ps[k := p']) + (if crediting (ps ! k) = Some j then 1 else 0) =
    credits_of j ps + (if crediting p' = Some j then 1 else 0)"
  using filter_update [OF assms, of "\<lambda>p. crediting p = Some j"] by (simp add: credits_of_def)

text \<open>
  What an event may do outside the row \<open>i\<close>: nothing to the other rows and their records; the
  sequence of keys does not go back, and what passes have seen stays true.
\<close>

definition others_same :: "int \<Rightarrow> wworld \<Rightarrow> wworld \<Rightarrow> bool" where
  "others_same i w w' \<longleftrightarrow>
     (\<forall>j. j \<noteq> i \<longrightarrow> find_tx j (ww_ledger w') = find_tx j (ww_ledger w) \<and> debits_of j w' = debits_of j w \<and>
        refunds_of j w' = refunds_of j w \<and> sent_of j w' = sent_of j w) \<and>
     (ids_ok (ww_ledger w) \<longrightarrow> ids_ok (ww_ledger w')) \<and> lg_next_tx (ww_ledger w') = lg_next_tx (ww_ledger w)"

definition hash_kept :: "int \<Rightarrow> wworld \<Rightarrow> wworld \<Rightarrow> bool" where
  "hash_kept i w w' \<longleftrightarrow>
     (\<forall>t' h. find_tx i (ww_ledger w') = Some t' \<longrightarrow> h \<noteq> [] \<longrightarrow>
        (\<forall>t. find_tx i (ww_ledger w) = Some t \<longrightarrow> ct_tx_hash t = Some h \<longrightarrow> ct_tx_hash t' = Some h) \<and>
        find_tx i (ww_ledger w) \<noteq> None)"

lemma seen_kept:
  assumes "others_same i w w'" and "hash_kept i w w'" and "seen_ok (ww_ledger w) row"
  shows "seen_ok (ww_ledger w') row"
proof -
  have "ct_tx_hash t' = ct_tx_hash row"
    if h: "truthy (ct_tx_hash row)" and t': "find_tx (ct_id row) (ww_ledger w') = Some t'" for t'
  proof (cases "ct_id row = i")
    case True
    obtain h where h': "ct_tx_hash row = Some h" "h \<noteq> []" using truthyD [OF h] by auto
    obtain t where t: "find_tx i (ww_ledger w) = Some t"
      using assms(2) t' True h'(2) by (auto simp: hash_kept_def)
    with assms(3) h True h' have "ct_tx_hash t = Some h" by (simp add: seen_ok_def)
    with assms(2) t' t True h' show ?thesis by (auto simp: hash_kept_def)
  next
    case False
    with assms(1,3) t' h show ?thesis by (auto simp: others_same_def seen_ok_def)
  qed
  moreover have "ct_id row < lg_next_tx (ww_ledger w')"
    using assms(1,3) by (simp add: seen_ok_def others_same_def)
  ultimately show ?thesis unfolding seen_ok_def by blast
qed

text \<open>A section of the request that owns row \<open>i\<close>.\<close>

lemma owner_stage:
  assumes inv: "winv lands s" and k: "k < length (ws_reqs s)" "ws_reqs s ! k = (r, pc)" and own: "owned pc = Some i"
  shows "owners i s = [pc]" and "i < lg_next_tx (ww_ledger (ws_world s))"
    and "stage_ok lands pc (find_tx i (ww_ledger (ws_world s))) (debits_of i (ws_world s)) (refunds_of i (ws_world s))
      (credits_of i (ws_passes s)) (sent_of i (ws_world s))"
proof -
  let ?n = "lg_next_tx (ww_ledger (ws_world s))"
  have "pc \<in> set (owners i s)" using k own nth_mem [OF k(1)] by (force simp: owners_def)
  then have ne: "owners i s \<noteq> []" by auto
  have "\<not> unused i s" using ne by (simp add: unused_def)
  moreover have "if i < ?n then row_life lands i s else unused i s" using inv unfolding winv_def by blast
  ultimately show i: "i < ?n" by (simp split: if_splits)
  then have rl: "row_life lands i s" using inv by (simp add: winv_def)
  then obtain x where x: "owners i s = [x]"
    using ne by (cases "owners i s" rule: list.exhaust; cases "tl (owners i s)") (auto simp: row_life_def)
  have "x = pc" using owners_update(2) [OF k own x [unfolded owners_eq]] by simp
  with x show o: "owners i s = [pc]" by simp
  show "stage_ok lands pc (find_tx i (ww_ledger (ws_world s))) (debits_of i (ws_world s)) (refunds_of i (ws_world s))
      (credits_of i (ws_passes s)) (sent_of i (ws_world s))"
    using rl by (simp add: row_life_def o)
qed

lemma winv_owner:
  assumes inv: "winv lands s" and k: "k < length (ws_reqs s)" "ws_reqs s ! k = (r, pc)" and own: "owned pc = Some i"
    and same: "others_same i (ws_world s) w'" and hash: "hash_kept i (ws_world s) w'"
    and own': "owned pc' = Some i \<or> owned pc' = None"
    and life: "stage_ok lands pc (find_tx i (ww_ledger (ws_world s))) (debits_of i (ws_world s)) (refunds_of i (ws_world s))
          (credits_of i (ws_passes s)) (sent_of i (ws_world s)) \<Longrightarrow>
        life_ok lands (if owned pc' = Some i then [pc'] else []) (find_tx i (ww_ledger w')) (debits_of i w') (refunds_of i w')
          (credits_of i (ws_passes s)) (sent_of i w')"
  shows "winv lands (s\<lparr>ws_world := w', ws_reqs := (ws_reqs s)[k := (r, pc')]\<rparr>)"
proof -
  let ?s = "s\<lparr>ws_world := w', ws_reqs := (ws_reqs s)[k := (r, pc')]\<rparr>"
  let ?n = "lg_next_tx (ww_ledger (ws_world s))"
  have ids: "ids_ok (ww_ledger (ws_world s))" using inv by (simp add: winv_def)
  have n: "lg_next_tx (ww_ledger w') = ?n" and ids': "ids_ok (ww_ledger w')" using same ids by (simp_all add: others_same_def)
  note st = owner_stage [OF inv k own]
  have u: "owners i ?s = (if owned pc' = Some i then [pc'] else [])"
    using owners_update(2) [OF k own st(1) [unfolded owners_eq], of pc'] by (simp add: owners_eq)
  have "row_life lands i ?s"
    using life [OF st(3)] u by (simp add: row_life_def)
  moreover have "owners j ?s = owners j s" if "j \<noteq> i" for j
    using owners_update(1) [OF k, of j pc'] own own' that by (auto simp: owners_eq)
  then have "(row_life lands j ?s = row_life lands j s) \<and> (unused j ?s = unused j s)" if "j \<noteq> i" for j
    using that same by (simp add: row_life_def unused_def others_same_def)
  ultimately have "if j < ?n then row_life lands j ?s else unused j ?s" for j
    using inv st(2) by (cases "j = i") (auto simp: winv_def)
  moreover have "\<forall>p\<in>set (ws_passes s). \<forall>row\<in>set (loaded p). seen_ok (ww_ledger w') row"
    using inv seen_kept [OF same hash] by (auto simp: winv_def)
  ultimately show ?thesis using ids' n by (simp add: winv_def)
qed

subsection \<open>The sections of a request\<close>

lemma others_sameI:
  assumes "\<And>j. j \<noteq> i \<Longrightarrow> find_tx j (ww_ledger w') = find_tx j (ww_ledger w)"
    and "ids_ok (ww_ledger w) \<Longrightarrow> ids_ok (ww_ledger w')" and "lg_next_tx (ww_ledger w') = lg_next_tx (ww_ledger w)"
    and "ww_debits w' = ww_debits w \<or> ww_debits w' = i # ww_debits w"
    and "ww_refunds w' = ww_refunds w \<or> ww_refunds w' = i # ww_refunds w"
    and "ww_sent w' = ww_sent w \<or> (\<exists>h. ww_sent w' = (i, h) # ww_sent w)"
  shows "others_same i w w'"
  using assms by (auto simp: others_same_def debits_of_def refunds_of_def sent_of_def)

lemma rows_same:
  assumes "lg_txs (ww_ledger w') = lg_txs (ww_ledger w)" and "lg_next_tx (ww_ledger w') = lg_next_tx (ww_ledger w)"
    and "ww_debits w' = ww_debits w \<or> ww_debits w' = i # ww_debits w"
    and "ww_refunds w' = ww_refunds w \<or> ww_refunds w' = i # ww_refunds w"
    and "ww_sent w' = ww_sent w \<or> (\<exists>h. ww_sent w' = (i, h) # ww_sent w)"
  shows "others_same i w w'" and "hash_kept i w w'" and "find_tx i (ww_ledger w') = find_tx i (ww_ledger w)"
proof -
  note sr = same_rows [OF assms(1,2)]
  show "others_same i w w'" by (rule others_sameI) (use sr assms in simp_all)
  show "hash_kept i w w'" by (simp add: hash_kept_def sr)
  show "find_tx i (ww_ledger w') = find_tx i (ww_ledger w)" by (rule sr)
qed

lemma counts_simps [simp]:
  "debits_of j (w\<lparr>ww_ledger := lg\<rparr>) = debits_of j w"
  "refunds_of j (w\<lparr>ww_ledger := lg\<rparr>) = refunds_of j w"
  "sent_of j (w\<lparr>ww_ledger := lg\<rparr>) = sent_of j w"
  "debits_of j (w\<lparr>ww_ledger := lg, ww_debits := i # ds\<rparr>) = (if i = j then Suc (count_list ds j) else count_list ds j)"
  "refunds_of j (w\<lparr>ww_ledger := lg, ww_debits := ds\<rparr>) = refunds_of j w"
  "sent_of j (w\<lparr>ww_ledger := lg, ww_debits := ds\<rparr>) = sent_of j w"
  "debits_of j (w\<lparr>ww_ledger := lg, ww_refunds := rs\<rparr>) = debits_of j w"
  "refunds_of j (w\<lparr>ww_ledger := lg, ww_refunds := i # rs\<rparr>) = (if i = j then Suc (count_list rs j) else count_list rs j)"
  "sent_of j (w\<lparr>ww_ledger := lg, ww_refunds := rs\<rparr>) = sent_of j w"
  "debits_of j (w\<lparr>ww_sent := ss\<rparr>) = debits_of j w"
  "refunds_of j (w\<lparr>ww_sent := ss\<rparr>) = refunds_of j w"
  "sent_of j (w\<lparr>ww_sent := (i, h) # ss\<rparr>) = (if i = j then h # map snd (filter (\<lambda>(i, h). i = j) ss) else map snd (filter (\<lambda>(i, h). i = j) ss))"
  by (auto simp: debits_of_def refunds_of_def sent_of_def)

lemma over_ok_released: "sent = [] \<Longrightarrow> r + c \<le> d \<Longrightarrow> d \<le> 1 \<Longrightarrow> over_ok lands None d r c sent"
  by (simp add: over_ok_def)

lemma unsent_over:
  "unsent row \<Longrightarrow> over_ok lands row (Suc 0) 0 0 []"
  by (auto simp: unsent_def over_ok_def)

lemma stamped_over:
  assumes "stamped lands h row (r + c)" and "sent = [] \<or> sent = [h]"
  shows "over_ok lands row (Suc 0) r c sent"
proof -
  obtain t where t: "row = Some t" "ct_tx_hash t = Some h" "h \<noteq> []"
    "if ct_status t = TX_PENDING then r + c = 0 else r + c \<le> 1 \<and> (r + c = 1 \<longrightarrow> \<not> lands h)"
    using assms(1) by (auto simp: stamped_def)
  then show ?thesis using assms(2) by (cases "ct_status t = TX_PENDING"; cases "lands h") (auto simp: over_ok_def)
qed

text \<open>A request that only moves on, or dies where the hypotheses let it.\<close>

lemma winv_pc:
  assumes "winv lands s" and "k < length (ws_reqs s)" and "ws_reqs s ! k = (r, pc)" and "owned pc = Some i"
    and "owned pc' = Some i \<or> owned pc' = None"
    and "\<And>row d rf c sent. stage_ok lands pc row d rf c sent \<Longrightarrow>
        life_ok lands (if owned pc' = Some i then [pc'] else []) row d rf c sent"
  shows "winv lands (s\<lparr>ws_reqs := (ws_reqs s)[k := (r, pc')]\<rparr>)"
proof -
  have "winv lands (s\<lparr>ws_world := ws_world s, ws_reqs := (ws_reqs s)[k := (r, pc')]\<rparr>)"
    by (rule winv_owner [OF assms(1-4) rows_same(1,2)]) (use assms(5,6) in auto)
  then show ?thesis by simp
qed

lemma winv_unowned:
  assumes "winv lands s" and "k < length (ws_reqs s)" and "ws_reqs s ! k = (r, pc)" and "owned pc = None" and "owned pc' = None"
  shows "winv lands (s\<lparr>ws_reqs := (ws_reqs s)[k := (r, pc')]\<rparr>)"
proof -
  have "owners j (s\<lparr>ws_reqs := (ws_reqs s)[k := (r, pc')]\<rparr>) = owners j s" for j
    using owners_update(1) [OF assms(2,3)] assms(4,5) by (simp add: owners_eq)
  then have "row_life lands j (s\<lparr>ws_reqs := (ws_reqs s)[k := (r, pc')]\<rparr>) = row_life lands j s"
    "unused j (s\<lparr>ws_reqs := (ws_reqs s)[k := (r, pc')]\<rparr>) = unused j s" for j
    by (simp_all add: row_life_def unused_def)
  then show ?thesis using assms(1) by (simp add: winv_def)
qed

lemma winv_stop:
  assumes "winv lands s" and "admissible lands s (Stop k)"
  shows "winv lands (wexec reg (Stop k) s)"
proof (cases "k < length (ws_reqs s)")
  case True
  obtain r pc where pc: "ws_reqs s ! k = (r, pc)" by fastforce
  note rule = winv_pc [OF assms(1) True pc, of _ "WDone Raised"]
  have "winv lands (s\<lparr>ws_reqs := (ws_reqs s)[k := (r, WDone Raised)]\<rparr>)"
  proof (cases pc)
    case WClaim
    then show ?thesis using winv_unowned [OF assms(1) True pc] by simp
  next
    case (WDone x)
    then show ?thesis using winv_unowned [OF assms(1) True pc] by simp
  qed (use assms(2) True pc in \<open>auto intro!: rule unsent_over elim!: stamped_over\<close>)
  with True pc show ?thesis by simp
qed (use assms in simp)

text \<open>A section whose session raises, where the hypotheses let it.\<close>

definition answered :: "answer \<Rightarrow> bool" where
  "answered ans \<longleftrightarrow> (\<forall>e. ans \<noteq> DbFails e)"

lemma withdraw_step_raises [simp]: "withdraw_step reg now r (DbFails e) pc w = (session_raises (wd_channel r) e pc, w)"
  by (simp add: withdraw_step_def)

lemma withdraw_step_answered: "answered ans \<Longrightarrow> withdraw_step reg now r ans pc w = withdraw_section reg now r ans pc w"
  by (cases ans) (simp_all add: withdraw_step_def answered_def)

lemma winv_raised:
  assumes inv: "winv lands s" and k: "k < length (ws_reqs s)" "ws_reqs s ! k = (r, pc)" and adm: "answer_ok r pc (DbFails e)"
  shows "winv lands (s\<lparr>ws_reqs := (ws_reqs s)[k := (r, session_raises (wd_channel r) e pc)]\<rparr>)"
proof (cases "owned pc")
  case None
  then have "owned (session_raises (wd_channel r) e pc) = None" by (cases pc) simp_all
  with winv_unowned [OF inv k None] show ?thesis by simp
next
  case (Some i)
  note pass = winv_pc [OF inv k Some]
  from Some adm show ?thesis
  proof (cases pc)
    case (WStamp j h)
    with Some show ?thesis by (intro pass) auto
  next
    case (WFinalize j h)
    with adm have "wd_channel r = Web" by (cases "wd_channel r") simp_all
    with WFinalize Some show ?thesis by (intro pass) (auto simp: finalize_failed_def elim!: stamped_over)
  qed (use Some adm in \<open>auto intro!: pass unsent_over elim!: stamped_over\<close>)
qed

text \<open>A section whose session answers.\<close>

fun section_exec :: "token_registry \<Rightarrow> nat \<Rightarrow> int \<Rightarrow> answer \<Rightarrow> wsys \<Rightarrow> wsys" where
  "section_exec reg k now ans s =
     (if k < length (ws_reqs s) then
        (case ws_reqs s ! k of (r, pc) \<Rightarrow>
          (case withdraw_section reg now r ans pc (ws_world s) of (pc', w) \<Rightarrow>
            s\<lparr>ws_world := w, ws_reqs := (ws_reqs s)[k := (r, pc')]\<rparr>))
      else s)"

lemma wexec_answered: "answered ans \<Longrightarrow> wexec reg (Section k now ans) s = section_exec reg k now ans s"
  by (simp add: withdraw_step_answered)

lemma winv_claim:
  assumes inv: "winv lands s" and k: "k < length (ws_reqs s)" "ws_reqs s ! k = (r, WClaim)"
  shows "winv lands (section_exec reg k now ans s)"
proof (cases "claim_idempotency_key reg now (wd_key r) (wd_user r) TX_WITHDRAWAL (wd_chain r) (wd_token r) (wd_amount r)
    (Some (wd_to r)) (ww_ledger (ws_world s))")
  case (Pair got lg')
  show ?thesis
  proof (cases got)
    case None
    with k Pair winv_unowned [OF inv k] show ?thesis by simp
  next
    case (Some i)
    let ?lg = "ww_ledger (ws_world s)"
    let ?pc = "WReserving i (reserve_start (wd_amount r) 5)"
    let ?s = "s\<lparr>ws_world := (ws_world s)\<lparr>ww_ledger := lg'\<rparr>, ws_reqs := (ws_reqs s)[k := (r, ?pc)]\<rparr>"
    have e: "section_exec reg k now ans s = ?s" using k Pair Some by simp
    have ids: "ids_ok ?lg" using inv by (simp add: winv_def)
    note c = claim_ledger [OF Pair [unfolded Some] ids]
    have un: "unused i s" using inv c(1) unfolding winv_def by (metis less_irrefl)
    have own: "owners i ?s = [?pc]" using owners_update(3) [OF k, of i ?pc] un by (simp add: owners_eq unused_def)
    have other: "owners j ?s = owners j s" if "j \<noteq> i" for j
      using owners_update(1) [OF k, of j ?pc] that by (simp add: owners_eq)
    have "row_life lands i ?s" using own c(5) un by (simp add: row_life_def unused_def)
    moreover have "row_life lands j ?s = row_life lands j s" "unused j ?s = unused j s" if "j \<noteq> i" for j
      using other [OF that] c(4) [of j] that by (simp_all add: row_life_def unused_def)
    ultimately have "if j < lg_next_tx lg' then row_life lands j ?s else unused j ?s" for j
      using inv c(1,3) by (cases "j = i") (auto simp: winv_def)
    moreover have "seen_ok lg' row" if "seen_ok ?lg row" for row
      using that c(1,3) c(4) [of "ct_id row"] by (auto simp: seen_ok_def)
    ultimately show ?thesis unfolding e using inv c(2) by (simp add: winv_def)
  qed
qed

text \<open>An update of the request's own row that keeps a hash once there is one.\<close>

lemma own_row:
  assumes "upd_txs P f (ww_ledger w) = (b, lg')" and "\<And>t. ct_id (f t) = ct_id t" and "\<And>t. P t \<Longrightarrow> ct_id t = i"
    and "\<And>t h. find_tx i (ww_ledger w) = Some t \<Longrightarrow> P t \<Longrightarrow> ct_tx_hash t = Some h \<Longrightarrow> h \<noteq> [] \<Longrightarrow> ct_tx_hash (f t) = Some h"
  shows "others_same i w (w\<lparr>ww_ledger := lg'\<rparr>)" and "hash_kept i w (w\<lparr>ww_ledger := lg'\<rparr>)"
    and "find_tx i lg' = map_option (\<lambda>t. if P t then f t else t) (find_tx i (ww_ledger w))"
proof -
  note u = upd_txs_ledger [OF assms(1-3)]
  show "others_same i w (w\<lparr>ww_ledger := lg'\<rparr>)" by (rule others_sameI) (use u in simp_all)
  show "find_tx i lg' = map_option (\<lambda>t. if P t then f t else t) (find_tx i (ww_ledger w))" using u(3) [of i] by simp
  then show "hash_kept i w (w\<lparr>ww_ledger := lg'\<rparr>)"
    using assms(4) by (auto simp: hash_kept_def split: if_splits)
qed

lemma winv_release:
  assumes "winv lands s" and "k < length (ws_reqs s)" and "ws_reqs s ! k = (r, pc)" and "owned pc = Some i"
    and "\<And>row d rf c sent. stage_ok lands pc row d rf c sent \<Longrightarrow> sent = [] \<and> rf + c \<le> d \<and> d \<le> 1"
  shows "winv lands (s\<lparr>ws_world := (ws_world s)\<lparr>ww_ledger := release_claimed_transaction i (ww_ledger (ws_world s))\<rparr>,
      ws_reqs := (ws_reqs s)[k := (r, WDone x)]\<rparr>)"
proof (rule winv_owner [OF assms(1-4)])
  let ?w = "(ws_world s)\<lparr>ww_ledger := release_claimed_transaction i (ww_ledger (ws_world s))\<rparr>"
  show "others_same i (ws_world s) ?w" by (rule others_sameI) (use release_ledger in auto)
  show "hash_kept i (ws_world s) ?w" by (simp add: hash_kept_def release_ledger)
qed (use assms(5) release_ledger(3) [of i i] in \<open>auto intro: over_ok_released\<close>)

lemma winv_reserving:
  assumes inv: "winv lands s" and k: "k < length (ws_reqs s)" "ws_reqs s ! k = (r, WReserving i p)"
    and adm: "admissible lands s (Section k now ans)"
  shows "winv lands (section_exec reg k now ans s)"
proof (cases "reserve_step (wd_user r) (wd_chain r) (wd_token r) (wd_amount r) p (ww_ledger (ws_world s))")
  case (Pair p' lg')
  note rs = reserve_step_rows [OF Pair]
  have o: "owned (WReserving i p) = Some i" by simp
  consider (won) "p' = RDone (Inr True)" | (short) "p' = RDone (Inr False)" | (going) "\<nexists>x. p' = RDone x"
  proof (cases p')
    case (RDone x)
    have "\<not> (\<exists>e. p' = RDone (Inl e))" using adm k Pair by auto
    with RDone obtain b where "p' = RDone (Inr b)" by (cases x) auto
    then show thesis using that(1,2) by (cases b) simp_all
  qed (use that(3) in auto)
  then show ?thesis
  proof cases
    case won
    let ?w = "(ws_world s)\<lparr>ww_ledger := lg', ww_debits := i # ww_debits (ws_world s)\<rparr>"
    have "winv lands (s\<lparr>ws_world := ?w, ws_reqs := (ws_reqs s)[k := (r, WSend i)]\<rparr>)"
      by (rule winv_owner [OF inv k o rows_same(1,2)])
        (use rs rows_same(3) [of ?w "ws_world s" i] in \<open>auto simp: debits_of_def\<close>)
    with k Pair won show ?thesis by simp
  next
    case short
    let ?w = "(ws_world s)\<lparr>ww_ledger := lg'\<rparr>"
    have "winv lands (s\<lparr>ws_world := ?w, ws_reqs := (ws_reqs s)[k := (r, WUnreserve i)]\<rparr>)"
      by (rule winv_owner [OF inv k o rows_same(1,2)]) (use rs rows_same(3) [of ?w "ws_world s" i] in auto)
    with k Pair short show ?thesis by simp
  next
    case going
    let ?w = "(ws_world s)\<lparr>ww_ledger := lg'\<rparr>"
    have "winv lands (s\<lparr>ws_world := ?w, ws_reqs := (ws_reqs s)[k := (r, WReserving i p')]\<rparr>)"
      by (rule winv_owner [OF inv k o rows_same(1,2)]) (use rs rows_same(3) [of ?w "ws_world s" i] in auto)
    with k Pair going show ?thesis by (cases p') auto
  qed
qed

lemma winv_stamp:
  assumes inv: "winv lands s" and k: "k < length (ws_reqs s)" "ws_reqs s ! k = (r, WStamp i h)"
  shows "winv lands (section_exec reg k now ans s)"
proof -
  let ?w = "ws_world s"
  let ?lg = "stamp_pending_tx_hash i h (ww_ledger ?w)"
  have "winv lands (s\<lparr>ws_world := ?w\<lparr>ww_ledger := ?lg\<rparr>, ws_reqs := (ws_reqs s)[k := (r, WBroadcast i h)]\<rparr>)"
  proof (cases "h = []")
    case True
    then have "?w\<lparr>ww_ledger := ?lg\<rparr> = ?w" by (simp add: stamp_pending_tx_hash_def)
    then show ?thesis using True winv_pc [OF inv k, of i "WBroadcast i h"] by simp
  next
    case False
    obtain b where u: "upd_txs (\<lambda>t. ct_id t = i \<and> \<not> truthy (ct_tx_hash t)) (\<lambda>t. t\<lparr>ct_tx_hash := Some h\<rparr>) (ww_ledger ?w) = (b, ?lg)"
      using False by (cases "upd_txs (\<lambda>t. ct_id t = i \<and> \<not> truthy (ct_tx_hash t)) (\<lambda>t. t\<lparr>ct_tx_hash := Some h\<rparr>) (ww_ledger ?w)")
        (simp add: stamp_pending_tx_hash_def)
    note r = own_row [OF u, of i]
    show ?thesis
    proof (rule winv_owner [OF inv k])
      show "others_same i ?w (?w\<lparr>ww_ledger := ?lg\<rparr>)" "hash_kept i ?w (?w\<lparr>ww_ledger := ?lg\<rparr>)"
        by (rule r; simp)+
    next
      assume st: "stage_ok lands (WStamp i h) (find_tx i (ww_ledger ?w)) (debits_of i ?w) (refunds_of i ?w)
        (credits_of i (ws_passes s)) (sent_of i ?w)"
      then obtain t where t: "find_tx i (ww_ledger ?w) = Some t" "ct_status t = TX_PENDING" "ct_tx_hash t = None"
        by (auto simp: unsent_def)
      then have "find_tx i ?lg = Some (t\<lparr>ct_tx_hash := Some h\<rparr>)" using r(3) find_tx_id [OF t(1)] by simp
      with st t False show "life_ok lands (if owned (WBroadcast i h) = Some i then [WBroadcast i h] else [])
        (find_tx i (ww_ledger (?w\<lparr>ww_ledger := ?lg\<rparr>))) (debits_of i (?w\<lparr>ww_ledger := ?lg\<rparr>))
        (refunds_of i (?w\<lparr>ww_ledger := ?lg\<rparr>)) (credits_of i (ws_passes s)) (sent_of i (?w\<lparr>ww_ledger := ?lg\<rparr>))"
        by (auto simp: stamped_def)
    qed simp_all
  qed
  with k show ?thesis by simp
qed

lemma winv_record:
  assumes inv: "winv lands s" and k: "k < length (ws_reqs s)" "ws_reqs s ! k = (r, WRecord i h)"
  shows "winv lands (section_exec reg k now ans s)"
proof -
  let ?w = "ws_world s"
  let ?lg = "snd (record_pending_tx_hash i (Some h) (ww_ledger ?w))"
  let ?P = "\<lambda>t. ct_id t = i \<and> ct_status t = TX_PENDING \<and> ct_tx_hash t = None"
  obtain b lg' where u: "upd_txs ?P (\<lambda>t. t\<lparr>ct_tx_hash := Some h\<rparr>) (ww_ledger ?w) = (b, lg')" by fastforce
  note r = own_row [OF u, of i]
  have "winv lands (s\<lparr>ws_world := ?w\<lparr>ww_ledger := lg'\<rparr>, ws_reqs := (ws_reqs s)[k := (r, WDone Unconfirmed)]\<rparr>)"
  proof (rule winv_owner [OF inv k])
    show "others_same i ?w (?w\<lparr>ww_ledger := lg'\<rparr>)" "hash_kept i ?w (?w\<lparr>ww_ledger := lg'\<rparr>)"
      by (rule r; simp)+
  next
    assume st: "stage_ok lands (WRecord i h) (find_tx i (ww_ledger ?w)) (debits_of i ?w) (refunds_of i ?w)
      (credits_of i (ws_passes s)) (sent_of i ?w)"
    have "find_tx i lg' = find_tx i (ww_ledger ?w)" using r(3) st by (auto simp: stamped_def)
    with st show "life_ok lands (if owned (WDone Unconfirmed) = Some i then [WDone Unconfirmed] else [])
      (find_tx i (ww_ledger (?w\<lparr>ww_ledger := lg'\<rparr>))) (debits_of i (?w\<lparr>ww_ledger := lg'\<rparr>))
      (refunds_of i (?w\<lparr>ww_ledger := lg'\<rparr>)) (credits_of i (ws_passes s)) (sent_of i (?w\<lparr>ww_ledger := lg'\<rparr>))"
      by (auto elim!: stamped_over)
  qed simp_all
  moreover have "h = [] \<Longrightarrow> winv lands (s\<lparr>ws_world := ?w, ws_reqs := (ws_reqs s)[k := (r, WDone Unconfirmed)]\<rparr>)"
    using winv_pc [OF inv k, of i "WDone Unconfirmed"] by (simp add: stamped_def)
  ultimately show ?thesis using k u by (cases "h = []") (simp_all add: record_pending_tx_hash_def)
qed

lemma winv_finalize:
  assumes inv: "winv lands s" and k: "k < length (ws_reqs s)" "ws_reqs s ! k = (r, WFinalize i h)"
  shows "winv lands (section_exec reg k now ans s)"
proof -
  let ?w = "ws_world s" and ?f = "\<lambda>t. t\<lparr>ct_status := TX_COMPLETED, ct_tx_hash := Some h,
      ct_from_address := (if truthy None then None else ct_from_address t), ct_completed_at := Some now\<rparr>"
  let ?pc = "case wd_channel r of Web \<Rightarrow> WDone (Submitted h) | Telegram \<Rightarrow> WReply i h"
  have ids: "ids_ok (ww_ledger ?w)" using inv by (simp add: winv_def)
  obtain b lg' where u: "upd_txs (\<lambda>t. ct_id t = i) ?f (ww_ledger ?w) = (b, lg')" by fastforce
  have f: "finalize_claimed_transaction now i h None (ww_ledger ?w) = lg'" using u by (simp add: finalize_claimed_transaction_def)
  note st = owner_stage(3) [OF inv k, of i, simplified]
  obtain t where t: "find_tx i (ww_ledger ?w) = Some t" "ct_tx_hash t = Some h" "h \<noteq> []"
    "if ct_status t = TX_PENDING then refunds_of i ?w + credits_of i (ws_passes s) = 0
     else refunds_of i ?w + credits_of i (ws_passes s) \<le> 1 \<and> (refunds_of i ?w + credits_of i (ws_passes s) = 1 \<longrightarrow> \<not> lands h)"
    using st by (auto simp: stamped_def)
  have kept: "\<And>t' h'. find_tx i (ww_ledger ?w) = Some t' \<Longrightarrow> ct_tx_hash t' = Some h' \<Longrightarrow> ct_tx_hash (?f t') = Some h'"
    using t by auto
  note l = own_row [OF u, of i, OF _ _ kept]
  have id: "ct_id t = i" using find_tx_id [OF t(1)] by blast
  have l3: "find_tx i lg' = map_option (\<lambda>t. if ct_id t = i then ?f t else t) (find_tx i (ww_ledger ?w))"
    using upd_txs_ledger(3) [OF u, of i i] by simp
  have row: "find_tx i lg' = Some (?f t)" unfolding l3 t(1) option.map if_P [OF id] by (rule refl)
  have stf: "stamped lands h (find_tx i lg') (refunds_of i ?w + credits_of i (ws_passes s))"
  proof -
    have "refunds_of i ?w + credits_of i (ws_passes s) \<le> 1 \<and> (refunds_of i ?w + credits_of i (ws_passes s) = 1 \<longrightarrow> \<not> lands h)"
      using t(4) by (simp split: if_splits)
    then show ?thesis unfolding row stamped_def using t(3) by simp
  qed
  have "winv lands (s\<lparr>ws_world := ?w\<lparr>ww_ledger := lg'\<rparr>, ws_reqs := (ws_reqs s)[k := (r, ?pc)]\<rparr>)"
  proof (rule winv_owner [OF inv k])
    show "others_same i ?w (?w\<lparr>ww_ledger := lg'\<rparr>)" "hash_kept i ?w (?w\<lparr>ww_ledger := lg'\<rparr>)"
      by (rule l; simp)+
  next
    show "life_ok lands (if owned ?pc = Some i then [?pc] else [])
      (find_tx i (ww_ledger (?w\<lparr>ww_ledger := lg'\<rparr>))) (debits_of i (?w\<lparr>ww_ledger := lg'\<rparr>))
      (refunds_of i (?w\<lparr>ww_ledger := lg'\<rparr>)) (credits_of i (ws_passes s)) (sent_of i (?w\<lparr>ww_ledger := lg'\<rparr>))"
      using stf st by (cases "wd_channel r") (auto elim!: stamped_over)
  qed (auto split: channel.splits)
  with k f show ?thesis by simp
qed


lemma winv_broadcast:
  assumes inv: "winv lands s" and k: "k < length (ws_reqs s)" "ws_reqs s ! k = (r, WBroadcast i h)"
  shows "winv lands (section_exec reg k now ans s)"
proof -
  let ?w = "(ws_world s)\<lparr>ww_sent := (i, h) # ww_sent (ws_world s)\<rparr>"
  have "winv lands (s\<lparr>ws_world := ?w, ws_reqs := (ws_reqs s)[k := (r, pc')]\<rparr>)" if "pc' = WFinalize i h \<or> pc' = WRecord i h" for pc'
    by (rule winv_owner [OF inv k _ rows_same(1,2)]) (use that in \<open>auto simp: sent_of_def\<close>)
  moreover have "winv lands (s\<lparr>ws_reqs := (ws_reqs s)[k := (r, WBroadcast i h)]\<rparr>)"
    by (rule winv_pc [OF inv k]) auto
  ultimately show ?thesis using k by (cases ans) simp_all
qed

lemma winv_undo:
  assumes inv: "winv lands s" and k: "k < length (ws_reqs s)" "ws_reqs s ! k = (r, WUndo i e)"
  shows "winv lands (section_exec reg k now ans s)"
proof (cases "update_custodial_balance reg (wd_user r) (wd_chain r) (wd_token r) (wd_amount r) OpAdd (ww_ledger (ws_world s))")
  case (Pair x lg')
  note rs = update_balance_rows [OF Pair]
  show ?thesis
  proof (cases x)
    case (Inl err)
    have "winv lands (s\<lparr>ws_reqs := (ws_reqs s)[k := (r, WDone Raised)]\<rparr>)"
      by (rule winv_pc [OF inv k]) (auto intro: unsent_over)
    with k Pair Inl show ?thesis by simp
  next
    case (Inr y)
    let ?w = "(ws_world s)\<lparr>ww_ledger := lg', ww_refunds := i # ww_refunds (ws_world s)\<rparr>"
    have "winv lands (s\<lparr>ws_world := ?w, ws_reqs := (ws_reqs s)[k := (r, WRelease i e)]\<rparr>)"
      by (rule winv_owner [OF inv k _ rows_same(1,2)])
        (use rs rows_same(3) [of ?w "ws_world s" i] in \<open>auto simp: refunds_of_def\<close>)
    with k Pair Inr show ?thesis by simp
  qed
qed

lemma winv_answered:
  assumes inv: "winv lands s" and adm: "admissible lands s (Section k now ans)" and ans: "answered ans"
  shows "winv lands (section_exec reg k now ans s)"
proof (cases "k < length (ws_reqs s)")
  case True
  obtain r pc where k: "ws_reqs s ! k = (r, pc)" by fastforce
  note kk = True k
  show ?thesis
  proof (cases pc)
    case WClaim
    then show ?thesis using winv_claim [OF inv True] k by simp
  next
    case (WReserving i p)
    then show ?thesis using winv_reserving [OF inv True _ adm] k by blast
  next
    case (WUnreserve i)
    then show ?thesis using winv_release [OF inv True, of r pc i Insufficient] True k by simp
  next
    case (WSend i)
    have "winv lands (s\<lparr>ws_reqs := (ws_reqs s)[k := (r, pc')]\<rparr>)"
      if "pc' = WSend i \<or> (\<exists>h. pc' = WStamp i h \<and> h \<noteq> []) \<or> (\<exists>e. pc' = WUndo i e)" for pc'
      by (rule winv_pc [OF inv True k, of i]) (use WSend that in auto)
    with True k WSend adm show ?thesis by (cases ans) (simp_all add: answered_def)
  next
    case (WStamp i h)
    then show ?thesis using winv_stamp [OF inv True] k by blast
  next
    case (WBroadcast i h)
    then show ?thesis using winv_broadcast [OF inv True] k by blast
  next
    case (WRecord i h)
    then show ?thesis using winv_record [OF inv True] k by blast
  next
    case (WFinalize i h)
    then show ?thesis using winv_finalize [OF inv True] k by blast
  next
    case (WReply i h)
    have "winv lands (s\<lparr>ws_reqs := (ws_reqs s)[k := (r, WDone (Submitted h))]\<rparr>)"
      by (rule winv_pc [OF inv True k, of i]) (use WReply in \<open>auto elim!: stamped_over\<close>)
    with True k WReply adm show ?thesis by (cases ans) (simp_all add: telegram_reply_def)
  next
    case (WUndo i e)
    then show ?thesis using winv_undo [OF inv True] k by blast
  next
    case (WRelease i e)
    then show ?thesis using winv_release [OF inv True, of r pc i "Undone e"] True k by simp
  next
    case (WDone x)
    then show ?thesis using winv_unowned [OF inv True k, of "WDone x"] True k by simp
  qed
qed (use inv in simp)

lemma winv_section:
  assumes inv: "winv lands s" and adm: "admissible lands s (Section k now ans)"
  shows "winv lands (wexec reg (Section k now ans) s)"
proof (cases "answered ans")
  case True
  with winv_answered [OF inv adm True] show ?thesis by (simp only: wexec_answered)
next
  case False
  then obtain e where e: "ans = DbFails e" by (auto simp: answered_def)
  obtain r pc where k: "ws_reqs s ! k = (r, pc)" by fastforce
  show ?thesis
  proof (cases "k < length (ws_reqs s)")
    case True
    with adm e k have "answer_ok r pc (DbFails e)" by auto
    from winv_raised [OF inv True k this] True k e show ?thesis by simp
  qed (use inv in simp)
qed

subsection \<open>The sections of a pass\<close>

lemma winv_row:
  assumes inv: "winv lands s" and k: "k < length (ws_passes s)" and i: "i < lg_next_tx (ww_ledger (ws_world s))"
    and same: "others_same i (ws_world s) w'" and hash: "hash_kept i (ws_world s) w'"
    and cr: "crediting (ws_passes s ! k) = None \<or> crediting (ws_passes s ! k) = Some i" "crediting p' = None \<or> crediting p' = Some i"
    and ld: "set (loaded p') \<subseteq> set (loaded (ws_passes s ! k))"
    and life: "life_ok lands (owners i s) (find_tx i (ww_ledger (ws_world s))) (debits_of i (ws_world s)) (refunds_of i (ws_world s))
          (credits_of i (ws_passes s)) (sent_of i (ws_world s)) \<Longrightarrow>
        life_ok lands (owners i s) (find_tx i (ww_ledger w')) (debits_of i w') (refunds_of i w')
          (credits_of i ((ws_passes s)[k := p'])) (sent_of i w')"
  shows "winv lands (s\<lparr>ws_world := w', ws_passes := (ws_passes s)[k := p']\<rparr>)"
proof -
  let ?s = "s\<lparr>ws_world := w', ws_passes := (ws_passes s)[k := p']\<rparr>"
  let ?n = "lg_next_tx (ww_ledger (ws_world s))"
  have ids: "ids_ok (ww_ledger (ws_world s))" using inv by (simp add: winv_def)
  have n: "lg_next_tx (ww_ledger w') = ?n" and ids': "ids_ok (ww_ledger w')" using same ids by (simp_all add: others_same_def)
  have o: "owners j ?s = owners j s" for j by (simp add: owners_def)
  have "row_life lands i s" using inv i by (simp add: winv_def)
  then have "row_life lands i ?s" using life o by (simp add: row_life_def)
  moreover have "credits_of j ((ws_passes s)[k := p']) = credits_of j (ws_passes s)" if "j \<noteq> i" for j
    using credits_update [OF k, of j p'] cr that by auto
  then have "(row_life lands j ?s = row_life lands j s) \<and> (unused j ?s = unused j s)" if "j \<noteq> i" for j
    using that same o by (simp add: row_life_def unused_def others_same_def)
  ultimately have "if j < ?n then row_life lands j ?s else unused j ?s" for j
    using inv i by (cases "j = i") (auto simp: winv_def)
  moreover have "\<forall>p\<in>set ((ws_passes s)[k := p']). \<forall>row\<in>set (loaded p). seen_ok (ww_ledger w') row"
  proof (intro ballI)
    fix p row
    assume p: "p \<in> set ((ws_passes s)[k := p'])" and row: "row \<in> set (loaded p)"
    have "\<exists>q\<in>set (ws_passes s). row \<in> set (loaded q)"
      using set_update_subset_insert [of "ws_passes s" k p'] p row ld k by (cases "p = p'") (auto intro: nth_mem)
    then have "seen_ok (ww_ledger (ws_world s)) row" using inv by (auto simp: winv_def)
    then show "seen_ok (ww_ledger w') row" by (rule seen_kept [OF same hash])
  qed
  ultimately show ?thesis using ids' n by (simp add: winv_def)
qed

lemma life_cases:
  assumes "life_ok lands pcs row d r c sent"
  obtains (over) "pcs = []" "over_ok lands row d r c sent" | (one) pc where "pcs = [pc]" "stage_ok lands pc row d r c sent"
  using assms by (auto simp: life_ok_def split: list.splits)

text \<open>The stages in which a row with a hash can be.\<close>

lemma stamped_hash: "stamped lands h (Some t) n \<Longrightarrow> ct_tx_hash t = Some h"
  by (auto simp: stamped_def)

lemma stage_stamped:
  assumes "stage_ok lands pc (Some t) d r c sent" and "ct_tx_hash t \<noteq> None"
  shows "\<exists>h. ct_tx_hash t = Some h \<and> stamped lands h (Some t) (r + c) \<and>
    (\<forall>row' r' c'. stamped lands h row' (r' + c') \<longrightarrow> stage_ok lands pc row' d r' c' sent)"
proof -
  have "\<not> unsent (Some t)" using assms(2) by (simp add: unsent_def)
  with assms(1) obtain h where h: "stamped lands h (Some t) (r + c)"
      "\<forall>row' r' c'. stamped lands h row' (r' + c') \<longrightarrow> stage_ok lands pc row' d r' c' sent"
    by (cases pc) (simp_all, blast+)
  with stamped_hash [OF h(1)] show ?thesis by blast
qed

lemma stamped_paid: "stamped lands h row (Suc n) \<Longrightarrow> m = n \<or> m = Suc n \<Longrightarrow> stamped lands h row m"
  unfolding stamped_def by (erule exE) (rule exI, auto split: if_splits)

lemma stamped_settled:
  assumes "stamped lands h (Some t) n" and "ct_status t = TX_PENDING" and "ct_status t' \<noteq> TX_PENDING"
    and "ct_tx_hash t' = ct_tx_hash t" and "m = n \<or> m = Suc n \<and> \<not> lands h"
  shows "stamped lands h (Some t') m"
  using assms by (auto simp: stamped_def)

lemma life_settled:
  assumes life: "life_ok lands pcs (Some t) d r c sent" and t: "ct_status t = TX_PENDING" "ct_tx_hash t = Some h" "h \<noteq> []"
    and t': "ct_status t' \<noteq> TX_PENDING" "ct_tx_hash t' = ct_tx_hash t"
    and n: "c' = c \<or> c' = Suc c \<and> \<not> lands h"
  shows "life_ok lands pcs (Some t') d r c' sent"
  using life
proof (cases rule: life_cases)
  case over
  then have o: "d = 1" "r + c = 0" "sent = [] \<or> sent = [h]" using t by (simp_all add: over_ok_def)
  then have "over_ok lands (Some t') d r c' sent" using t' n by (auto simp: over_ok_def)
  with over show ?thesis by simp
next
  case (one pc)
  from stage_stamped [OF one(2)] t(2) have
    "stamped lands h (Some t) (r + c)" "stamped lands h (Some t') (r + c') \<longrightarrow> stage_ok lands pc (Some t') d r c' sent"
    by auto
  moreover from this(1) have "stamped lands h (Some t') (r + c')"
    by (rule stamped_settled) (use t t' n in auto)
  ultimately show ?thesis using one(1) by simp
qed

lemma life_credited:
  assumes life: "life_ok lands pcs row d r (Suc c) sent" and n: "r' = r \<or> r' = Suc r"
  shows "life_ok lands pcs row d r' c sent"
  using life
proof (cases rule: life_cases)
  case over
  then have "over_ok lands row d r' c sent"
    using n by (auto simp: over_ok_def split: option.splits if_splits)
  with over show ?thesis by simp
next
  case (one pc)
  have "stamped lands h row (Suc (r + c)) \<Longrightarrow> stamped lands h row (r' + c)" for h
    using n by (elim stamped_paid) auto
  then have "stage_ok lands pc row d r' c sent" using one(2) by (cases pc) simp_all
  with one show ?thesis by simp
qed

lemma winv_rest:
  assumes "winv lands s" and "k < length (ws_passes s)" and "ws_passes s ! k = PRows (row # rest)"
  shows "winv lands (s\<lparr>ws_passes := (ws_passes s)[k := PRows rest]\<rparr>)"
proof -
  let ?s = "s\<lparr>ws_passes := (ws_passes s)[k := PRows rest]\<rparr>"
  have c: "credits_of j ((ws_passes s)[k := PRows rest]) = credits_of j (ws_passes s)" for j
    using credits_update [OF assms(2), of j "PRows rest"] assms(3) by simp
  have o: "owners j ?s = owners j s" for j by (simp add: owners_def)
  have e: "row_life lands j ?s = row_life lands j s" "unused j ?s = unused j s" for j
    using c o by (simp_all add: row_life_def unused_def)
  have "\<forall>p\<in>set ((ws_passes s)[k := PRows rest]). \<forall>row\<in>set (loaded p). seen_ok (ww_ledger (ws_world s)) row"
  proof (intro ballI)
    fix p x
    assume p: "p \<in> set ((ws_passes s)[k := PRows rest])" and x: "x \<in> set (loaded p)"
    have "\<exists>q\<in>set (ws_passes s). x \<in> set (loaded q)"
      using set_update_subset_insert [of "ws_passes s" k "PRows rest"] p x assms(2,3) nth_mem [OF assms(2)]
      by (cases "p = PRows rest") (force intro: bexI [of _ "PRows (row # rest)"])+
    then show "seen_ok (ww_ledger (ws_world s)) x" using assms(1) by (auto simp: winv_def)
  qed
  then show ?thesis using assms(1) e by (simp add: winv_def)
qed


text \<open>The compare-and-swap of a pass on the row it looks at.\<close>

lemma cas_row:
  assumes "cas_transaction_status now i TX_PENDING new_status h lg = (b, lg')" and "ids_ok lg"
  shows "b = (\<exists>t. find_tx i lg = Some t \<and> ct_status t = TX_PENDING)"
    and "find_tx i lg = Some t \<Longrightarrow> ct_status t = TX_PENDING \<Longrightarrow>
      \<exists>t'. find_tx i lg' = Some t' \<and> ct_status t' = new_status \<and> ct_tx_hash t' = (if truthy h then h else ct_tx_hash t)"
    and "find_tx i lg = Some t \<Longrightarrow> ct_status t \<noteq> TX_PENDING \<Longrightarrow> find_tx i lg' = Some t"
    and "find_tx i lg = None \<Longrightarrow> find_tx i lg' = None"
proof -
  note u = upd_txs_ledger [OF assms(1) [unfolded cas_transaction_status_def], of i, simplified]
  show "b = (\<exists>t. find_tx i lg = Some t \<and> ct_status t = TX_PENDING)"
    using u(4) [OF assms(2)] find_tx_id [of i lg] by auto
  show "find_tx i lg = Some t \<Longrightarrow> ct_status t = TX_PENDING \<Longrightarrow>
      \<exists>t'. find_tx i lg' = Some t' \<and> ct_status t' = new_status \<and> ct_tx_hash t' = (if truthy h then h else ct_tx_hash t)"
    using u(3) [of i] find_tx_id [of i lg t] by simp
  show "find_tx i lg = Some t \<Longrightarrow> ct_status t \<noteq> TX_PENDING \<Longrightarrow> find_tx i lg' = Some t" "find_tx i lg = None \<Longrightarrow> find_tx i lg' = None"
    using u(3) [of i] by simp_all
qed

lemma cas_world:
  assumes "cas_transaction_status now i TX_PENDING new_status h (ww_ledger w) = (b, lg')" and "ids_ok (ww_ledger w)"
    and "truthy h \<Longrightarrow> \<forall>t. find_tx i (ww_ledger w) = Some t \<longrightarrow> ct_tx_hash t = h"
  shows "others_same i w (w\<lparr>ww_ledger := lg'\<rparr>)" and "hash_kept i w (w\<lparr>ww_ledger := lg'\<rparr>)"
  by (rule own_row [OF assms(1) [unfolded cas_transaction_status_def]]; use assms(3) in auto)+

lemma winv_complete:
  assumes inv: "winv lands s" and k: "k < length (ws_passes s)" "ws_passes s ! k = PRows (row # rest)"
    and h: "ct_tx_hash row = Some h" "h \<noteq> []"
  shows "winv lands (s\<lparr>ws_world := (ws_world s)\<lparr>ww_ledger :=
        snd (cas_transaction_status now (ct_id row) TX_PENDING TX_COMPLETED (Some h) (ww_ledger (ws_world s)))\<rparr>,
      ws_passes := (ws_passes s)[k := PRows rest]\<rparr>)"
proof -
  let ?w = "ws_world s" and ?i = "ct_id row"
  have ids: "ids_ok (ww_ledger ?w)" using inv by (simp add: winv_def)
  have "seen_ok (ww_ledger ?w) row" using inv k nth_mem [OF k(1)] by (force simp: winv_def)
  then have seen: "?i < lg_next_tx (ww_ledger ?w)" "\<forall>t. find_tx ?i (ww_ledger ?w) = Some t \<longrightarrow> ct_tx_hash t = Some h"
    using h by (simp_all add: seen_ok_def)
  obtain b lg' where c: "cas_transaction_status now ?i TX_PENDING TX_COMPLETED (Some h) (ww_ledger ?w) = (b, lg')" by fastforce
  note r = cas_row [OF c ids]
  have cr: "credits_of ?i ((ws_passes s)[k := PRows rest]) = credits_of ?i (ws_passes s)"
    using credits_update [OF k(1), of ?i "PRows rest"] k(2) by simp
  have "winv lands (s\<lparr>ws_world := ?w\<lparr>ww_ledger := lg'\<rparr>, ws_passes := (ws_passes s)[k := PRows rest]\<rparr>)"
  proof (rule winv_row [OF inv k(1) seen(1) cas_world [OF c ids]])
    assume life: "life_ok lands (owners ?i s) (find_tx ?i (ww_ledger ?w)) (debits_of ?i ?w) (refunds_of ?i ?w)
      (credits_of ?i (ws_passes s)) (sent_of ?i ?w)"
    show "life_ok lands (owners ?i s) (find_tx ?i (ww_ledger (?w\<lparr>ww_ledger := lg'\<rparr>))) (debits_of ?i (?w\<lparr>ww_ledger := lg'\<rparr>))
      (refunds_of ?i (?w\<lparr>ww_ledger := lg'\<rparr>)) (credits_of ?i ((ws_passes s)[k := PRows rest])) (sent_of ?i (?w\<lparr>ww_ledger := lg'\<rparr>))"
    proof (cases "find_tx ?i (ww_ledger ?w)")
      case None
      with life r(4) cr show ?thesis by simp
    next
      case (Some t)
      show ?thesis
      proof (cases "ct_status t = TX_PENDING")
        case True
        from r(2) [OF Some True] obtain t' where "find_tx ?i lg' = Some t'" "ct_status t' = TX_COMPLETED" "ct_tx_hash t' = Some h"
          using h by auto
        with life_settled [OF life [unfolded Some] True] seen(2) Some h cr show ?thesis by simp
      next
        case False
        with life r(3) [OF Some] Some cr show ?thesis by simp
      qed
    qed
  qed (use k seen in auto)
  with c show ?thesis by simp
qed

lemma winv_refund:
  assumes inv: "winv lands s" and k: "k < length (ws_passes s)" "ws_passes s ! k = PRows (row # rest)"
    and ok: "if truthy (ct_tx_hash row) then \<not> lands (the (ct_tx_hash row)) else over_without_hash s (ct_id row)"
    and p: "start_refund now row rest (ws_world s) = (p', w')"
  shows "winv lands (s\<lparr>ws_world := w', ws_passes := (ws_passes s)[k := p']\<rparr>)"
proof -
  let ?w = "ws_world s" and ?i = "ct_id row"
  have ids: "ids_ok (ww_ledger ?w)" using inv by (simp add: winv_def)
  have "seen_ok (ww_ledger ?w) row" using inv k nth_mem [OF k(1)] by (force simp: winv_def)
  then have seen: "?i < lg_next_tx (ww_ledger ?w)"
    "truthy (ct_tx_hash row) \<Longrightarrow> \<forall>t. find_tx ?i (ww_ledger ?w) = Some t \<longrightarrow> ct_tx_hash t = ct_tx_hash row"
    by (simp_all add: seen_ok_def)
  obtain b lg' where c: "cas_transaction_status now ?i TX_PENDING TX_FAILED None (ww_ledger ?w) = (b, lg')" by fastforce
  note r = cas_row [OF c ids]
  show ?thesis
  proof (cases b)
    case False
    with p c have "p' = PRows rest" "w' = ?w" by (auto simp: start_refund_def)
    then have "s\<lparr>ws_world := w', ws_passes := (ws_passes s)[k := p']\<rparr> = s\<lparr>ws_passes := (ws_passes s)[k := PRows rest]\<rparr>" by simp
    with winv_rest [OF inv k] show ?thesis by simp
  next
    case True
    with p c have p': "p' = PCredit row rest" "w' = ?w\<lparr>ww_ledger := lg'\<rparr>" by (auto simp: start_refund_def)
    from True r(1) obtain t where t: "find_tx ?i (ww_ledger ?w) = Some t" "ct_status t = TX_PENDING" by auto
    from r(2) [OF t] obtain t' where t': "find_tx ?i lg' = Some t'" "ct_status t' = TX_FAILED" "ct_tx_hash t' = ct_tx_hash t"
      by auto
    have cr: "credits_of ?i ((ws_passes s)[k := PCredit row rest]) = Suc (credits_of ?i (ws_passes s))"
      using credits_update [OF k(1), of ?i "PCredit row rest"] k(2) by simp
    show ?thesis unfolding p'
    proof (rule winv_row [OF inv k(1) seen(1) cas_world [OF c ids]])
      assume life: "life_ok lands (owners ?i s) (find_tx ?i (ww_ledger ?w)) (debits_of ?i ?w) (refunds_of ?i ?w)
        (credits_of ?i (ws_passes s)) (sent_of ?i ?w)"
      have "life_ok lands (owners ?i s) (Some t') (debits_of ?i ?w) (refunds_of ?i ?w) (Suc (credits_of ?i (ws_passes s))) (sent_of ?i ?w)"
      proof (cases "truthy (ct_tx_hash row)")
        case True
        then obtain h where "ct_tx_hash row = Some h" "h \<noteq> []" by (auto dest: truthyD)
        with True seen(2) t ok t' show ?thesis
          by (intro life_settled [OF life [unfolded t(1)] t(2)]) auto
      next
        case False
        with ok t(1) have "owners ?i s = []" "ct_tx_hash t = None" by (simp_all add: over_without_hash_def)
        with life t t' show ?thesis by (simp add: over_ok_def)
      qed
      then show "life_ok lands (owners ?i s) (find_tx ?i (ww_ledger (?w\<lparr>ww_ledger := lg'\<rparr>))) (debits_of ?i (?w\<lparr>ww_ledger := lg'\<rparr>))
        (refunds_of ?i (?w\<lparr>ww_ledger := lg'\<rparr>)) (credits_of ?i ((ws_passes s)[k := PCredit row rest])) (sent_of ?i (?w\<lparr>ww_ledger := lg'\<rparr>))"
        using t'(1) cr by simp
    qed (use k in auto)
  qed
qed


lemma winv_credit:
  assumes inv: "winv lands s" and k: "k < length (ws_passes s)" "ws_passes s ! k = PCredit row rest"
    and p: "pass_step reg now confirmed (PCredit row rest) (ws_world s) = (p', w')"
  shows "winv lands (s\<lparr>ws_world := w', ws_passes := (ws_passes s)[k := p']\<rparr>)"
proof -
  let ?w = "ws_world s" and ?i = "ct_id row"
  have "p' = PRows rest" using p by (auto split: option.splits sum.splits prod.splits)
  have cr: "Suc (credits_of ?i ((ws_passes s)[k := PRows rest])) = credits_of ?i (ws_passes s)"
    using credits_update [OF k(1), of ?i "PRows rest"] k(2) by simp
  then have "\<not> unused ?i s" by (simp add: unused_def)
  then have i: "?i < lg_next_tx (ww_ledger ?w)" using inv unfolding winv_def by (metis (no_types, lifting))
  obtain lg' rf where w': "w' = ?w\<lparr>ww_ledger := lg', ww_refunds := rf\<rparr>" "lg_txs lg' = lg_txs (ww_ledger ?w)"
    "lg_next_tx lg' = lg_next_tx (ww_ledger ?w)" "rf = ww_refunds ?w \<or> rf = ?i # ww_refunds ?w"
    using p update_balance_rows by (auto split: option.splits sum.splits prod.splits) (metis wworld.surjective wworld.update_convs(1,3))+
  note same = rows_same [of w' ?w ?i] w'
  have "refunds_of ?i w' = refunds_of ?i ?w \<or> refunds_of ?i w' = Suc (refunds_of ?i ?w)"
    using w'(1,4) by (auto simp: refunds_of_def)
  show ?thesis unfolding \<open>p' = PRows rest\<close>
  proof (rule winv_row [OF inv k(1) i same(1,2)])
    assume life: "life_ok lands (owners ?i s) (find_tx ?i (ww_ledger ?w)) (debits_of ?i ?w) (refunds_of ?i ?w)
      (credits_of ?i (ws_passes s)) (sent_of ?i ?w)"
    have "debits_of ?i w' = debits_of ?i ?w" "sent_of ?i w' = sent_of ?i ?w" using w'(1) by (simp_all add: debits_of_def sent_of_def)
    with life_credited [OF life [folded cr]] \<open>refunds_of ?i w' = _ \<or> _\<close> same(3) w'
    show "life_ok lands (owners ?i s) (find_tx ?i (ww_ledger w')) (debits_of ?i w') (refunds_of ?i w')
        (credits_of ?i ((ws_passes s)[k := PRows rest])) (sent_of ?i w')" by simp
  qed (use k w' in auto)
qed

lemma resolve_oneE:
  assumes r: "resolve_one now confirmed row rest w = (p', w')"
    and ok: "if truthy (ct_tx_hash row) then confirmed = Some False \<longrightarrow> \<not> lands (the (ct_tx_hash row))
          else never_broadcast_after \<le> now - ct_created_at row \<longrightarrow> over_without_hash s (ct_id row)"
  obtains (settled) h where "ct_tx_hash row = Some h" "h \<noteq> []" "confirmed = Some True"
    | (refund) "start_refund now row rest w = (p', w')"
        "if truthy (ct_tx_hash row) then \<not> lands (the (ct_tx_hash row)) else over_without_hash s (ct_id row)"
    | (wait) "p' = PRows rest" "w' = w"
proof (cases "truthy (ct_tx_hash row)")
  case True
  then obtain h where h: "ct_tx_hash row = Some h" "h \<noteq> []" by (auto dest: truthyD)
  consider "confirmed = None" | "confirmed = Some True" | "confirmed = Some False" by (cases confirmed) auto
  then show thesis
  proof cases
    case 1
    with r True have "p' = PRows rest" "w' = w" by (simp_all add: resolve_one_def)
    then show thesis by (rule that(3))
  next
    case 2
    with h show thesis by (rule that(1))
  next
    case 3
    with r True have "start_refund now row rest w = (p', w')" by (simp add: resolve_one_def)
    then show thesis by (rule that(2)) (use 3 ok True in simp)
  qed
next
  case False
  show thesis
  proof (cases "never_broadcast_after \<le> now - ct_created_at row")
    case True
    with r False have "start_refund now row rest w = (p', w')" by (simp add: resolve_one_def)
    then show thesis by (rule that(2)) (use True ok False in simp)
  next
    case no: False
    with r False have "p' = PRows rest" "w' = w" by (simp_all add: resolve_one_def)
    then show thesis by (rule that(3))
  qed
qed

lemma winv_pass_section:
  assumes inv: "winv lands s" and adm: "admissible lands s (PassSection k now confirmed)"
  shows "winv lands (wexec reg (PassSection k now confirmed) s)"
proof (cases "k < length (ws_passes s)")
  case k: True
  obtain p' w' where p: "pass_step reg now confirmed (ws_passes s ! k) (ws_world s) = (p', w')" by fastforce
  have e: "wexec reg (PassSection k now confirmed) s = s\<lparr>ws_world := w', ws_passes := (ws_passes s)[k := p']\<rparr>"
    using k p by simp
  have stay: "winv lands (s\<lparr>ws_world := w', ws_passes := (ws_passes s)[k := p']\<rparr>)"
    if "w' = ws_world s" "winv lands (s\<lparr>ws_passes := (ws_passes s)[k := p']\<rparr>)"
  proof -
    have "s\<lparr>ws_world := w', ws_passes := (ws_passes s)[k := p']\<rparr> = s\<lparr>ws_passes := (ws_passes s)[k := p']\<rparr>" using that(1) by simp
    with that(2) show ?thesis by simp
  qed
  show ?thesis
  proof (cases "ws_passes s ! k")
    case (PCredit row rest)
    with winv_credit [OF inv k PCredit] p e show ?thesis by simp
  next
    case (PRows rows)
    show ?thesis
    proof (cases rows)
      case Nil
      then have "p' = ws_passes s ! k" "w' = ws_world s" using p PRows by simp_all
      then show ?thesis unfolding e using stay inv by simp
    next
      case (Cons row rest)
      with PRows have kr: "ws_passes s ! k = PRows (row # rest)" by simp
      from p kr have r: "resolve_one now confirmed row rest (ws_world s) = (p', w')" by simp
      have ok: "if truthy (ct_tx_hash row) then confirmed = Some False \<longrightarrow> \<not> lands (the (ct_tx_hash row))
          else never_broadcast_after \<le> now - ct_created_at row \<longrightarrow> over_without_hash s (ct_id row)"
        using adm k kr by simp
      from r ok show ?thesis
      proof (cases rule: resolve_oneE)
        case settled
        then show ?thesis unfolding e using r winv_complete [OF inv k kr settled(1,2)] by (auto simp: resolve_one_def)
      next
        case refund
        show ?thesis unfolding e by (rule winv_refund [OF inv k kr refund(2,1)])
      next
        case wait
        then show ?thesis unfolding e using stay winv_rest [OF inv k kr] by simp
      qed
    qed
  qed
qed (use inv in simp)

lemma winv_same_life:
  assumes "winv lands s" and "ids_ok (ww_ledger (ws_world s'))"
    and "\<And>j. row_life lands j s' = row_life lands j s" and "\<And>j. unused j s' = unused j s"
    and "lg_next_tx (ww_ledger (ws_world s')) = lg_next_tx (ww_ledger (ws_world s))"
    and "\<And>p row. p \<in> set (ws_passes s') \<Longrightarrow> row \<in> set (loaded p) \<Longrightarrow> seen_ok (ww_ledger (ws_world s')) row"
  shows "winv lands s'"
  using assms by (simp add: winv_def)

lemma winv_pass:
  assumes inv: "winv lands s"
  shows "winv lands (wexec reg (Pass now) s)"
proof (rule winv_same_life [OF inv])
  let ?lg = "ww_ledger (ws_world s)"
  have ids: "ids_ok ?lg" using inv by (simp add: winv_def)
  have seen: "seen_ok ?lg row" if "row \<in> set (withdraw_candidates now ?lg)" for row
    using that find_tx_of_mem [OF ids, of row] ids by (auto simp: withdraw_candidates_def seen_ok_def ids_ok_def tx_ids_def)
  show "ids_ok (ww_ledger (ws_world (wexec reg (Pass now) s)))" using ids by simp
  show "row_life lands j (wexec reg (Pass now) s) = row_life lands j s" "unused j (wexec reg (Pass now) s) = unused j s" for j
    by (simp_all add: row_life_def unused_def owners_def credits_of_def)
  show "seen_ok (ww_ledger (ws_world (wexec reg (Pass now) s))) row"
    if "p \<in> set (ws_passes (wexec reg (Pass now) s))" "row \<in> set (loaded p)" for p row
    using that seen inv by (auto simp: winv_def)
qed simp

lemma winv_step:
  assumes inv: "winv lands s" and adm: "admissible lands s e"
  shows "winv lands (wexec reg e s)"
proof (cases e)
  case (Arrive r)
  show ?thesis unfolding Arrive
  proof (rule winv_same_life [OF inv])
    show "row_life lands j (wexec reg (Arrive r) s) = row_life lands j s" "unused j (wexec reg (Arrive r) s) = unused j s" for j
      by (simp_all add: row_life_def unused_def owners_def)
  qed (use inv in \<open>auto simp: winv_def\<close>)
next
  case (Section k now ans)
  with inv adm winv_section show ?thesis by blast
next
  case (Stop k)
  with inv adm winv_stop show ?thesis by blast
next
  case (Pass now)
  with inv winv_pass show ?thesis by blast
next
  case (PassSection k now confirmed)
  with inv adm winv_pass_section show ?thesis by blast
next
  case (OtherBalances bs)
  let ?lg = "(ww_ledger (ws_world s))\<lparr>lg_balances := bs\<rparr>"
  have sr: "ids_ok ?lg = ids_ok (ww_ledger (ws_world s))" "find_tx j ?lg = find_tx j (ww_ledger (ws_world s))" for j
    using same_rows [of ?lg "ww_ledger (ws_world s)"] by simp_all
  show ?thesis unfolding OtherBalances
  proof (rule winv_same_life [OF inv])
    show "row_life lands j (wexec reg (OtherBalances bs) s) = row_life lands j s"
      "unused j (wexec reg (OtherBalances bs) s) = unused j s" for j
      using sr by (simp_all add: row_life_def unused_def owners_def)
    show "seen_ok (ww_ledger (ws_world (wexec reg (OtherBalances bs) s))) row"
      if "p \<in> set (ws_passes (wexec reg (OtherBalances bs) s))" "row \<in> set (loaded p)" for p row
      using that inv sr by (auto simp: winv_def seen_ok_def)
  qed (use inv sr in \<open>simp_all add: winv_def\<close>)
qed

lemma winv_idle:
  assumes "ids_ok lg0" and "\<forall>t\<in>set (lg_txs lg0). ct_status t \<noteq> TX_PENDING"
  shows "winv lands (idle lg0)"
proof -
  have "over_ok lands (find_tx i lg0) 0 0 0 []" for i
    using assms(2) find_tx_id [of i lg0] by (cases "find_tx i lg0") (auto simp: over_ok_def)
  then show ?thesis using assms(1)
    by (simp add: winv_def idle_def row_life_def unused_def owners_def debits_of_def refunds_of_def credits_of_def sent_of_def)
qed

lemma stage_bound:
  assumes "stage_ok lands pc row d r c sent"
  shows "r + length (filter lands sent) \<le> d \<and> d \<le> 1"
proof -
  have "stamped lands h row (r + c) \<Longrightarrow> r + length (filter lands [h]) \<le> 1 \<and> r \<le> 1" for h
    by (auto simp: stamped_def split: if_splits)
  with assms show ?thesis by (cases pc) auto
qed

lemma life_bound:
  assumes "life_ok lands pcs row d r c sent"
  shows "r + length (filter lands sent) \<le> d \<and> d \<le> 1"
  using assms
proof (cases rule: life_cases)
  case over
  then show ?thesis by (auto simp: over_ok_def split: option.splits if_splits)
next
  case (one pc)
  from stage_bound [OF one(2)] show ?thesis .
qed

lemma wrun_inv:
  assumes "wrun reg lands lg0 s" and "ids_ok lg0" and "\<forall>t\<in>set (lg_txs lg0). ct_status t \<noteq> TX_PENDING"
  shows "winv lands s"
  using assms(1) by induction (use winv_idle [OF assms(2,3)] winv_step in blast)+

text \<open>C5: In every schedule of withdrawal requests, reconciler passes, dying workers and database failures that
  meets the conditions of \<open>admissible\<close>, each withdrawal row is debited at most once, and is given back or successfully
  sent on chain at most as often as it was debited: a withdrawal is never refunded twice and never both refunded
  and paid.  The conditions: no death and no database failure between the claim and the debit or between the credit and
  the deletion of an undo; once a Telegram withdrawal is broadcast, its row is finalized and its last message accepted;
  hash-less rows are refunded by age only when their request is over; the reservation does not raise; the signed hash
  is not empty; a failed status on chain is the truth.\<close>

theorem withdrawal_settles_once:
  assumes "wrun reg lands lg0 s" and "ids_ok lg0" and "\<forall>t\<in>set (lg_txs lg0). ct_status t \<noteq> TX_PENDING"
  shows "refunds_of i (ws_world s) + length (filter lands (sent_of i (ws_world s))) \<le> debits_of i (ws_world s) \<and>
    debits_of i (ws_world s) \<le> 1"
proof -
  have "winv lands s" using wrun_inv [OF assms] .
  then have "if i < lg_next_tx (ww_ledger (ws_world s)) then row_life lands i s else unused i s"
    unfolding winv_def by blast
  then have "row_life lands i s \<or> unused i s" by (auto split: if_splits)
  then show ?thesis using life_bound by (auto simp: row_life_def unused_def)
qed

end
