(* ===== verification/WithdrawSchedules.thy ===== *)
theory WithdrawSchedules
  imports WithdrawSystem
begin

text \<open>
  Rounding of the amount, the schedules that the hypotheses of \<open>withdrawal_settles_once\<close>
  exclude and what goes wrong in them, and an admissible schedule.
\<close>

subsection \<open>Quantising\<close>

lemma pow10_neg: "pow10 (- int k) = 1 / 10 ^ k"
  by (simp add: pow10_def)

text \<open>The amount that is debited and sent is the requested one rounded down to the precision of the token.\<close>

theorem quantize_rounds_down:
  assumes "quantize_to_decimals (Dec False c e) k = Inr q"
  shows "dec_exp q = - int k \<and> \<not> dec_neg q \<and> dec_val q \<le> dec_val (Dec False c e) \<and>
    dec_val (Dec False c e) < dec_val q + pow10 (- int k)"
proof (cases "- int k \<le> e")
  case True
  then have q: "q = Dec False (c * 10 ^ nat (e + int k)) (- int k)"
    using assms by (simp add: quantize_to_decimals_def Let_def split: if_splits)
  have "pow10 e = of_nat (10 ^ nat (e + int k)) * pow10 (- int k)"
    using pow10_shift [of "- int k" e] True by simp
  then show ?thesis unfolding q by simp
next
  case False
  let ?d = "10 ^ nat (- int k - e) :: nat"
  have q: "q = Dec False (c div ?d) (- int k)"
    using assms False by (simp add: quantize_to_decimals_def Let_def split: if_splits)
  have s: "pow10 (- int k) = of_nat ?d * pow10 e" using pow10_shift [of e "- int k"] False by simp
  have "c div ?d * ?d \<le> c" "c < (c div ?d + 1) * ?d"
    using dividend_less_times_div [of ?d c] by (simp_all add: algebra_simps)
  then have "(of_nat (c div ?d * ?d) :: rat) \<le> of_nat c" "(of_nat c :: rat) < of_nat ((c div ?d + 1) * ?d)"
    by (simp_all only: of_nat_le_iff of_nat_less_iff)
  then have "of_nat (c div ?d * ?d) * pow10 e \<le> of_nat c * pow10 e" "of_nat c * pow10 e < of_nat ((c div ?d + 1) * ?d) * pow10 e"
    by (simp_all only: mult_right_mono mult_strict_right_mono pow10_nonneg pow10_pos)
  then show ?thesis by (simp add: q s algebra_simps)
qed

theorem quantize_rounds_down_witness:
  "dec_val (Dec False 1234567 (- 6)) \<le> dec_val (Dec False 12345678 (- 7)) \<and>
   dec_val (Dec False 12345678 (- 7)) < dec_val (Dec False 1234567 (- 6)) + pow10 (- 6)"
proof -
  have "quantize_to_decimals (Dec False 12345678 (- 7)) 6 = Inr (Dec False 1234567 (- 6))" by code_simp
  from quantize_rounds_down [OF this] show ?thesis by simp
qed

subsection \<open>Schedules outside the hypotheses\<close>

definition sample_withdrawal :: "channel \<Rightarrow> withdrawal" where
  "sample_withdrawal ch =
     \<lparr>wd_channel = ch, wd_user = 7, wd_chain = ''base'', wd_token = ''USDC'', wd_amount = Dec False 4 0, wd_to = ''0xB'',
      wd_key = ''k''\<rparr>"

abbreviation no_registry :: token_registry where
  "no_registry \<equiv> \<lambda>_ _. None"

text \<open>A pass that comes to a row without hash, old enough and still pending, credits its amount.\<close>

lemma pass_refunds:
  assumes "ids_ok (ww_ledger (ws_world s))" and "j < length (ws_passes s)" and "ws_passes s ! j = PRows (row # rest)"
    and "\<not> truthy (ct_tx_hash row)" and "never_broadcast_after \<le> now - ct_created_at row" and "dec_parse (ct_amount row) = Some a"
    and "find_tx (ct_id row) (ww_ledger (ws_world s)) = Some t" and "ct_status t = TX_PENDING"
    and "update_custodial_balance reg (ct_user_id row) (ct_chain row) (ct_token_symbol row) a OpAdd (ww_ledger (ws_world s)) = (Inr b, lg')"
  shows "\<exists>lg. ws_world (wexecs reg [PassSection j now None, PassSection j now None] s) =
      (ws_world s)\<lparr>ww_ledger := lg, ww_refunds := ct_id row # ww_refunds (ws_world s)\<rparr> \<and> lg_balances lg = lg_balances lg'"
proof -
  let ?w = "ws_world s"
  obtain won lg1 where c: "cas_transaction_status now (ct_id row) TX_PENDING TX_FAILED None (ww_ledger ?w) = (won, lg1)" by fastforce
  have won: "won" using cas_row(1) [OF c assms(1)] assms(7,8) by simp
  have "lg_balances (ww_ledger ?w) = lg_balances lg1"
    using c by (auto simp: cas_transaction_status_def upd_txs_def)
  from update_same [OF assms(9) this] obtain lg2 where
    "update_custodial_balance reg (ct_user_id row) (ct_chain row) (ct_token_symbol row) a OpAdd lg1 = (Inr b, lg2)"
    "lg_balances lg2 = lg_balances lg'" by blast
  with c won assms(2-6) show ?thesis
    by (intro exI [of _ lg2]) (simp add: resolve_one_def start_refund_def)
qed

lemma finalize_balances [simp]: "lg_balances (finalize_claimed_transaction now i h src lg) = lg_balances lg"
  by (simp add: finalize_claimed_transaction_def upd_txs_def)

lemma release_balances [simp]: "lg_balances (release_claimed_transaction i lg) = lg_balances lg"
  by (simp add: release_claimed_transaction_def)

text \<open>C19: A Telegram withdrawal that was broadcast is credited back and its row deleted when finalizing the row
  fails in the database, or when Telegram refuses the final message: for one debit the user has the transfer on
  chain and the amount, and no row is left for the reconciler.\<close>

theorem failed_finish_refunds_sent:
  assumes "wrun reg lands lg0 s" and "ids_ok lg0" and "\<forall>t\<in>set (lg_txs lg0). ct_status t \<noteq> TX_PENDING"
    and "k < length (ws_reqs s)" and "ws_reqs s ! k = (r, WBroadcast i h)" and "wd_channel r = Telegram" and "lands h"
    and "update_custodial_balance reg (wd_user r) (wd_chain r) (wd_token r) (wd_amount r) OpAdd (ww_ledger (ws_world s)) = (Inr b, lg')"
    and "es \<in> {[Section k t2 (DbFails e)], [Section k t2 ReplyOk, Section k t3 (ReplyFails e)]}"
  shows "let w = ws_world (wexecs reg (Section k t1 NodeAccepts # es @ [Section k t4 ReplyOk, Section k t5 ReplyOk]) s)
    in sent_of i w = [h] \<and> debits_of i w = 1 \<and> refunds_of i w = 1 \<and> find_tx i (ww_ledger w) = None \<and>
       lg_balances (ww_ledger w) = lg_balances lg'"
proof -
  let ?w = "ws_world s"
  have "stage_ok lands (WBroadcast i h) (find_tx i (ww_ledger ?w)) (debits_of i ?w) (refunds_of i ?w) (credits_of i (ws_passes s)) (sent_of i ?w)"
    by (rule owner_stage(3) [OF wrun_inv [OF assms(1-3)] assms(4,5)]) simp
  then have st: "debits_of i ?w = 1" "sent_of i ?w = []" "refunds_of i ?w = 0"
    using assms(7) by (auto simp: stamped_def split: if_splits)
  have final: "\<exists>lg. ws_world (wexecs reg (Section k t1 NodeAccepts # es @ [Section k t4 ReplyOk, Section k t5 ReplyOk]) s) =
      ?w\<lparr>ww_ledger := lg, ww_refunds := i # ww_refunds ?w, ww_sent := (i, h) # ww_sent ?w\<rparr> \<and>
      find_tx i lg = None \<and> lg_balances lg = lg_balances lg'"
  proof (cases "es = [Section k t2 (DbFails e)]")
    case True
    with assms(4-6,8) show ?thesis
      by (intro exI [of _ "release_claimed_transaction i lg'"]) (simp add: finalize_failed_def withdraw_step_def release_ledger)
  next
    case False
    then have es: "es = [Section k t2 ReplyOk, Section k t3 (ReplyFails e)]" using assms(9) by simp
    obtain lg2 where u: "update_custodial_balance reg (wd_user r) (wd_chain r) (wd_token r) (wd_amount r) OpAdd
        (finalize_claimed_transaction t2 i h None (ww_ledger ?w)) = (Inr b, lg2)" "lg_balances lg2 = lg_balances lg'"
      using update_same [OF assms(8), of "finalize_claimed_transaction t2 i h None (ww_ledger ?w)"] by auto
    with assms(4-6) show ?thesis unfolding es
      by (intro exI [of _ "release_claimed_transaction i lg2"]) (simp add: telegram_reply_def withdraw_step_def release_ledger)
  qed
  then show ?thesis using st by (auto simp: Let_def sent_of_def debits_of_def refunds_of_def)
qed

text \<open>C20: When the worker dies, or the database fails it, between the credit of an undo and the deletion of the
  row, a pass that has the row in its list credits the same withdrawal a second time: two credits for one debit.\<close>

theorem interrupted_undo_credits_twice:
  assumes "wrun reg lands lg0 s" and "ids_ok lg0" and "\<forall>t\<in>set (lg_txs lg0). ct_status t \<noteq> TX_PENDING"
    and "k < length (ws_reqs s)" and "ws_reqs s ! k = (r, WUndo (ct_id row) e)"
    and "update_custodial_balance reg (wd_user r) (wd_chain r) (wd_token r) (wd_amount r) OpAdd (ww_ledger (ws_world s)) = (Inr b, lg1)"
    and "j < length (ws_passes s)" and "ws_passes s ! j = PRows (row # rest)" and "\<not> truthy (ct_tx_hash row)"
    and "never_broadcast_after \<le> now - ct_created_at row" and "dec_parse (ct_amount row) = Some a"
    and "update_custodial_balance reg (ct_user_id row) (ct_chain row) (ct_token_symbol row) a OpAdd lg1 = (Inr b', lg2)"
    and "fault \<in> {Stop k, Section k t2 (DbFails e')}"
  shows "let w = ws_world (wexecs reg [Section k t1 ReplyOk, fault, PassSection j now None, PassSection j now None] s)
    in refunds_of (ct_id row) w = 2 \<and> debits_of (ct_id row) w = 1 \<and> sent_of (ct_id row) w = [] \<and>
       lg_balances (ww_ledger w) = lg_balances lg2"
proof -
  let ?w = "ws_world s" and ?i = "ct_id row"
  have inv: "winv lands s" using wrun_inv [OF assms(1-3)] .
  have "stage_ok lands (WUndo ?i e) (find_tx ?i (ww_ledger ?w)) (debits_of ?i ?w) (refunds_of ?i ?w) (credits_of ?i (ws_passes s)) (sent_of ?i ?w)"
    by (rule owner_stage(3) [OF inv assms(4,5)]) simp
  then obtain t where t: "find_tx ?i (ww_ledger ?w) = Some t" "ct_status t = TX_PENDING"
    and st: "debits_of ?i ?w = 1" "refunds_of ?i ?w = 0" "sent_of ?i ?w = []" by (auto simp: unsent_def)
  have rows: "ids_ok lg1 = ids_ok (ww_ledger ?w)" "find_tx ?i lg1 = find_tx ?i (ww_ledger ?w)"
    using update_balance_rows [OF assms(6)] same_rows [of lg1 "ww_ledger ?w"] by simp_all
  let ?s = "s\<lparr>ws_world := ?w\<lparr>ww_ledger := lg1, ww_refunds := ?i # ww_refunds ?w\<rparr>, ws_reqs := (ws_reqs s)[k := (r, WDone Raised)]\<rparr>"
  have "wexecs reg [Section k t1 ReplyOk, fault] s = ?s"
    using assms(4-6,13) by (auto simp: withdraw_step_def)
  then have run: "wexecs reg [Section k t1 ReplyOk, fault, PassSection j now None, PassSection j now None] s =
      wexecs reg [PassSection j now None, PassSection j now None] ?s" by simp
  have "ids_ok (ww_ledger (ws_world ?s))" using inv rows by (simp add: winv_def)
  from pass_refunds [OF this _ _ assms(9-11), of j rest t reg b' lg2] assms(7,8,12) t rows
  obtain lg where "ws_world (wexecs reg [PassSection j now None, PassSection j now None] ?s) =
      (ws_world ?s)\<lparr>ww_ledger := lg, ww_refunds := ?i # ww_refunds (ws_world ?s)\<rparr>" "lg_balances lg = lg_balances lg2" by auto
  then show ?thesis unfolding run using st by (simp add: Let_def refunds_of_def debits_of_def sent_of_def del: wexecs.simps)
qed

text \<open>C21: When the worker dies, or the database fails it, between the claim and the debit, a pass that has the
  row in its list credits the amount of a withdrawal that was never debited.\<close>

theorem undebited_claim_is_credited:
  assumes "wrun reg lands lg0 s" and "ids_ok lg0" and "\<forall>t\<in>set (lg_txs lg0). ct_status t \<noteq> TX_PENDING"
    and "k < length (ws_reqs s)" and "ws_reqs s ! k = (r, WReserving (ct_id row) pc)"
    and "j < length (ws_passes s)" and "ws_passes s ! j = PRows (row # rest)" and "\<not> truthy (ct_tx_hash row)"
    and "never_broadcast_after \<le> now - ct_created_at row" and "dec_parse (ct_amount row) = Some a"
    and "update_custodial_balance reg (ct_user_id row) (ct_chain row) (ct_token_symbol row) a OpAdd (ww_ledger (ws_world s)) = (Inr b, lg')"
    and "fault \<in> {Stop k, Section k t2 (DbFails e)}"
  shows "let w = ws_world (wexecs reg [fault, PassSection j now None, PassSection j now None] s)
    in refunds_of (ct_id row) w = 1 \<and> debits_of (ct_id row) w = 0 \<and> lg_balances (ww_ledger w) = lg_balances lg'"
proof -
  let ?w = "ws_world s" and ?i = "ct_id row"
  have inv: "winv lands s" using wrun_inv [OF assms(1-3)] .
  have "stage_ok lands (WReserving ?i pc) (find_tx ?i (ww_ledger ?w)) (debits_of ?i ?w) (refunds_of ?i ?w) (credits_of ?i (ws_passes s)) (sent_of ?i ?w)"
    by (rule owner_stage(3) [OF inv assms(4,5)]) simp
  then obtain t where t: "find_tx ?i (ww_ledger ?w) = Some t" "ct_status t = TX_PENDING"
    and st: "debits_of ?i ?w = 0" "refunds_of ?i ?w = 0" by (auto simp: unsent_def)
  let ?s = "s\<lparr>ws_reqs := (ws_reqs s)[k := (r, WDone Raised)]\<rparr>"
  have "wexec reg fault s = ?s" using assms(4,5,12) by (auto simp: withdraw_step_def)
  then have run: "wexecs reg [fault, PassSection j now None, PassSection j now None] s =
      wexecs reg [PassSection j now None, PassSection j now None] ?s" by simp
  have "ids_ok (ww_ledger (ws_world ?s))" using inv by (simp add: winv_def)
  from pass_refunds [OF this _ _ assms(8-10), of j rest t reg b lg'] assms(6,7,11) t
  obtain lg where "ws_world (wexecs reg [PassSection j now None, PassSection j now None] ?s) =
      (ws_world ?s)\<lparr>ww_ledger := lg, ww_refunds := ?i # ww_refunds (ws_world ?s)\<rparr>" "lg_balances lg = lg_balances lg'" by auto
  then show ?thesis unfolding run using st by (simp add: Let_def refunds_of_def debits_of_def del: wexecs.simps)
qed

text \<open>An admissible schedule: a web withdrawal that the node accepts.\<close>

fun admissibles :: "token_registry \<Rightarrow> (string \<Rightarrow> bool) \<Rightarrow> wevent list \<Rightarrow> wsys \<Rightarrow> bool" where
  "admissibles reg lands [] s = True"
| "admissibles reg lands (e # es) s = (admissible lands s e \<and> admissibles reg lands es (wexec reg e s))"

lemma wrun_list: "wrun reg lands lg0 s \<Longrightarrow> admissibles reg lands es s \<Longrightarrow> wrun reg lands lg0 (wexecs reg es s)"
proof (induction es arbitrary: s)
  case (Cons e es)
  then show ?case using wrun_event [of reg lands lg0 s e] by simp
qed simp

lemma wexecs_append: "wexecs reg (es @ fs) s = wexecs reg fs (wexecs reg es s)"
  by (induction es arbitrary: s) simp_all

lemma sample_start: "ids_ok sample_ledger" "\<forall>t\<in>set (lg_txs sample_ledger). ct_status t \<noteq> TX_PENDING"
  by (simp_all add: sample_ledger_def ids_ok_def tx_ids_def)

definition events_signed :: "wevent list" where
  "events_signed = [Arrive (sample_withdrawal Telegram), Section 0 0 ReplyOk, Section 0 0 ReplyOk, Section 0 0 ReplyOk,
     Section 0 0 (Signed ''0xh''), Section 0 0 ReplyOk]"

definition events_undoing :: "wevent list" where
  "events_undoing = [Arrive (sample_withdrawal Web), Section 0 0 ReplyOk, Section 0 0 ReplyOk, Section 0 0 ReplyOk,
     Section 0 0 (PreFails ''rpc''), Pass 2000]"

definition events_claimed :: "wevent list" where
  "events_claimed = [Arrive (sample_withdrawal Web), Section 0 0 ReplyOk, Pass 2000]"

lemma sample_prefixes:
  "admissibles no_registry (\<lambda>_. True) events_signed (idle sample_ledger)"
  "admissibles no_registry (\<lambda>_. True) events_undoing (idle sample_ledger)"
  "admissibles no_registry (\<lambda>_. True) events_claimed (idle sample_ledger)"
  by code_simp+

definition sample_claim_row :: CustodialTransaction where
  "sample_claim_row =
     \<lparr>ct_id = 1, ct_user_id = 7, ct_tx_type = TX_WITHDRAWAL, ct_status = TX_PENDING, ct_chain = ''base'',
      ct_token_symbol = ''USDC'', ct_token_address = NATIVE_TOKEN_ADDRESS, ct_amount = ''4'', ct_tx_hash = None,
      ct_from_address = None, ct_to_address = Some ''0xB'', ct_gas_sponsored = False, ct_gas_cost = None, ct_notes = None,
      ct_idempotency_key = Some ''k'', ct_created_at = 0, ct_completed_at = None\<rparr>"

definition sample_claimed :: "string \<Rightarrow> CustodialTransaction \<Rightarrow> ledger" where
  "sample_claimed balance row = (set_balance 1 balance sample_ledger)\<lparr>lg_txs := [row], lg_next_tx := 2\<rparr>"

lemma sample_states:
  "wexecs no_registry events_signed (idle sample_ledger) =
     \<lparr>ws_world = \<lparr>ww_ledger = sample_claimed ''6'' (sample_claim_row\<lparr>ct_tx_hash := Some ''0xh''\<rparr>), ww_debits = [1], ww_refunds = [], ww_sent = []\<rparr>,
      ws_reqs = [(sample_withdrawal Telegram, WBroadcast 1 ''0xh'')], ws_passes = []\<rparr>"
  "wexecs no_registry events_undoing (idle sample_ledger) =
     \<lparr>ws_world = \<lparr>ww_ledger = sample_claimed ''6'' sample_claim_row, ww_debits = [1], ww_refunds = [], ww_sent = []\<rparr>,
      ws_reqs = [(sample_withdrawal Web, WUndo 1 ''rpc'')], ws_passes = [PRows [sample_claim_row]]\<rparr>"
  "wexecs no_registry events_claimed (idle sample_ledger) =
     \<lparr>ws_world = \<lparr>ww_ledger = sample_claimed ''10'' sample_claim_row, ww_debits = [], ww_refunds = [], ww_sent = []\<rparr>,
      ws_reqs = [(sample_withdrawal Web, WReserving 1 (RTry 5))], ws_passes = [PRows [sample_claim_row]]\<rparr>"
  by code_simp+

lemma sample_credits:
  "update_custodial_balance no_registry 7 ''base'' ''USDC'' (Dec False 4 0) OpAdd (sample_claimed ''6'' row) = (Inr (Dec False 10 0), sample_claimed ''10'' row)"
  "update_custodial_balance no_registry 7 ''base'' ''USDC'' (Dec False 4 0) OpAdd (sample_claimed ''10'' row) = (Inr (Dec False 14 0), sample_claimed ''14'' row)"
proof -
  have "update_custodial_balance no_registry 7 ''base'' ''USDC'' (Dec False 4 0) OpAdd (set_balance 1 ''6'' sample_ledger) = (Inr (Dec False 10 0), set_balance 1 ''10'' sample_ledger)"
    "update_custodial_balance no_registry 7 ''base'' ''USDC'' (Dec False 4 0) OpAdd (set_balance 1 ''10'' sample_ledger) = (Inr (Dec False 14 0), set_balance 1 ''14'' sample_ledger)"
    by code_simp+
  then show "update_custodial_balance no_registry 7 ''base'' ''USDC'' (Dec False 4 0) OpAdd (sample_claimed ''6'' row) = (Inr (Dec False 10 0), sample_claimed ''10'' row)"
    "update_custodial_balance no_registry 7 ''base'' ''USDC'' (Dec False 4 0) OpAdd (sample_claimed ''10'' row) = (Inr (Dec False 14 0), sample_claimed ''14'' row)"
    unfolding sample_claimed_def
    by (auto simp: update_custodial_balance_def apply_custodial_balance_def open_balance_def find_balance_def Let_def bindE_eq_Inr
        set_balance_def sample_ledger_def same_account_def split: sum.splits prod.splits option.splits dest!: arg_cong [where f = lg_balances])
qed

lemma sample_parse: "dec_parse (ct_amount sample_claim_row) = Some (Dec False 4 0)"
  by code_simp

lemma sample_claim_row_fields [simp]:
  "ct_id sample_claim_row = 1" "ct_user_id sample_claim_row = 7" "ct_chain sample_claim_row = ''base''" "ct_token_symbol sample_claim_row = ''USDC''"
  "ct_tx_hash sample_claim_row = None" "ct_created_at sample_claim_row = 0"
  by (simp_all add: sample_claim_row_def)

lemma sample_withdrawal_fields [simp]:
  "wd_channel (sample_withdrawal ch) = ch" "wd_user (sample_withdrawal ch) = 7" "wd_chain (sample_withdrawal ch) = ''base''"
  "wd_token (sample_withdrawal ch) = ''USDC''" "wd_amount (sample_withdrawal ch) = Dec False 4 0"
  by (simp_all add: sample_withdrawal_def)

lemma sample_claimed_balances: "map cb_balance (lg_balances (sample_claimed balance row)) = [balance]"
  by (simp add: sample_claimed_def set_balance_def sample_ledger_def)

theorem failed_finish_refunds_sent_witness:
  "let w = ws_world (wexecs no_registry (events_signed @ [Section 0 0 NodeAccepts, Section 0 0 (DbFails ''down''), Section 0 0 ReplyOk, Section 0 0 ReplyOk])
       (idle sample_ledger))
   in sent_of 1 w = [''0xh''] \<and> debits_of 1 w = 1 \<and> refunds_of 1 w = 1 \<and> find_tx 1 (ww_ledger w) = None \<and>
      map cb_balance (lg_balances (ww_ledger w)) = [''10'']"
proof -
  let ?s = "wexecs no_registry events_signed (idle sample_ledger)"
  have run: "wrun no_registry (\<lambda>_. True) sample_ledger ?s" by (rule wrun_list [OF wrun_idle sample_prefixes(1)])
  note w = failed_finish_refunds_sent [OF run sample_start, of 0 "sample_withdrawal Telegram" 1 "''0xh''" "Dec False 10 0"
      "sample_claimed ''10'' (sample_claim_row\<lparr>ct_tx_hash := Some ''0xh''\<rparr>)" "[Section 0 0 (DbFails ''down'')]" 0 "''down''" 0 0 0 0]
  show ?thesis
    using w by (simp add: wexecs_append sample_states sample_credits Let_def sample_claimed_balances del: wexecs.simps)
qed

theorem interrupted_undo_credits_twice_witness:
  "let w = ws_world (wexecs no_registry (events_undoing @ [Section 0 0 ReplyOk, Stop 0, PassSection 0 2000 None, PassSection 0 2000 None])
       (idle sample_ledger))
   in refunds_of 1 w = 2 \<and> debits_of 1 w = 1 \<and> sent_of 1 w = [] \<and> map cb_balance (lg_balances (ww_ledger w)) = [''14'']"
proof -
  let ?s = "wexecs no_registry events_undoing (idle sample_ledger)"
  have run: "wrun no_registry (\<lambda>_. True) sample_ledger ?s" by (rule wrun_list [OF wrun_idle sample_prefixes(2)])
  note w = interrupted_undo_credits_twice [OF run sample_start, of 0 "sample_withdrawal Web" sample_claim_row "''rpc''" "Dec False 10 0"
      "sample_claimed ''10'' sample_claim_row" 0 "[]" 2000 "Dec False 4 0" "Dec False 14 0" "sample_claimed ''14'' sample_claim_row" "Stop 0" 0 "''''" 0]
  show ?thesis
    using w by (simp add: wexecs_append sample_states sample_credits sample_parse never_broadcast_after_def Let_def sample_claimed_balances del: wexecs.simps)
qed

theorem undebited_claim_is_credited_witness:
  "let w = ws_world (wexecs no_registry (events_claimed @ [Stop 0, PassSection 0 2000 None, PassSection 0 2000 None]) (idle sample_ledger))
   in refunds_of 1 w = 1 \<and> debits_of 1 w = 0 \<and> map cb_balance (lg_balances (ww_ledger w)) = [''14'']"
proof -
  let ?s = "wexecs no_registry events_claimed (idle sample_ledger)"
  have run: "wrun no_registry (\<lambda>_. True) sample_ledger ?s" by (rule wrun_list [OF wrun_idle sample_prefixes(3)])
  note w = undebited_claim_is_credited [OF run sample_start, of 0 "sample_withdrawal Web" sample_claim_row "RTry 5" 0 "[]" 2000 "Dec False 4 0"
      "Dec False 14 0" "sample_claimed ''14'' sample_claim_row" "Stop 0" 0 "''''"]
  show ?thesis
    using w by (simp add: wexecs_append sample_states sample_credits sample_parse never_broadcast_after_def Let_def sample_claimed_balances del: wexecs.simps)
qed

lemma sample_admissible:
  "admissibles no_registry (\<lambda>_. True) [Arrive (sample_withdrawal Web), Section 0 0 ReplyOk, Section 0 0 ReplyOk, Section 0 0 ReplyOk,
     Section 0 0 (Signed ''0xh''), Section 0 0 ReplyOk, Section 0 0 NodeThrows, Section 0 0 ReplyOk, Pass 2000,
     PassSection 0 2000 (Some True)] (idle sample_ledger)"
  by code_simp

theorem withdrawal_settles_once_witness:
  "let s = wexecs no_registry [Arrive (sample_withdrawal Web), Section 0 0 ReplyOk, Section 0 0 ReplyOk, Section 0 0 ReplyOk,
       Section 0 0 (Signed ''0xh''), Section 0 0 ReplyOk, Section 0 0 NodeThrows, Section 0 0 ReplyOk, Pass 2000,
       PassSection 0 2000 (Some True)] (idle sample_ledger)
   in refunds_of 1 (ws_world s) + length (filter (\<lambda>_. True) (sent_of 1 (ws_world s))) \<le> debits_of 1 (ws_world s) \<and>
      debits_of 1 (ws_world s) \<le> 1"
proof -
  have "ids_ok sample_ledger" "\<forall>t\<in>set (lg_txs sample_ledger). ct_status t \<noteq> TX_PENDING"
    by (simp_all add: sample_ledger_def ids_ok_def tx_ids_def)
  from withdrawal_settles_once [OF wrun_list [OF wrun_idle sample_admissible] this, of 1]
  show ?thesis unfolding Let_def .
qed

end
