(* ===== verification/Deposits.thy ===== *)
theory Deposits
  imports Withdrawals Merkle "HOL-Library.AList"
begin

text \<open>
  Custodial deposits: \<open>bot/services/deposit_watcher.py\<close> with the token lookups of
  \<open>bot/config/tokens.py\<close> and the address list of \<open>hot_wallet.py\<close>.  A pass over a chain is a
  sequence of sections, each one session or one call of the node; passes of several
  processes, and the other users of the ledger, interleave.  The contents of the table \<open>TOKENS\<close>,
  the node and the database's answers are parameters; instants are seconds.
\<close>

subsection \<open>Token lookups\<close>

record TokenConfig =
  tk_symbol :: string
  tk_decimals :: nat
  tk_addresses :: "string \<Rightarrow> string option"

type_synonym token_configs = "string \<Rightarrow> TokenConfig option"

definition PER_CHAIN_DECIMALS :: "((string \<times> string) \<times> nat) list" where
  "PER_CHAIN_DECIMALS =
     [((''USDC'', ''bsc''), 18), ((''USDT'', ''bsc''), 18), ((''USDT'', ''rootstock''), 6),
      ((''BTC'', ''ethereum''), 8), ((''BTC'', ''base''), 8), ((''BTC'', ''solana''), 8),
      ((''BTC'', ''arbitrum''), 18), ((''BTC'', ''optimism''), 18), ((''BTC'', ''polygon''), 18),
      ((''BTC'', ''bsc''), 18), ((''BTC'', ''goat''), 18), ((''BTC'', ''citrea''), 18),
      ((''WBTC'', ''bsc''), 18), ((''ETH'', ''solana''), 8), ((''WETH'', ''solana''), 8)]"

definition chain_decimals :: "string \<Rightarrow> string \<Rightarrow> nat \<Rightarrow> nat" where
  "chain_decimals symbol chain_name base =
     (case map_of PER_CHAIN_DECIMALS (upper symbol, lower chain_name) of Some d \<Rightarrow> d | None \<Rightarrow> base)"

definition get_token_address :: "token_configs \<Rightarrow> string \<Rightarrow> string \<Rightarrow> string option" where
  "get_token_address TOKENS symbol chain_name =
     (if symbol = [] then None
      else if take 2 symbol \<in> {''0x'', ''0X''} \<and> 42 \<le> length symbol then Some symbol
      else case TOKENS (upper symbol) of
        Some token \<Rightarrow> tk_addresses token (lower chain_name)
      | None \<Rightarrow> if 32 \<le> length symbol then Some symbol else None)"

definition get_token_decimals :: "token_configs \<Rightarrow> string \<Rightarrow> string \<Rightarrow> nat" where
  "get_token_decimals TOKENS symbol chain_name =
     (case TOKENS (upper symbol) of
        None \<Rightarrow> 18
      | Some token \<Rightarrow>
          let sym = upper symbol; ch = lower chain_name
          in if ch = ''goat'' \<and> sym \<in> {''USDT'', ''USDC''} then 6
             else if ch = ''goat'' \<and> sym \<in> {''WGBTC'', ''WETH''} then 18
             else if ch = ''citrea'' \<and> sym \<in> {''USDT'', ''USDC'', ''CTUSD''} then 6
             else if ch = ''citrea'' \<and> sym = ''WCBTC'' then 18
             else if ch = ''citrea'' \<and> sym = ''WBTC'' then 8
             else chain_decimals symbol chain_name (tk_decimals token))"

subsection \<open>Settings\<close>

definition TRANSFER_TOPIC0 :: string where
  "TRANSFER_TOPIC0 = ''0xddf252ad1be2c89b69c2b068fc378daa952ba7f163c4a11628f55a4df523b3ef''"

definition CONFIRMATIONS :: "(string \<times> int) list" where
  "CONFIRMATIONS = [(''ethereum'', 12), (''bsc'', 15), (''polygon'', 128), (''arbitrum'', 20), (''optimism'', 20), (''base'', 20)]"

definition ALLOWLIST :: "(string \<times> string list) list" where
  "ALLOWLIST =
     [(''ethereum'', [''USDC'', ''USDT'']), (''bsc'', [''USDC'', ''USDT'']), (''polygon'', [''USDC'', ''USDT'']),
      (''arbitrum'', [''USDC'', ''USDT'']), (''optimism'', [''USDC'', ''USDT'']), (''base'', [''USDC''])]"

definition MIN_DEPOSIT :: "(string \<times> dec) list" where
  "MIN_DEPOSIT = [(''USDC'', Dec False 1 0), (''USDT'', Dec False 1 0)]"

definition MAX_BLOCK_RANGE :: int where "MAX_BLOCK_RANGE = 2000"

definition ADDRESS_CHUNK :: nat where "ADDRESS_CHUNK = 100"

definition COLD_START_LOOKBACK :: int where "COLD_START_LOOKBACK = 500"

subsection \<open>Topics and numbers of a log\<close>

text \<open>\<open>s.replace("0x", "")\<close>.\<close>

fun replace_0x :: "string \<Rightarrow> string" where
  "replace_0x (a # b # r) = (if a = CHR ''0'' \<and> b = CHR ''x'' then replace_0x r else a # replace_0x (b # r))"
| "replace_0x s = s"

text \<open>A field of a log is raw bytes or already a text.\<close>

datatype rpc_value = RpcBytes bytes | RpcText string

fun value_text :: "rpc_value \<Rightarrow> string" where
  "value_text (RpcBytes b) = hex b"
| "value_text (RpcText s) = s"

definition topic_for_address :: "string \<Rightarrow> string" where
  "topic_for_address address =
     (let s = replace_0x (lower address) in ''0x'' @ replicate (64 - length s) (CHR ''0'') @ s)"

definition address_from_topic :: "rpc_value \<Rightarrow> string" where
  "address_from_topic topic =
     (let raw = replace_0x (value_text topic) in ''0x'' @ drop (length raw - 40) raw)"

text \<open>\<open>int(s, 16)\<close>, on the texts that \<open>int16_ok\<close> accepts.\<close>

definition hex_char_value :: "char \<Rightarrow> nat" where
  "hex_char_value c = (if is_digit c then char_digit c else of_char (lower_char c) - 87)"

definition int16_value :: "string \<Rightarrow> int option" where
  "int16_value s =
     (if \<not> int16_ok s then None
      else let t = strip s;
               u = (case t of c # r \<Rightarrow> if c = CHR ''+'' \<or> c = CHR ''-'' then r else t | [] \<Rightarrow> t);
               d = (if take 2 u \<in> {''0x'', ''0X''} then drop 2 u else u);
               v = int (foldl (\<lambda>n c. if c = CHR ''_'' then n else 16 * n + hex_char_value c) 0 d)
           in Some (if take 1 t = ''-'' then - v else v))"

text \<open>\<open>Decimal(value) / (Decimal(10) ** decimals)\<close>.\<close>

definition dec_of_int :: "int \<Rightarrow> dec" where
  "dec_of_int v = Dec (v < 0) (nat \<bar>v\<bar>) 0"

definition deposit_amount :: "int \<Rightarrow> nat \<Rightarrow> dec_signal + dec" where
  "deposit_amount v decimals = bindE (dec_fix False (10 ^ decimals) 0) (\<lambda>unit. dec_div (dec_of_int v) unit)"

subsection \<open>Booking\<close>

record chain_log =
  cl_address :: string
  cl_topics :: "rpc_value list"
  cl_data :: rpc_value
  cl_tx :: rpc_value
  cl_index :: int
  cl_block :: int

record deposit =
  dp_user :: int
  dp_chain :: string
  dp_symbol :: string
  dp_token_address :: string
  dp_amount :: dec
  dp_tx :: string
  dp_index :: int
  dp_block :: int
  dp_from :: string
  dp_to :: string

definition deposit_key :: "string \<Rightarrow> string \<Rightarrow> int \<Rightarrow> string" where
  "deposit_key chain tx_hash log_index = ''deposit:'' @ chain @ '':'' @ tx_hash @ '':'' @ int_str log_index"

definition deposit_id :: "deposit \<Rightarrow> int \<times> string" where
  "deposit_id d = (dp_user d, deposit_key (dp_chain d) (dp_tx d) (dp_index d))"

definition deposit_row :: "int \<Rightarrow> deposit \<Rightarrow> CustodialTransaction" where
  "deposit_row now d =
     \<lparr>ct_id = 0, ct_user_id = dp_user d, ct_tx_type = TX_DEPOSIT, ct_status = TX_COMPLETED, ct_chain = dp_chain d,
      ct_token_symbol = dp_symbol d, ct_token_address = dp_token_address d, ct_amount = dec_str (dp_amount d),
      ct_tx_hash = Some (dp_tx d), ct_from_address = Some (dp_from d), ct_to_address = Some (dp_to d),
      ct_gas_sponsored = False, ct_gas_cost = None,
      ct_notes = Some (''block '' @ int_str (dp_block d) @ '', log '' @ int_str (dp_index d)),
      ct_idempotency_key = Some (snd (deposit_id d)), ct_created_at = now, ct_completed_at = Some now\<rparr>"

text \<open>
  The database may refuse a session, or commit it and lose the reply.  \<open>_credit\<close> turns every
  error into \<open>False\<close>.  Its transaction has two sections.  \<open>begin_credit\<close> flushes the row, which
  a committed row with the same key refuses, and reads the balance; \<open>finish_credit\<close> writes
  the balance and commits both, or neither when the key was taken meanwhile.
\<close>

datatype db_answer = DbOk | DbFailed | DbReplyLost

definition begin_credit :: "int \<Rightarrow> db_answer \<Rightarrow> deposit \<Rightarrow> ledger \<Rightarrow> pending_move option" where
  "begin_credit now db d lg =
     (if db \<noteq> DbOk then None
      else case insert_tx (deposit_row now d) lg of
        Inl _ \<Rightarrow> None
      | Inr _ \<Rightarrow>
          (case read_move (dp_user d) (dp_chain d) (dp_symbol d) (dp_amount d) OpAdd lg of Inl _ \<Rightarrow> None | Inr m \<Rightarrow> Some m))"

definition finish_credit :: "token_configs \<Rightarrow> int \<Rightarrow> db_answer \<Rightarrow> deposit \<Rightarrow> pending_move \<Rightarrow> ledger \<Rightarrow> bool \<times> ledger" where
  "finish_credit TOKENS now db d m lg =
     (if db = DbFailed then (False, lg)
      else case insert_tx (deposit_row now d) lg of
        Inl _ \<Rightarrow> (False, lg)
      | Inr (i, lg') \<Rightarrow> (db = DbOk, write_move (get_token_address TOKENS) m lg'))"

subsection \<open>One log\<close>

datatype scan_error = TopicMissing | NotHexadecimal string | AmountSignal dec_signal | NodeFailed | DatabaseFailed

text \<open>The deposit that a log stands for; \<open>None\<close> where \<open>_handle_log\<close> returns \<open>False\<close>.\<close>

definition read_deposit ::
  "token_configs \<Rightarrow> string \<Rightarrow> (string \<times> string) list \<Rightarrow> (string \<times> int) list \<Rightarrow> chain_log \<Rightarrow> scan_error + deposit option" where
  "read_deposit TOKENS chain tokens by_address ev =
     (let token_addr = lower (cl_address ev)
      in (case map_of tokens token_addr of
            None \<Rightarrow> Inr None
          | Some symbol \<Rightarrow>
              if length (cl_topics ev) < 3 then Inl TopicMissing
              else
                (let to_address = lower (address_from_topic (cl_topics ev ! 2));
                     digits = replace_0x (value_text (cl_data ev))
                 in (case map_of by_address to_address of
                       None \<Rightarrow> Inr None
                     | Some user_id \<Rightarrow>
                         (case int16_value (if digits = [] then ''0'' else digits) of
                            None \<Rightarrow> Inl (NotHexadecimal digits)
                          | Some v \<Rightarrow>
                              bindE (mapErr AmountSignal (deposit_amount v (get_token_decimals TOKENS symbol chain))) (\<lambda>amount.
                              bindE (case map_of MIN_DEPOSIT symbol of
                                       None \<Rightarrow> Inr False
                                     | Some minimum \<Rightarrow> mapErr AmountSignal (dec_less amount minimum)) (\<lambda>dust.
                                if dust then Inr None
                                else Inr (Some \<lparr>dp_user = user_id, dp_chain = chain, dp_symbol = symbol,
                                       dp_token_address = token_addr, dp_amount = amount, dp_tx = value_text (cl_tx ev),
                                       dp_index = cl_index ev, dp_block = cl_block ev,
                                       dp_from = address_from_topic (cl_topics ev ! 1), dp_to = to_address\<rparr>))))))))"

subsection \<open>Wallets and cursors\<close>

record DepositWallet =
  dh_deposit_user_id :: "int option"
  dh_chain_type :: string
  dh_address :: string
  dh_is_active :: bool

record deposit_world =
  dw_ledger :: ledger
  dw_cursors :: "string \<Rightarrow> int option"
  dw_wallets :: "DepositWallet list"

definition list_user_deposit_wallets :: "string \<Rightarrow> DepositWallet list \<Rightarrow> (int \<times> string) list" where
  "list_user_deposit_wallets chain_type wallets =
     [(the (dh_deposit_user_id w), dh_address w). w \<leftarrow> wallets,
       dh_deposit_user_id w \<noteq> None \<and> dh_chain_type w = chain_type \<and> dh_is_active w \<and> dh_address w \<noteq> []]"

definition set_cursor :: "string \<Rightarrow> int \<Rightarrow> deposit_world \<Rightarrow> deposit_world" where
  "set_cursor chain block w = w\<lparr>dw_cursors := (dw_cursors w)(chain \<mapsto> block)\<rparr>"

definition token_map :: "token_configs \<Rightarrow> string \<Rightarrow> (string \<times> string) list" where
  "token_map TOKENS chain =
     fold (\<lambda>symbol out. case get_token_address TOKENS symbol chain of
              None \<Rightarrow> out
            | Some addr \<Rightarrow> if addr = [] then out else AList.update (lower addr) symbol out)
       (case map_of ALLOWLIST chain of None \<Rightarrow> [] | Some symbols \<Rightarrow> symbols) []"

definition addresses_by_user :: "(int \<times> string) list \<Rightarrow> (string \<times> int) list" where
  "addresses_by_user watched = fold (\<lambda>(uid, addr). AList.update (lower addr) uid) watched []"

definition confirmations :: "string \<Rightarrow> int" where
  "confirmations chain = (case map_of CONFIRMATIONS chain of None \<Rightarrow> 12 | Some n \<Rightarrow> n)"

definition first_cursor :: "int option \<Rightarrow> int \<Rightarrow> int" where
  "first_cursor stored safe_head = (case stored of None \<Rightarrow> max 0 (safe_head - COLD_START_LOOKBACK) | Some c \<Rightarrow> c)"

subsection \<open>A pass over a chain\<close>

text \<open>What a section is answered: the time, the head block, the logs of a range and the database.\<close>

record scan_env =
  se_now :: int
  se_head :: "int option"
  se_logs :: "int \<Rightarrow> int \<Rightarrow> string list \<Rightarrow> chain_log list option"
  se_db :: db_answer

datatype scan_pc =
    ScanStart
  | ScanHead "(string \<times> int) list" "(string \<times> string) list"
  | ScanCursor "(string \<times> int) list" "(string \<times> string) list" int
  | ScanChunks int int "(string \<times> int) list" "(string \<times> string) list" "string list" nat
  | ScanLogs int int "(string \<times> int) list" "(string \<times> string) list" "string list" "chain_log list" nat
  | ScanBook int int "(string \<times> int) list" "(string \<times> string) list" "string list" "chain_log list" nat deposit pending_move
  | ScanDone "scan_error + nat"

fun scan_step :: "token_configs \<Rightarrow> string \<Rightarrow> scan_env \<Rightarrow> scan_pc \<Rightarrow> deposit_world \<Rightarrow> scan_pc \<times> deposit_world" where
  "scan_step TOKENS chain env ScanStart w =
     (if se_db env \<noteq> DbOk then (ScanDone (Inl DatabaseFailed), w)
      else let watched = list_user_deposit_wallets ''evm'' (dw_wallets w);
               tokens = token_map TOKENS chain
           in if watched = [] \<or> tokens = [] then (ScanDone (Inr 0), w)
              else (ScanHead (addresses_by_user watched) tokens, w))"
| "scan_step TOKENS chain env (ScanHead by_address tokens) w =
     (case se_head env of
        None \<Rightarrow> (ScanDone (Inl NodeFailed), w)
      | Some head \<Rightarrow>
          let safe_head = head - confirmations chain
          in if safe_head \<le> 0 then (ScanDone (Inr 0), w) else (ScanCursor by_address tokens safe_head, w))"
| "scan_step TOKENS chain env (ScanCursor by_address tokens safe_head) w =
     (if se_db env \<noteq> DbOk then (ScanDone (Inl DatabaseFailed), w)
      else let cursor = first_cursor (dw_cursors w chain) safe_head
           in if safe_head \<le> cursor then (ScanDone (Inr 0), w)
              else (ScanChunks (cursor + 1) (min safe_head (cursor + MAX_BLOCK_RANGE)) by_address tokens (map fst by_address) 0, w))"
| "scan_step TOKENS chain env (ScanChunks from_block to_block by_address tokens addresses credited) w =
     (if addresses = [] then
        (case se_db env of
           DbOk \<Rightarrow> (ScanDone (Inr credited), set_cursor chain to_block w)
         | DbReplyLost \<Rightarrow> (ScanDone (Inl DatabaseFailed), set_cursor chain to_block w)
         | DbFailed \<Rightarrow> (ScanDone (Inl DatabaseFailed), w))
      else case se_logs env from_block to_block (map topic_for_address (take ADDRESS_CHUNK addresses)) of
             None \<Rightarrow> (ScanDone (Inr credited), w)
           | Some logs \<Rightarrow>
               (ScanLogs from_block to_block by_address tokens (drop ADDRESS_CHUNK addresses) logs credited, w))"
| "scan_step TOKENS chain env (ScanLogs from_block to_block by_address tokens addresses [] credited) w =
     (ScanChunks from_block to_block by_address tokens addresses credited, w)"
| "scan_step TOKENS chain env (ScanLogs from_block to_block by_address tokens addresses (ev # logs) credited) w =
     (case read_deposit TOKENS chain tokens by_address ev of
        Inl e \<Rightarrow> (ScanDone (Inl e), w)
      | Inr None \<Rightarrow> (ScanLogs from_block to_block by_address tokens addresses logs credited, w)
      | Inr (Some d) \<Rightarrow>
          (case begin_credit (se_now env) (se_db env) d (dw_ledger w) of
             None \<Rightarrow> (ScanLogs from_block to_block by_address tokens addresses logs credited, w)
           | Some m \<Rightarrow> (ScanBook from_block to_block by_address tokens addresses logs credited d m, w)))"
| "scan_step TOKENS chain env (ScanBook from_block to_block by_address tokens addresses logs credited d m) w =
     (case finish_credit TOKENS (se_now env) (se_db env) d m (dw_ledger w) of
        (ok, lg) \<Rightarrow>
          (ScanLogs from_block to_block by_address tokens addresses logs (if ok then credited + 1 else credited),
           w\<lparr>dw_ledger := lg\<rparr>))"
| "scan_step TOKENS chain env (ScanDone r) w = (ScanDone r, w)"

text \<open>An undisturbed pass; a loop that does not end would be \<open>None\<close>.\<close>

partial_function (option) run_scan ::
  "token_configs \<Rightarrow> string \<Rightarrow> scan_env \<Rightarrow> scan_pc \<Rightarrow> deposit_world \<Rightarrow> ((scan_error + nat) \<times> deposit_world) option" where
  "run_scan TOKENS chain env pc w =
     (case pc of
        ScanDone r \<Rightarrow> Some (r, w)
      | _ \<Rightarrow> run_scan TOKENS chain env (fst (scan_step TOKENS chain env pc w)) (snd (scan_step TOKENS chain env pc w)))"

definition scan_chain :: "token_configs \<Rightarrow> string \<Rightarrow> scan_env \<Rightarrow> deposit_world \<Rightarrow> ((scan_error + nat) \<times> deposit_world) option" where
  "scan_chain TOKENS chain env w = run_scan TOKENS chain env ScanStart w"

text \<open>Passes over one chain one after the other, as \<open>_loop\<close> runs them: what a pass raises is only logged.\<close>

fun scan_rounds :: "token_configs \<Rightarrow> string \<Rightarrow> scan_env \<Rightarrow> nat \<Rightarrow> deposit_world \<Rightarrow> deposit_world option" where
  "scan_rounds TOKENS chain env 0 w = Some w"
| "scan_rounds TOKENS chain env (Suc k) w =
     (case scan_chain TOKENS chain env w of None \<Rightarrow> None | Some (_, w') \<Rightarrow> scan_rounds TOKENS chain env k w')"

subsection \<open>Passes and other users of the ledger together\<close>

text \<open>
  \<open>ds_moves\<close> are the balance moves of other sessions between their read and their write.
  \<open>ds_log\<close> records every committed balance move, with the identity of the deposit it books;
  \<open>ds_overlapped\<close> whether a move was written over another that had committed since its
  read; \<open>ds_missed\<close> the deposits that a pass went past without a row of theirs in the table.
\<close>

record deposit_sys =
  ds_world :: deposit_world
  ds_scans :: "(string \<times> scan_pc) list"
  ds_moves :: "pending_move list"
  ds_log :: "(ledger_op \<times> (int \<times> string) option) list"
  ds_overlapped :: bool
  ds_missed :: "(int \<times> string) set"

definition is_row_of :: "int \<times> string \<Rightarrow> CustodialTransaction \<Rightarrow> bool" where
  "is_row_of i t \<longleftrightarrow> ct_tx_type t = TX_DEPOSIT \<and> ct_user_id t = fst i \<and> ct_idempotency_key t = Some (snd i)"

definition has_row :: "int \<times> string \<Rightarrow> ledger \<Rightarrow> bool" where
  "has_row i lg \<longleftrightarrow> (\<exists>t\<in>set (lg_txs lg). is_row_of i t)"

text \<open>The deposit that a section commits, and the one that it goes past: committed, refused or given up.\<close>

fun committing :: "scan_pc \<Rightarrow> (deposit \<times> pending_move) option" where
  "committing (ScanBook _ _ _ _ _ _ _ d m) = Some (d, m)"
| "committing _ = None"

definition passed_over :: "token_configs \<Rightarrow> string \<Rightarrow> scan_pc \<Rightarrow> scan_pc \<Rightarrow> deposit option" where
  "passed_over TOKENS chain pc pc' =
     (case pc of
        ScanBook _ _ _ _ _ _ _ d _ \<Rightarrow> Some d
      | ScanLogs _ _ by_address tokens _ (ev # _) _ \<Rightarrow>
          (case (committing pc', read_deposit TOKENS chain tokens by_address ev) of
             (None, Inr (Some d)) \<Rightarrow> Some d
           | _ \<Rightarrow> None)
      | _ \<Rightarrow> None)"

text \<open>A move as an entry of the account; its account's row, or its lack of one, changed since it was read.\<close>

definition move_op :: "pending_move \<Rightarrow> ledger_op" where
  "move_op m = (if pm_operation m = OpSubtract then Subtract else Credit) (pm_user m) (pm_chain m) (pm_token m) (pm_amount m)"

definition stale :: "pending_move \<Rightarrow> ledger \<Rightarrow> bool" where
  "stale m lg \<longleftrightarrow> find_balance (pm_user m) (pm_chain m) (pm_token m) lg \<noteq> pm_seen m"

text \<open>What a section of a pass leaves behind.\<close>

definition scanned :: "token_configs \<Rightarrow> string \<Rightarrow> scan_pc \<Rightarrow> scan_pc \<Rightarrow> deposit_world \<Rightarrow> deposit_sys \<Rightarrow> deposit_sys" where
  "scanned TOKENS chain pc pc' w' s =
     (let booked = dw_ledger w' \<noteq> dw_ledger (ds_world s)
      in s\<lparr>ds_world := w',
           ds_log := ds_log s @ (case committing pc of Some (d, m) \<Rightarrow> if booked then [(move_op m, Some (deposit_id d))] else [] | None \<Rightarrow> []),
           ds_overlapped := (ds_overlapped s \<or>
             (case committing pc of Some (d, m) \<Rightarrow> booked \<and> stale m (dw_ledger (ds_world s)) | None \<Rightarrow> False)),
           ds_missed := ds_missed s \<union> (case passed_over TOKENS chain pc pc' of
              Some d \<Rightarrow> if has_row (deposit_id d) (dw_ledger w') then {} else {deposit_id d}
            | None \<Rightarrow> {})\<rparr>)"

text \<open>Every other operation on the transaction rows; only claims are released.\<close>

inductive row_op :: "token_configs \<Rightarrow> ledger \<Rightarrow> ledger \<Rightarrow> bool" for TOKENS where
  claim: "kind \<noteq> TX_DEPOSIT \<Longrightarrow>
    row_op TOKENS lg (snd (claim_idempotency_key (get_token_address TOKENS) now key u kind ch t a dest lg))"
| recorded: "kind \<noteq> TX_DEPOSIT \<Longrightarrow>
    row_op TOKENS lg (snd (record_transaction (get_token_address TOKENS) now u kind ch t a h src dest gs gc nts key lg))"
| finalize: "row_op TOKENS lg (finalize_claimed_transaction now i h src lg)"
| stamp: "row_op TOKENS lg (stamp_pending_tx_hash i h' lg)"
| pending: "row_op TOKENS lg (snd (record_pending_tx_hash i h lg))"
| cas: "row_op TOKENS lg (snd (cas_transaction_status now i st st' h lg))"
| release: "\<forall>t\<in>set (lg_txs lg). ct_id t = i \<longrightarrow> ct_tx_type t \<noteq> TX_DEPOSIT \<Longrightarrow>
    row_op TOKENS lg (release_claimed_transaction i lg)"
| status: "row_op TOKENS lg (update_transaction_status now i st h lg)"

text \<open>
  \<open>answers chain env\<close> limits what the node may say, and \<open>rewinds chain block\<close> where an operator
  may set a cursor by hand.  A reservation commits in the one guarded section that is a
  debit; other moves are written some time after they were read, or rolled back.  Minting
  a wallet only adds one (\<open>wallet\<close>); a process that dies leaves its pass where it is for ever.
\<close>

inductive deposit_step ::
  "token_configs \<Rightarrow> (string \<Rightarrow> scan_env \<Rightarrow> bool) \<Rightarrow> (string \<Rightarrow> int \<Rightarrow> bool) \<Rightarrow> deposit_sys \<Rightarrow> deposit_sys \<Rightarrow> bool"
  for TOKENS answers rewinds where
  start: "chain \<in> set (map fst CONFIRMATIONS) \<Longrightarrow>
    deposit_step TOKENS answers rewinds s (s\<lparr>ds_scans := ds_scans s @ [(chain, ScanStart)]\<rparr>)"
| scan: "j < length (ds_scans s) \<Longrightarrow> ds_scans s ! j = (chain, pc) \<Longrightarrow> answers chain env \<Longrightarrow>
    scan_step TOKENS chain env pc (ds_world s) = (pc', w') \<Longrightarrow>
    deposit_step TOKENS answers rewinds s ((scanned TOKENS chain pc pc' w' s)\<lparr>ds_scans := (ds_scans s)[j := (chain, pc')]\<rparr>)"
| reserve: "debit u ch t a (dw_ledger (ds_world s)) = Some lg' \<Longrightarrow>
    deposit_step TOKENS answers rewinds s
      (s\<lparr>ds_world := (ds_world s)\<lparr>dw_ledger := lg'\<rparr>, ds_log := ds_log s @ [(Debit u ch t a, None)]\<rparr>)"
| move_read: "read_move u ch t a operation (dw_ledger (ds_world s)) = Inr m \<Longrightarrow>
    deposit_step TOKENS answers rewinds s (s\<lparr>ds_moves := ds_moves s @ [m]\<rparr>)"
| move_write: "m \<in> set (ds_moves s) \<Longrightarrow>
    deposit_step TOKENS answers rewinds s
      (s\<lparr>ds_world := (ds_world s)\<lparr>dw_ledger := write_move (get_token_address TOKENS) m (dw_ledger (ds_world s))\<rparr>,
         ds_moves := remove1 m (ds_moves s), ds_log := ds_log s @ [(move_op m, None)],
         ds_overlapped := (ds_overlapped s \<or> stale m (dw_ledger (ds_world s)))\<rparr>)"
| move_abort: "m \<in> set (ds_moves s) \<Longrightarrow>
    deposit_step TOKENS answers rewinds s (s\<lparr>ds_moves := remove1 m (ds_moves s)\<rparr>)"
| rows: "row_op TOKENS (dw_ledger (ds_world s)) lg' \<Longrightarrow>
    deposit_step TOKENS answers rewinds s (s\<lparr>ds_world := (ds_world s)\<lparr>dw_ledger := lg'\<rparr>\<rparr>)"
| rewind: "rewinds chain block \<Longrightarrow>
    deposit_step TOKENS answers rewinds s (s\<lparr>ds_world := set_cursor chain block (ds_world s)\<rparr>)"
| wallet: "deposit_step TOKENS answers rewinds s
    (s\<lparr>ds_world := (ds_world s)\<lparr>dw_wallets := dw_wallets (ds_world s) @ [hw]\<rparr>\<rparr>)"

subsection \<open>The credited amount\<close>

lemma dec_strip_val: "dec_strip k c e = (c', e') \<Longrightarrow> of_nat c' * pow10 e' = of_nat c * pow10 e \<and> c' \<le> c \<and> e \<le> e' \<and> e' \<le> e + int k"
proof (induction k arbitrary: c e)
  case (Suc k)
  show ?case
  proof (cases "c mod 10 = 0")
    case True
    then obtain b where b: "c = b * 10" by (auto elim: dvdE simp: mod_eq_0_iff_dvd)
    with Suc.prems have "dec_strip k b (e + 1) = (c', e')" by simp
    from Suc.IH [OF this] b show ?thesis by (simp add: pow10_add pow10_def [of 1])
  next
    case False
    with Suc.prems show ?thesis by auto
  qed
qed simp

lemma dec_fix_small:
  assumes "c < 10 ^ 28" and "dec_Etiny \<le> e" and "e \<le> dec_Etop"
  shows "dec_fix s c e = Inr (Dec s c e)"
proof (cases "c = 0")
  case True
  with assms show ?thesis by (simp add: dec_fix_def dec_Etop_def dec_Emax_def)
next
  case False
  have "ndigits c \<le> 28" using assms(1) ndigits_le_iff [of 28 c] by simp
  then have "\<not> e < max (int (ndigits c) + e - dec_prec) dec_Etiny" "\<not> int (ndigits c) + e - dec_prec > dec_Etop"
    using assms(2,3) by (auto simp: dec_prec_def)
  with False show ?thesis by (simp only: dec_fix_def Let_def if_False)
qed

lemma ndigits_pow10: "ndigits (10 ^ k) = Suc k"
proof (rule antisym)
  show "ndigits (10 ^ k) \<le> Suc k" by (subst ndigits_le_iff) simp_all
  have "\<not> ndigits (10 ^ k) \<le> k" if "0 < k" using ndigits_le_iff [OF that, of "10 ^ k"] by simp
  then show "Suc k \<le> ndigits (10 ^ k)" by (cases "k = 0") (simp_all add: Suc_le_eq)
qed

text \<open>C24: The credited amount is exact: a transfer below \<open>10 ^ 28\<close> base units of a token with at most 27
  decimals is credited with exactly its units.\<close>

theorem deposit_amount_exact:
  assumes "0 \<le> v" and "v < 10 ^ 28" and "k \<le> 27"
  shows "\<exists>a. deposit_amount v k = Inr a \<and> dec_val a * of_nat (10 ^ k) = of_int v"
proof -
  let ?c = "nat v"
  have c: "?c < 10 ^ 28" using assms(1,2) by (simp add: nat_less_iff)
  have "(10::nat) ^ k < 10 ^ 28" using assms(3) by (intro power_strict_increasing) simp_all
  then have unit: "dec_fix False (10 ^ k) 0 = Inr (Dec False (10 ^ k) 0)"
    by (rule dec_fix_small) (simp_all add: dec_Etiny_def dec_Etop_def)
  obtain q x where q: "dec_strip k ?c (- int k) = (q, x)" by fastforce
  note strip = dec_strip_val [OF q]
  have fixed: "dec_fix False q x = Inr (Dec False q x)"
    by (rule dec_fix_small) (use strip c assms(3) in \<open>simp_all add: dec_Etiny_def dec_Etop_def\<close>)
  have quotient: "dec_div (Dec False ?c 0) (Dec False (10 ^ k) 0) = Inr (Dec False q x)" if "?c \<noteq> 0"
  proof -
    define j where "j = 30 - ndigits ?c"
    have j: "ndigits ?c + j = 30" using c ndigits_le_iff [of 28 ?c] by (simp add: j_def)
    then have sh: "int (ndigits (10 ^ k)) - int (ndigits ?c) + dec_prec + 1 = int (j + k)"
      by (simp add: ndigits_pow10 dec_prec_def)
    have split: "?c * 10 ^ (j + k) = ?c * 10 ^ j * 10 ^ k" by (simp only: power_add mult.assoc)
    have qr: "?c * 10 ^ (j + k) div 10 ^ k = ?c * 10 ^ j" "?c * 10 ^ (j + k) mod 10 ^ k = 0" unfolding split by simp_all
    have "dec_strip (j + k) (?c * 10 ^ j) (- int (j + k)) = dec_strip k ?c (- int k)"
      by (subst dec_strip_block) simp
    then show ?thesis
      using that q fixed unfolding dec_div.simps sh Let_def by (simp add: qr del: of_nat_add)
  qed
  show ?thesis
  proof (cases "?c = 0")
    case True
    with assms(1) have "v = 0" by simp
    then show ?thesis
      using dec_fix_small [of 0 0 False] by (simp add: deposit_amount_def unit dec_of_int_def dec_Etiny_def dec_Etop_def)
  next
    case False
    have "deposit_amount v k = Inr (Dec False q x)"
      using quotient [OF False] assms(1) by (simp add: deposit_amount_def unit dec_of_int_def del: dec_div.simps)
    moreover have "of_nat q * pow10 x * of_nat (10 ^ k) = (of_nat ?c :: rat)"
    proof -
      have "pow10 (- int k) * of_nat (10 ^ k) = 1" by (simp add: pow10_def)
      then have "of_nat ?c * (pow10 (- int k) * of_nat (10 ^ k)) = (of_nat ?c :: rat)" by (simp only: mult_1_right)
      with strip show ?thesis by (simp only: mult.assoc [symmetric])
    qed
    ultimately show ?thesis using assms(1) by simp
  qed
qed

theorem deposit_amount_exact_witness: "\<exists>a. deposit_amount 25000001 6 = Inr a \<and> dec_val a * of_nat (10 ^ 6) = of_int 25000001"
  by (rule deposit_amount_exact) simp_all

end
