(* ===== verification/DepositSystem.thy ===== *)
theory DepositSystem
  imports Deposits
begin

text \<open>
  What the deposit watcher guarantees when its passes interleave: a deposit is credited once, a
  stored range holds no unbooked deposit except those whose booking failed, what the cursor has
  passed is never booked later unless an operator rewinds it, and an answered watcher catches
  up with the chain.
\<close>

subsection \<open>What a section does to the ledger\<close>

lemma set_balance_txs [simp]: "lg_txs (set_balance i s lg) = lg_txs lg" "lg_next_tx (set_balance i s lg) = lg_next_tx lg"
  by (simp_all add: set_balance_def)

lemma open_balance_txs: "open_balance reg u c t lg = (b, lg1) \<Longrightarrow> lg_txs lg1 = lg_txs lg \<and> lg_next_tx lg1 = lg_next_tx lg"
  by (auto simp: open_balance_def Let_def split: option.splits)

lemma write_move_txs [simp]: "lg_txs (write_move reg m lg) = lg_txs lg"
  by (simp add: write_move_def split: option.splits)

lemma debit_txs: "debit u c t a lg = Some lg' \<Longrightarrow> lg_txs lg' = lg_txs lg"
  by (auto simp: debit_def split: option.splits sum.splits bool.splits)

lemma run_op_same:
  assumes "run_op reg p x = Some x'" and "lg_balances x = lg_balances y"
  shows "\<exists>y'. run_op reg p y = Some y' \<and> lg_balances y' = lg_balances x'"
proof (cases p)
  case (Debit u c t a)
  with assms show ?thesis
    by (auto simp: debit_def find_balance_def set_balance_balances split: option.splits sum.splits bool.splits)
next
  case (Credit u c t a)
  with assms(1) obtain r where "apply_custodial_balance reg u c t a OpAdd x = Inr (r, x')"
    by (auto split: sum.splits)
  from apply_same [OF this assms(2)] Credit show ?thesis by auto
next
  case (Subtract u c t a)
  with assms(1) obtain r where "apply_custodial_balance reg u c t a OpSubtract x = Inr (r, x')"
    by (auto split: sum.splits)
  from apply_same [OF this assms(2)] Subtract show ?thesis by auto
qed

text \<open>A pending move is one that was read from some ledger; unless it is stale, writing it is the whole move.\<close>

definition read_once :: "pending_move \<Rightarrow> bool" where
  "read_once m \<longleftrightarrow>
     (\<exists>lg. read_move (pm_user m) (pm_chain m) (pm_token m) (pm_amount m) (pm_operation m) lg = Inr m)"

lemma read_move_fields: "read_move u c t a op lg = Inr m \<Longrightarrow>
    pm_user m = u \<and> pm_chain m = c \<and> pm_token m = t \<and> pm_amount m = a \<and> pm_operation m = op \<and> pm_seen m = find_balance u c t lg"
  by (auto simp: read_move_def Let_def bindE_eq_Inr)

lemma read_onceI: "read_move u c t a op lg = Inr m \<Longrightarrow> read_once m"
  using read_move_fields [of u c t a op lg m] unfolding read_once_def by (intro exI [of _ lg]) simp

lemma fresh_move:
  assumes "read_once m" and "\<not> stale m lg" and "distinct (balance_ids lg)"
  shows "run_op reg (move_op m) lg = Some (write_move reg m lg)"
proof -
  obtain lg0 where r: "read_move (pm_user m) (pm_chain m) (pm_token m) (pm_amount m) (pm_operation m) lg0 = Inr m"
    using assms(1) by (auto simp: read_once_def)
  have "find_balance (pm_user m) (pm_chain m) (pm_token m) lg0 = find_balance (pm_user m) (pm_chain m) (pm_token m) lg"
    using read_move_fields [OF r] assms(2) by (simp add: stale_def)
  then have now: "read_move (pm_user m) (pm_chain m) (pm_token m) (pm_amount m) (pm_operation m) lg = Inr m"
    using r by (simp add: read_move_def)
  from undisturbed_move [OF this assms(3), of reg] obtain x where
    x: "apply_custodial_balance reg (pm_user m) (pm_chain m) (pm_token m) (pm_amount m) (pm_operation m) lg = Inr (x, write_move reg m lg)"
    by blast
  show ?thesis
  proof (cases "pm_operation m")
    case (OpOther y)
    with r show ?thesis by (auto simp: read_move_def Let_def bindE_eq_Inr moved_balance_def)
  qed (use x in \<open>simp_all add: move_op_def\<close>)
qed

lemma keeps_rows_write: "keeps_rows lg (write_move reg m lg)"
  using next_id_notin [of "map cb_id (lg_balances lg)"]
  by (auto simp: write_move_def keeps_rows_set split: option.splits)
    (auto simp: keeps_rows_def find_balance_def find_append balance_ids_def)

lemma distinct_write: "distinct (balance_ids lg) \<Longrightarrow> distinct (balance_ids (write_move reg m lg))"
  using keeps_rows_write by (simp add: keeps_rows_def)

lemma distinct_debit: "debit u c t a lg = Some lg' \<Longrightarrow> balance_ids lg' = balance_ids lg"
  by (auto simp: debit_def split: option.splits sum.splits bool.splits)

lemma write_move_same: "lg_balances x = lg_balances y \<Longrightarrow> lg_balances (write_move reg m x) = lg_balances (write_move reg m y)"
  by (simp add: write_move_def set_balance_def split: option.splits)

subsection \<open>What a section does to the rows\<close>

lemma snd_upd_txs [simp]: "lg_balances (snd (upd_txs P f lg)) = lg_balances lg"
  "lg_txs (snd (upd_txs P f lg)) = upd_where P f (lg_txs lg)"
  by (simp_all add: upd_txs_def)

lemma has_row_upd [simp]:
  assumes "\<And>t. is_row_of i (f t) = is_row_of i t"
  shows "has_row i (snd (upd_txs P f lg)) = has_row i lg"
  using assms by (auto simp: has_row_def set_upd_where)

lemma insert_tx_has_row:
  "insert_tx t lg = Inr (j, lg') \<Longrightarrow> lg_balances lg' = lg_balances lg \<and>
     has_row i lg' = (has_row i lg \<or> is_row_of i t) \<and> \<not> key_taken (ct_user_id t) (ct_idempotency_key t) lg"
  by (auto simp: insert_tx_def has_row_def is_row_of_def split: if_splits)

lemma row_op_keeps:
  assumes "row_op TOKENS lg lg'"
  shows "lg_balances lg' = lg_balances lg \<and> (has_row i lg' = has_row i lg)"
  using assms
proof cases
  case (claim kind now key u ch t a dest)
  then show ?thesis
    by (auto simp: claim_idempotency_key_def is_row_of_def dest: insert_tx_has_row [of _ _ _ _ i] split: sum.splits prod.splits)
next
  case (recorded kind now u ch t a h src dest gs gc nts key)
  then show ?thesis
    by (auto simp: record_transaction_def is_row_of_def dest: insert_tx_has_row [of _ _ _ _ i] split: sum.splits prod.splits)
next
  case (release j)
  then show ?thesis
    by (auto simp: release_claimed_transaction_def has_row_def is_row_of_def)
qed (auto simp: is_row_of_def finalize_claimed_transaction_def stamp_pending_tx_hash_def record_pending_tx_hash_def
       cas_transaction_status_def update_transaction_status_def)

lemma is_row_of_deposit [simp]: "is_row_of i (deposit_row now d) \<longleftrightarrow> i = deposit_id d"
  by (auto simp: is_row_of_def deposit_row_def deposit_id_def)

text \<open>A committed booking: its row is new, and its move is written.\<close>

lemma finish_credit_cases:
  assumes "finish_credit TOKENS now db d m lg = (ok, lg')"
  obtains (refused) "lg' = lg" "\<not> ok"
  | (booked) "\<not> has_row (deposit_id d) lg" "\<And>i. has_row i lg' \<longleftrightarrow> has_row i lg \<or> i = deposit_id d"
      "lg_balances lg' = lg_balances (write_move (get_token_address TOKENS) m lg)" "lg' \<noteq> lg"
proof (cases "db = DbFailed \<or> isl (insert_tx (deposit_row now d) lg)")
  case True
  with assms that(1) show ?thesis by (auto simp: finish_credit_def split: if_splits sum.splits)
next
  case False
  then obtain j lg1 where ins: "insert_tx (deposit_row now d) lg = Inr (j, lg1)"
    by (cases "insert_tx (deposit_row now d) lg") auto
  with False assms have lg': "lg' = write_move (get_token_address TOKENS) m lg1"
    by (auto simp: finish_credit_def split: if_splits)
  note row = insert_tx_has_row [OF ins]
  have new: "\<not> has_row (deposit_id d) lg"
    using row by (auto simp: has_row_def is_row_of_def key_taken_def deposit_row_def deposit_id_def)
  have rows: "has_row i lg' \<longleftrightarrow> has_row i lg \<or> i = deposit_id d" for i
    using row unfolding lg' by (simp add: has_row_def)
  show ?thesis
  proof (rule booked)
    show "lg_balances lg' = lg_balances (write_move (get_token_address TOKENS) m lg)"
      unfolding lg' using row by (intro write_move_same) simp
    show "lg' \<noteq> lg" using new rows [of "deposit_id d"] by auto
  qed (use new rows in simp_all)
qed

text \<open>The ledger changes in one section only, where a booking commits.\<close>

lemma scan_step_cases:
  assumes "scan_step TOKENS chain env pc w = (pc', w')"
  obtains (quiet) "dw_ledger w' = dw_ledger w"
  | (booked) d m where "committing pc = Some (d, m)" "\<not> has_row (deposit_id d) (dw_ledger w)"
      "\<And>i. has_row i (dw_ledger w') \<longleftrightarrow> has_row i (dw_ledger w) \<or> i = deposit_id d"
      "lg_balances (dw_ledger w') = lg_balances (write_move (get_token_address TOKENS) m (dw_ledger w))" "dw_ledger w' \<noteq> dw_ledger w"
proof (cases "committing pc")
  case None
  then have "dw_ledger w' = dw_ledger w"
    using assms by (cases "(TOKENS, chain, env, pc, w)" rule: scan_step.cases)
      (auto simp: Let_def set_cursor_def split: if_splits option.splits db_answer.splits sum.splits)
  then show ?thesis by (rule quiet)
next
  case (Some p)
  then obtain f t "by" toks rest logs n d m where pc: "pc = ScanBook f t by toks rest logs n d m"
    by (cases pc) auto
  obtain ok lg where c: "finish_credit TOKENS (se_now env) (se_db env) d m (dw_ledger w) = (ok, lg)" by fastforce
  with assms pc have w': "w' = w\<lparr>dw_ledger := lg\<rparr>" by auto
  from c show ?thesis
  proof (cases rule: finish_credit_cases)
    case refused
    with w' quiet show ?thesis by simp
  next
    case booked
    with w' pc that(2) [of d m] show ?thesis by simp
  qed
qed

subsection \<open>Every deposit is credited once\<close>

definition booked_ids :: "deposit_sys \<Rightarrow> (int \<times> string) list" where
  "booked_ids s = map (the \<circ> snd) (filter (\<lambda>m. snd m \<noteq> None) (ds_log s))"

definition deposits_start :: "deposit_world \<Rightarrow> deposit_sys" where
  "deposits_start w = \<lparr>ds_world = w, ds_scans = [], ds_moves = [], ds_log = [], ds_overlapped = False, ds_missed = {}\<rparr>"

lemma scanned_simps [simp]:
  "ds_world (scanned TOKENS chain pc pc' w' s) = w'" "ds_moves (scanned TOKENS chain pc pc' w' s) = ds_moves s"
  "ds_scans (scanned TOKENS chain pc pc' w' s) = ds_scans s"
  by (simp_all add: scanned_def Let_def)

text \<open>
  The rows are those of the logged deposits, and the balances are those of the logged moves
  as long as no move was written over another.
\<close>

definition accounted :: "token_configs \<Rightarrow> ledger \<Rightarrow> deposit_sys \<Rightarrow> bool" where
  "accounted TOKENS lg0 s \<longleftrightarrow>
     (\<not> ds_overlapped s \<longrightarrow> (\<exists>lg. run_ops (get_token_address TOKENS) (map fst (ds_log s)) lg0 = Some lg \<and>
           lg_balances lg = lg_balances (dw_ledger (ds_world s)))) \<and>
     distinct (booked_ids s) \<and>
     (\<forall>i. has_row i (dw_ledger (ds_world s)) \<longleftrightarrow> has_row i lg0 \<or> i \<in> set (booked_ids s)) \<and>
     (\<forall>i\<in>set (booked_ids s). \<not> has_row i lg0)"

definition moves_ok :: "deposit_sys \<Rightarrow> bool" where
  "moves_ok s \<longleftrightarrow> distinct (balance_ids (dw_ledger (ds_world s))) \<and> (\<forall>m\<in>set (ds_moves s). read_once m) \<and>
     (\<forall>p\<in>set (ds_scans s). \<forall>d m. committing (snd p) = Some (d, m) \<longrightarrow> read_once m)"

lemma accounted_same:
  assumes "accounted TOKENS lg0 s" and "ds_log s' = ds_log s" and "ds_overlapped s' = ds_overlapped s"
    and "lg_balances (dw_ledger (ds_world s')) = lg_balances (dw_ledger (ds_world s))"
    and "\<And>i. has_row i (dw_ledger (ds_world s')) = has_row i (dw_ledger (ds_world s))"
  shows "accounted TOKENS lg0 s'"
proof -
  have "booked_ids s' = booked_ids s" by (simp add: booked_ids_def assms(2))
  with assms show ?thesis by (simp add: accounted_def)
qed

lemma accounted_move:
  assumes inv: "accounted TOKENS lg0 s" and log: "ds_log s' = ds_log s @ [(p, i)]"
    and over: "ds_overlapped s \<Longrightarrow> ds_overlapped s'"
    and run: "\<not> ds_overlapped s' \<Longrightarrow> \<exists>lg. run_op (get_token_address TOKENS) p (dw_ledger (ds_world s)) = Some lg \<and>
      lg_balances lg = lg_balances (dw_ledger (ds_world s'))"
    and rows: "\<And>k. has_row k (dw_ledger (ds_world s')) \<longleftrightarrow> has_row k (dw_ledger (ds_world s)) \<or> i = Some k"
    and fresh: "\<And>k. i = Some k \<Longrightarrow> \<not> has_row k (dw_ledger (ds_world s))"
  shows "accounted TOKENS lg0 s'"
proof -
  let ?reg = "get_token_address TOKENS"
  have dist: "distinct (booked_ids s)" and ids: "\<forall>k\<in>set (booked_ids s). \<not> has_row k lg0"
    and has: "\<And>k. has_row k (dw_ledger (ds_world s)) \<longleftrightarrow> has_row k lg0 \<or> k \<in> set (booked_ids s)"
    using inv by (auto simp: accounted_def)
  have booked: "booked_ids s' = booked_ids s @ (case i of None \<Rightarrow> [] | Some k \<Rightarrow> [k])"
    by (simp add: booked_ids_def log split: option.splits)
  have "\<exists>lgy. run_ops ?reg (map fst (ds_log s')) lg0 = Some lgy \<and> lg_balances lgy = lg_balances (dw_ledger (ds_world s'))"
    if quiet: "\<not> ds_overlapped s'"
  proof -
    obtain lgx where x: "run_ops ?reg (map fst (ds_log s)) lg0 = Some lgx" "lg_balances lgx = lg_balances (dw_ledger (ds_world s))"
      using inv over quiet by (auto simp: accounted_def)
    obtain lg where lg: "run_op ?reg p (dw_ledger (ds_world s)) = Some lg" "lg_balances lg = lg_balances (dw_ledger (ds_world s'))"
      using run [OF quiet] by blast
    obtain lgy where "run_op ?reg p lgx = Some lgy" "lg_balances lgy = lg_balances lg"
      using run_op_same [OF lg(1), of lgx] x(2) by auto
    with x(1) lg(2) show ?thesis
      using run_ops_snoc [of ?reg "map fst (ds_log s)" lg0 lgx p lgy] by (simp add: log)
  qed
  then show ?thesis
    unfolding accounted_def using dist ids has rows fresh by (auto simp: booked split: option.splits)
qed

lemma begin_credit_read: "begin_credit now db d lg = Some m \<Longrightarrow> read_once m"
  by (auto simp: begin_credit_def read_onceI split: if_splits sum.splits)

lemma scan_step_read:
  assumes "scan_step TOKENS chain env pc w = (pc', w')" and "committing pc' = Some (d, m)"
  shows "read_once m"
  using assms begin_credit_read
  by (cases "(TOKENS, chain, env, pc, w)" rule: scan_step.cases)
    (auto simp: Let_def split: if_splits option.splits db_answer.splits sum.splits prod.splits)

lemma balance_ids_same: "lg_balances x = lg_balances y \<Longrightarrow> balance_ids x = balance_ids y"
  by (simp add: balance_ids_def)

lemma moves_ok_step:
  assumes "deposit_step TOKENS answers rewinds s s'" and "moves_ok s"
  shows "moves_ok s'"
  using assms(1)
proof cases
  case (scan j chain pc env pc' w')
  have "distinct (balance_ids (dw_ledger w'))"
    using scan(5)
  proof (cases rule: scan_step_cases)
    case quiet
    with assms(2) show ?thesis by (simp add: moves_ok_def)
  next
    case (booked d m)
    with assms(2) distinct_write balance_ids_same [OF booked(4)] show ?thesis by (simp add: moves_ok_def)
  qed
  moreover have "set (ds_scans s') \<subseteq> insert (chain, pc') (set (ds_scans s))"
    using scan(1) by (simp add: set_update_subset_insert)
  moreover have "ds_world s' = w'" "ds_moves s' = ds_moves s" using scan(1) by (simp_all add: scanned_def Let_def)
  ultimately show ?thesis using assms(2) scan_step_read [OF scan(5)] by (fastforce simp: moves_ok_def)
next
  case (reserve u ch t a lg')
  with assms(2) distinct_debit [OF reserve(2)] show ?thesis by (simp add: moves_ok_def)
next
  case (move_read u ch t a operation m)
  with assms(2) read_onceI [OF move_read(2)] show ?thesis by (simp add: moves_ok_def)
next
  case (move_write m)
  with assms(2) distinct_write set_remove1_subset [of m "ds_moves s"] show ?thesis by (auto simp: moves_ok_def)
next
  case (move_abort m)
  with assms(2) set_remove1_subset [of m "ds_moves s"] show ?thesis by (auto simp: moves_ok_def)
next
  case (rows lg')
  with assms(2) row_op_keeps [OF rows(2)] balance_ids_same [of lg' "dw_ledger (ds_world s)"] show ?thesis by (simp add: moves_ok_def)
qed (use assms(2) in \<open>simp_all add: moves_ok_def set_cursor_def\<close>)

lemma accounted_step:
  assumes "deposit_step TOKENS answers rewinds s s'" and ok: "moves_ok s" and "accounted TOKENS lg0 s"
  shows "accounted TOKENS lg0 s'"
  using assms(1)
proof cases
  case (scan j chain pc env pc' w')
  from scan(5) show ?thesis
  proof (cases rule: scan_step_cases)
    case quiet
    then have "ds_log s' = ds_log s" "ds_overlapped s' = ds_overlapped s" "dw_ledger (ds_world s') = dw_ledger (ds_world s)"
      using scan(1) by (simp_all add: scanned_def Let_def split: option.splits)
    then show ?thesis by (intro accounted_same [OF assms(3)]) simp_all
  next
    case (booked d m)
    have "(chain, pc) \<in> set (ds_scans s)" using scan(2,3) by (metis nth_mem)
    with ok booked(1) have m: "read_once m" "distinct (balance_ids (dw_ledger (ds_world s)))"
      by (fastforce simp: moves_ok_def)+
    have s': "ds_log s' = ds_log s @ [(move_op m, Some (deposit_id d))]" "ds_world s' = w'"
      "ds_overlapped s' \<longleftrightarrow> ds_overlapped s \<or> stale m (dw_ledger (ds_world s))"
      using scan(1) booked(1,5) by (simp_all add: scanned_def Let_def)
    show ?thesis
    proof (rule accounted_move [OF assms(3) s'(1)])
      assume "\<not> ds_overlapped s'"
      with fresh_move [OF m(1) _ m(2)] s'(3) booked(4)
      show "\<exists>lg. run_op (get_token_address TOKENS) (move_op m) (dw_ledger (ds_world s)) = Some lg \<and>
          lg_balances lg = lg_balances (dw_ledger (ds_world s'))" by (simp add: s'(2))
    qed (use s' booked(2,3) in auto)
  qed
next
  case (reserve u ch t a lg')
  have "has_row k lg' = has_row k (dw_ledger (ds_world s))" for k
    using debit_txs [OF reserve(2)] by (simp add: has_row_def)
  then show ?thesis
    using reserve(2) by (intro accounted_move [OF assms(3), of s' "Debit u ch t a" None]) (simp_all add: reserve(1))
next
  case (move_write m)
  have m: "read_once m" "distinct (balance_ids (dw_ledger (ds_world s)))" using ok move_write(2) by (simp_all add: moves_ok_def)
  show ?thesis
  proof (rule accounted_move [OF assms(3), of s' "move_op m" None])
    assume "\<not> ds_overlapped s'"
    then show "\<exists>lg. run_op (get_token_address TOKENS) (move_op m) (dw_ledger (ds_world s)) = Some lg \<and>
        lg_balances lg = lg_balances (dw_ledger (ds_world s'))"
      using fresh_move [OF m(1) _ m(2), of "get_token_address TOKENS"] by (simp add: move_write(1))
  qed (simp_all add: move_write(1) has_row_def)
next
  case (rows lg')
  with row_op_keeps [OF rows(2)] show ?thesis
    by (intro accounted_same [OF assms(3)]) simp_all
qed (auto intro!: accounted_same [OF assms(3)] simp: set_cursor_def)

interpretation bookings: invariant_of "deposit_step TOKENS answers rewinds" "\<lambda>s. moves_ok s \<and> accounted TOKENS lg0 s" for TOKENS answers rewinds lg0
  by unfold_locales (blast intro: moves_ok_step accounted_step)

lemma accounted_start: "distinct (balance_ids (dw_ledger w)) \<Longrightarrow> moves_ok (deposits_start w) \<and> accounted TOKENS (dw_ledger w) (deposits_start w)"
  by (simp add: accounted_def deposits_start_def booked_ids_def moves_ok_def)

text \<open>C8: However the passes of any number of watchers, their crashes, rewound cursors and the other users of the
  ledger interleave, every deposit is booked at most once: no deposit occurs twice among the committed moves, and the
  new deposit rows are exactly the deposits of that log.  As long as no balance move was written over one that had
  committed since its read, the balances are those of the logged moves, so each booked deposit is credited exactly once.\<close>

theorem deposit_credited_once:
  assumes "(deposit_step TOKENS answers rewinds)\<^sup>*\<^sup>* (deposits_start w) s" and "distinct (balance_ids (dw_ledger w))"
  shows "distinct (booked_ids s) \<and>
    (\<forall>i. has_row i (dw_ledger (ds_world s)) \<longleftrightarrow> has_row i (dw_ledger w) \<or> i \<in> set (booked_ids s)) \<and>
    (\<forall>i\<in>set (booked_ids s). \<not> has_row i (dw_ledger w)) \<and>
    (\<not> ds_overlapped s \<longrightarrow>
      (\<exists>lg. run_ops (get_token_address TOKENS) (map fst (ds_log s)) (dw_ledger w) = Some lg \<and>
         lg_balances lg = lg_balances (dw_ledger (ds_world s))))"
  using bookings.always [OF assms(1) accounted_start [OF assms(2)]] by (simp add: accounted_def)

subsection \<open>Topics and addresses\<close>

lemma hex_digit_code: "n < 16 \<Longrightarrow> (of_char (hex_digit n) :: nat) = (if n < 10 then 48 + n else 87 + n)"
proof (cases "n < 10")
  case True
  then show ?thesis by (simp only: hex_digit_def of_char_digit_char if_True)
next
  case False
  moreover assume "n < 16"
  then have "(87 + n) mod 256 = 87 + n" by (intro mod_less) linarith
  ultimately show ?thesis by (simp only: hex_digit_def of_char_of if_False)
qed

lemma hex_digit_inj:
  assumes "m < 16" "n < 16" "hex_digit m = hex_digit n"
  shows "m = n"
proof -
  have "(if m < 10 then 48 + m else 87 + m) = (if n < 10 then 48 + n else 87 + n)"
    using hex_digit_code [OF assms(1)] hex_digit_code [OF assms(2)] assms(3) by (simp only:)
  with assms(1,2) show ?thesis by (cases "m < 10"; cases "n < 10") simp_all
qed

lemma hex_simps [simp]: "hex [] = []" "hex (a @ b) = hex a @ hex b"
  "hex (w # b) = hex_digit (unat w div 16) # hex_digit (unat w mod 16) # hex b"
  by (simp_all add: hex_def)

lemma byte_nibbles: "unat (w :: 8 word) div 16 < 16" "unat w mod 16 < 16"
proof -
  have "unat w < 2 ^ LENGTH(8)" by (rule unsigned_less)
  then have "unat w < 256" by simp
  then show "unat w div 16 < 16" "unat w mod 16 < 16" by simp_all
qed

lemma hex_inj: "hex a = hex b \<Longrightarrow> a = b"
proof (induction a arbitrary: b)
  case Nil
  then show ?case by (cases b) simp_all
next
  case (Cons w a)
  then obtain v b' where b: "b = v # b'" by (cases b) simp_all
  have "unat w div 16 = unat v div 16" "unat w mod 16 = unat v mod 16"
    using Cons.prems b by (auto intro: hex_digit_inj byte_nibbles)
  then have "unat w = unat v" by (metis div_mult_mod_eq)
  then have "w = v" by (simp only: word_eq_iff_unsigned [where 'a = nat])
  with Cons b show ?case by simp
qed

lemma hex_digit_facts:
  assumes "n < 16"
  shows "lower_char (hex_digit n) = hex_digit n" "hex_digit n \<noteq> CHR ''x''" "hex_digit n \<noteq> CHR '':''"
proof -
  have c: "(of_char (hex_digit n) :: nat) = (if n < 10 then 48 + n else 87 + n)" by (rule hex_digit_code [OF assms])
  show "lower_char (hex_digit n) = hex_digit n" unfolding lower_char_def using c by auto
  show "hex_digit n \<noteq> CHR ''x''" "hex_digit n \<noteq> CHR '':''" using c assms by (auto split: if_splits)
qed

lemma lower_hex [simp]: "lower (hex b) = hex b"
  by (induction b) (simp_all add: lower_def hex_digit_facts byte_nibbles)

lemma hex_chars: "CHR ''x'' \<notin> set (hex b)" "CHR '':'' \<notin> set (hex b)"
  by (induction b) (auto simp: hex_digit_facts(2,3) [OF byte_nibbles(1)] hex_digit_facts(2,3) [OF byte_nibbles(2)] dest: sym)

lemma replace_0x_id: "CHR ''x'' \<notin> set s \<Longrightarrow> replace_0x s = s"
  by (induction s rule: replace_0x.induct) auto

lemma replace_0x_hex [simp]: "replace_0x (hex b) = hex b"
  by (rule replace_0x_id) (rule hex_chars)

lemma length_hex [simp]: "length (hex b) = 2 * length b"
  by (induction b) simp_all

lemma hex_zeros: "hex (replicate n 0) = replicate (2 * n) (CHR ''0'')"
  by (induction n) (simp_all add: hex_digit_def zero_char)

definition address_word :: "bytes \<Rightarrow> bool" where
  "address_word b \<longleftrightarrow> length b = 32 \<and> take 12 b = replicate 12 0"

lemma topic_roundtrip:
  assumes "address_word b"
  shows "topic_for_address (lower (address_from_topic (RpcBytes b))) = ''0x'' @ hex b"
proof -
  have b: "b = replicate 12 0 @ drop 12 b" using assms append_take_drop_id [of 12 b] by (simp add: address_word_def)
  have n: "length (drop 12 b) = 20" using assms by (simp add: address_word_def)
  have h: "hex b = replicate 24 (CHR ''0'') @ hex (drop 12 b)" by (subst b) (simp add: hex_zeros)
  have "drop (length (hex b) - 40) (hex b) = hex (drop 12 b)" unfolding h using n by simp
  then have "address_from_topic (RpcBytes b) = ''0x'' @ hex (drop 12 b)"
    by (simp add: address_from_topic_def del: length_hex)
  moreover have "lower (''0x'' @ s) = ''0x'' @ lower s" for s by (simp add: lower_def lower_char_def)
  moreover have "replace_0x (''0x'' @ s) = replace_0x s" for s by simp
  ultimately show ?thesis
    unfolding topic_for_address_def h using n by (simp add: Let_def)
qed

subsection \<open>The node\<close>

text \<open>
  What is known of a chain below its confirmed blocks: transfer logs have this shape, their
  transaction and index name them, and the node answers a range either with nothing or
  with exactly the logs that match, as \<open>eth_getLogs\<close> is documented.
\<close>

fun transfer_topics :: "rpc_value list \<Rightarrow> bool" where
  "transfer_topics (RpcBytes t0 # RpcBytes src # RpcBytes dst # _) =
     (''0x'' @ hex t0 = TRANSFER_TOPIC0 \<and> address_word src \<and> address_word dst)"
| "transfer_topics _ = False"

definition transfer_log :: "chain_log \<Rightarrow> bool" where
  "transfer_log ev \<longleftrightarrow>
     transfer_topics (cl_topics ev) \<and> (case cl_tx ev of RpcBytes tx \<Rightarrow> length tx = 32 | _ \<Rightarrow> False)"

definition topic_in :: "string list \<Rightarrow> chain_log \<Rightarrow> bool" where
  "topic_in topics ev \<longleftrightarrow> ''0x'' @ value_text (cl_topics ev ! 2) \<in> set topics"

definition node_answers :: "(string \<Rightarrow> chain_log list) \<Rightarrow> string \<Rightarrow> scan_env \<Rightarrow> bool" where
  "node_answers hist chain env \<longleftrightarrow>
     (\<forall>f t topics logs. se_logs env f t topics = Some logs \<longrightarrow>
        set logs = {ev \<in> set (hist chain). f \<le> cl_block ev \<and> cl_block ev \<le> t \<and> topic_in topics ev})"

definition log_id :: "chain_log \<Rightarrow> rpc_value \<times> int" where
  "log_id ev = (cl_tx ev, cl_index ev)"

definition wf_history :: "(string \<Rightarrow> chain_log list) \<Rightarrow> bool" where
  "wf_history hist \<longleftrightarrow> (\<forall>chain. list_all transfer_log (hist chain) \<and> distinct (map log_id (hist chain)))"

lemma transfer_logE:
  assumes "transfer_log ev"
  obtains t0 src dst rest tx where "cl_topics ev = RpcBytes t0 # RpcBytes src # RpcBytes dst # rest" "address_word dst" "cl_tx ev = RpcBytes tx"
  using assms that unfolding transfer_log_def
  by (cases "cl_topics ev" rule: transfer_topics.cases; cases "cl_tx ev") auto

lemma read_deposit_facts:
  assumes "read_deposit TOKENS chain tokens by_address ev = Inr (Some d)"
  shows "dp_to d = lower (address_from_topic (cl_topics ev ! 2))" "dp_to d \<in> fst ` set by_address"
    "deposit_id d = (dp_user d, deposit_key chain (value_text (cl_tx ev)) (cl_index ev))"
proof -
  have "dp_to d = lower (address_from_topic (cl_topics ev ! 2)) \<and> map_of by_address (dp_to d) \<noteq> None \<and>
    dp_chain d = chain \<and> dp_tx d = value_text (cl_tx ev) \<and> dp_index d = cl_index ev"
    using assms by (auto simp: read_deposit_def Let_def bindE_eq_Inr split: option.splits if_splits)
  then have "dp_to d = lower (address_from_topic (cl_topics ev ! 2))" and "dp_to d \<in> fst ` set by_address"
    and "deposit_id d = (dp_user d, deposit_key chain (value_text (cl_tx ev)) (cl_index ev))"
    by (metis map_of_eq_None_iff, metis map_of_eq_None_iff, simp add: deposit_id_def)
  then show "dp_to d = lower (address_from_topic (cl_topics ev ! 2))" "dp_to d \<in> fst ` set by_address"
    "deposit_id d = (dp_user d, deposit_key chain (value_text (cl_tx ev)) (cl_index ev))"
    by blast+
qed

lemma read_deposit_topic:
  assumes "transfer_log ev" and "read_deposit TOKENS chain tokens by_address ev = Inr (Some d)"
    and "dp_to d \<in> set addresses"
  shows "topic_in (map topic_for_address addresses) ev"
proof -
  obtain t0 src dst rest where t: "cl_topics ev = RpcBytes t0 # RpcBytes src # RpcBytes dst # rest" "address_word dst"
    using assms(1) by (rule transfer_logE)
  then have "topic_for_address (dp_to d) = ''0x'' @ hex dst"
    using read_deposit_facts(1) [OF assms(2)] topic_roundtrip by simp
  with assms(3) t(1) show ?thesis unfolding topic_in_def by (auto simp: image_iff intro!: bexI [of _ "dp_to d"])
qed

subsection \<open>A range is read to its end\<close>

definition settled :: "int \<times> string \<Rightarrow> deposit_sys \<Rightarrow> bool" where
  "settled i s \<longleftrightarrow> has_row i (dw_ledger (ds_world s)) \<or> i \<in> ds_missed s"

text \<open>The deposits of the range of a pass that neither wait for it nor are settled: there are none.\<close>

fun covered :: "token_configs \<Rightarrow> (string \<Rightarrow> chain_log list) \<Rightarrow> deposit_sys \<Rightarrow> string \<times> scan_pc \<Rightarrow> bool" where
  "covered TOKENS hist s (chain, ScanChunks f t by_address tokens rest n) =
     (\<forall>ev\<in>set (hist chain). \<forall>d. f \<le> cl_block ev \<longrightarrow> cl_block ev \<le> t \<longrightarrow>
        read_deposit TOKENS chain tokens by_address ev = Inr (Some d) \<longrightarrow> dp_to d \<in> set rest \<or> settled (deposit_id d) s)"
| "covered TOKENS hist s (chain, ScanLogs f t by_address tokens rest logs n) =
     (\<forall>ev\<in>set (hist chain). \<forall>d. f \<le> cl_block ev \<longrightarrow> cl_block ev \<le> t \<longrightarrow>
        read_deposit TOKENS chain tokens by_address ev = Inr (Some d) \<longrightarrow> dp_to d \<in> set rest \<or> ev \<in> set logs \<or> settled (deposit_id d) s)"
| "covered TOKENS hist s (chain, ScanBook f t by_address tokens rest logs n d0 m) =
     (\<forall>ev\<in>set (hist chain). \<forall>d. f \<le> cl_block ev \<longrightarrow> cl_block ev \<le> t \<longrightarrow>
        read_deposit TOKENS chain tokens by_address ev = Inr (Some d) \<longrightarrow>
          dp_to d \<in> set rest \<or> ev \<in> set logs \<or> deposit_id d = deposit_id d0 \<or> settled (deposit_id d) s)"
| "covered TOKENS hist s p = True"

lemma covered_mono:
  "covered TOKENS hist s p \<Longrightarrow> (\<And>i. settled i s \<Longrightarrow> settled i s') \<Longrightarrow> covered TOKENS hist s' p"
  by (cases "(TOKENS, hist, s, p)" rule: covered.cases; simp; blast)

lemma scan_keeps_rows:
  assumes "scan_step TOKENS chain env pc w = (pc', w')"
  shows "has_row i (dw_ledger w) \<Longrightarrow> has_row i (dw_ledger w')"
  using assms by (cases rule: scan_step_cases) auto

lemma settled_step:
  assumes "deposit_step TOKENS answers rewinds s s'" and "settled i s"
  shows "settled i s'"
  using assms(1)
proof cases
  case (scan j chain pc env pc' w')
  with assms(2) scan_keeps_rows [OF scan(5), of i] show ?thesis by (auto simp: settled_def scanned_def Let_def)
next
  case (reserve u ch t a lg')
  with assms(2) debit_txs [OF reserve(2)] show ?thesis by (simp add: settled_def has_row_def)
next
  case (move_write m)
  with assms(2) show ?thesis by (simp add: settled_def has_row_def)
next
  case (rows lg')
  with assms(2) row_op_keeps [OF rows(2), of i] show ?thesis by (simp add: settled_def)
qed (use assms(2) in \<open>simp_all add: settled_def set_cursor_def\<close>)

lemma scan_step_covered:
  assumes cov: "covered TOKENS hist s (chain, pc)" and wf: "wf_history hist" and node: "node_answers hist chain env"
    and step: "scan_step TOKENS chain env pc w = (pc', w')"
    and mono: "\<And>i. settled i s \<Longrightarrow> settled i s'"
    and handled: "\<And>d. passed_over TOKENS chain pc pc' = Some d \<Longrightarrow> settled (deposit_id d) s'"
  shows "covered TOKENS hist s' (chain, pc')"
proof (cases pc)
  case (ScanCursor by_address tokens safe)
  with step show ?thesis
    by (auto simp: Let_def split: if_splits dest: read_deposit_facts(2))
next
  case (ScanChunks f t by_address tokens rest n)
  show ?thesis
  proof (cases "rest = []")
    case True
    with ScanChunks step show ?thesis by (auto split: db_answer.splits)
  next
    case False
    let ?topics = "map topic_for_address (take ADDRESS_CHUNK rest)"
    show ?thesis
    proof (cases "se_logs env f t ?topics")
      case None
      with ScanChunks step False show ?thesis by auto
    next
      case (Some logs)
      with ScanChunks step False have pc': "pc' = ScanLogs f t by_address tokens (drop ADDRESS_CHUNK rest) logs n" by auto
      have "dp_to d \<in> set (drop ADDRESS_CHUNK rest) \<or> ev \<in> set logs \<or> settled (deposit_id d) s'"
        if ev: "ev \<in> set (hist chain)" "f \<le> cl_block ev" "cl_block ev \<le> t"
          and d: "read_deposit TOKENS chain tokens by_address ev = Inr (Some d)" for ev d
      proof -
        from cov ScanChunks ev d consider "dp_to d \<in> set rest" | "settled (deposit_id d) s" by auto
        then show ?thesis
        proof cases
          case 1
          then have "dp_to d \<in> set (take ADDRESS_CHUNK rest) \<or> dp_to d \<in> set (drop ADDRESS_CHUNK rest)"
            by (metis append_take_drop_id Un_iff set_append)
          moreover have "transfer_log ev" using wf ev(1) by (auto simp: wf_history_def list_all_iff)
          ultimately show ?thesis
            using read_deposit_topic [OF _ d, of "take ADDRESS_CHUNK rest"] node Some ev by (auto simp: node_answers_def)
        qed (simp add: mono)
      qed
      then show ?thesis unfolding pc' by simp
    qed
  qed
next
  case (ScanLogs f t by_address tokens rest logs n)
  show ?thesis
  proof (cases logs)
    case Nil
    with ScanLogs step have pc': "pc' = ScanChunks f t by_address tokens rest n" by simp
    from cov ScanLogs Nil have "covered TOKENS hist s (chain, pc')" by (simp add: pc')
    then show ?thesis by (rule covered_mono) (rule mono)
  next
    case (Cons ev logs')
    from ScanLogs Cons step consider r where "pc' = ScanDone r"
      | n' where "pc' = ScanLogs f t by_address tokens rest logs' n'"
      | d0 m where "pc' = ScanBook f t by_address tokens rest logs' n d0 m" "read_deposit TOKENS chain tokens by_address ev = Inr (Some d0)"
      by (auto split: sum.splits option.splits)
    then show ?thesis
    proof cases
      case 2
      have settled: "settled (deposit_id d) s'" if "read_deposit TOKENS chain tokens by_address ev = Inr (Some d)" for d
        by (rule handled) (simp add: passed_over_def ScanLogs Cons that 2)
      have "dp_to d \<in> set rest \<or> ev' \<in> set logs' \<or> settled (deposit_id d) s'"
        if "ev' \<in> set (hist chain)" "f \<le> cl_block ev'" "cl_block ev' \<le> t"
          "read_deposit TOKENS chain tokens by_address ev' = Inr (Some d)" for ev' d
      proof -
        from cov ScanLogs Cons that have "dp_to d \<in> set rest \<or> ev' \<in> set (ev # logs') \<or> settled (deposit_id d) s" by auto
        with that(4) settled [of d] mono [of "deposit_id d"] show ?thesis by auto
      qed
      then show ?thesis unfolding 2 by simp
    next
      case 3
      have "dp_to d \<in> set rest \<or> ev' \<in> set logs' \<or> deposit_id d = deposit_id d0 \<or> settled (deposit_id d) s'"
        if "ev' \<in> set (hist chain)" "f \<le> cl_block ev'" "cl_block ev' \<le> t"
          "read_deposit TOKENS chain tokens by_address ev' = Inr (Some d)" for ev' d
      proof -
        from cov ScanLogs Cons that have "dp_to d \<in> set rest \<or> ev' \<in> set (ev # logs') \<or> settled (deposit_id d) s" by auto
        with that(4) 3(2) mono [of "deposit_id d"] show ?thesis by auto
      qed
      then show ?thesis unfolding 3 by simp
    qed simp
  qed
next
  case (ScanBook f t by_address tokens rest logs n d0 m)
  then obtain n' where pc': "pc' = ScanLogs f t by_address tokens rest logs n'" using step by (auto split: prod.splits)
  have settled: "settled (deposit_id d0) s'" by (rule handled) (simp add: passed_over_def ScanBook)
  have "dp_to d \<in> set rest \<or> ev' \<in> set logs \<or> settled (deposit_id d) s'"
    if "ev' \<in> set (hist chain)" "f \<le> cl_block ev'" "cl_block ev' \<le> t"
      "read_deposit TOKENS chain tokens by_address ev' = Inr (Some d)" for ev' d
  proof -
    from cov ScanBook that have "dp_to d \<in> set rest \<or> ev' \<in> set logs \<or> deposit_id d = deposit_id d0 \<or> settled (deposit_id d) s" by auto
    with settled mono [of "deposit_id d"] show ?thesis by auto
  qed
  then show ?thesis unfolding pc' by simp
qed (use step in \<open>auto simp: Let_def split: if_splits option.splits\<close>)

definition all_covered :: "token_configs \<Rightarrow> (string \<Rightarrow> chain_log list) \<Rightarrow> deposit_sys \<Rightarrow> bool" where
  "all_covered TOKENS hist s \<longleftrightarrow> list_all (covered TOKENS hist s) (ds_scans s)"

lemma all_covered_mono:
  assumes "all_covered TOKENS hist s" and "ds_scans s' = ds_scans s" and "\<And>i. settled i s \<Longrightarrow> settled i s'"
  shows "all_covered TOKENS hist s'"
  using assms covered_mono by (auto simp: all_covered_def list_all_iff)

lemma all_covered_step:
  assumes "deposit_step TOKENS (node_answers hist) rewinds s s'" and "wf_history hist" and "all_covered TOKENS hist s"
  shows "all_covered TOKENS hist s'"
proof -
  note mono = settled_step [OF assms(1)]
  have old: "covered TOKENS hist s' p" if "p \<in> set (ds_scans s)" for p
  proof (rule covered_mono)
    show "covered TOKENS hist s p" using assms(3) that by (simp add: all_covered_def list_all_iff)
  qed (rule mono)
  show ?thesis
    using assms(1)
  proof cases
    case (start chain)
    with old show ?thesis by (auto simp: all_covered_def list_all_iff)
  next
    case (scan j chain pc env pc' w')
    have "covered TOKENS hist s (chain, pc)"
      using assms(3) scan(2,3) by (metis all_covered_def list_all_length)
    moreover have "settled (deposit_id d) s'" if "passed_over TOKENS chain pc pc' = Some d" for d
      using scan(1) that by (simp add: settled_def scanned_def Let_def)
    ultimately have "covered TOKENS hist s' (chain, pc')"
      using scan_step_covered [OF _ assms(2) scan(4,5) mono] by blast
    moreover have "set (ds_scans s') \<subseteq> insert (chain, pc') (set (ds_scans s))"
      using scan(1) by (simp add: set_update_subset_insert)
    ultimately show ?thesis using old by (auto simp: all_covered_def list_all_iff)
  qed (use old in \<open>simp_all add: all_covered_def list_all_iff\<close>)
qed

interpretation ranges: invariant_of "deposit_step TOKENS (node_answers hist) rewinds" "\<lambda>s. wf_history hist \<longrightarrow> all_covered TOKENS hist s" for TOKENS hist rewinds
  by unfold_locales (blast intro: all_covered_step)

text \<open>C9: When a pass is about to store the end of its range as the new cursor, every transfer in that range
  that the pass has to book has its row in the ledger, or is one that the pass could not book.  So only a failed
  booking, never an unread range or a skipped group of addresses, can lose a deposit.\<close>

theorem stored_range_is_booked:
  assumes "(deposit_step TOKENS (node_answers hist) rewinds)\<^sup>*\<^sup>* (deposits_start w) s" and "wf_history hist"
    and "(chain, ScanChunks from_block to_block by_address tokens [] n) \<in> set (ds_scans s)"
    and "ev \<in> set (hist chain)" and "from_block \<le> cl_block ev" and "cl_block ev \<le> to_block"
    and "read_deposit TOKENS chain tokens by_address ev = Inr (Some d)"
  shows "has_row (deposit_id d) (dw_ledger (ds_world s)) \<or> deposit_id d \<in> ds_missed s"
proof -
  have "all_covered TOKENS hist (deposits_start w)" by (simp add: all_covered_def deposits_start_def)
  with ranges.always [OF assms(1)] assms(2) have "all_covered TOKENS hist s" by blast
  with assms(3-) show ?thesis by (fastforce simp: all_covered_def list_all_iff settled_def)
qed

subsection \<open>Below the cursor nothing is booked any more\<close>

lemma colon_split:
  "c @ CHR '':'' # r = c' @ CHR '':'' # r' \<Longrightarrow> CHR '':'' \<notin> set c \<Longrightarrow> CHR '':'' \<notin> set c' \<Longrightarrow> c = c' \<and> r = r'"
proof (induction c arbitrary: c')
  case Nil
  then show ?case by (cases c') auto
next
  case (Cons x c)
  then show ?case by (cases c') auto
qed

lemma chain_no_colon: "chain \<in> set (map fst CONFIRMATIONS) \<Longrightarrow> CHR '':'' \<notin> set chain"
  by (auto simp: CONFIRMATIONS_def)

lemma deposit_key_inj:
  assumes "deposit_key chain tx i = deposit_key chain' tx' i'"
    and "CHR '':'' \<notin> set chain" "CHR '':'' \<notin> set chain'" "CHR '':'' \<notin> set tx" "CHR '':'' \<notin> set tx'"
  shows "chain = chain' \<and> tx = tx' \<and> i = i'"
proof -
  have "chain @ CHR '':'' # tx @ CHR '':'' # int_str i = chain' @ CHR '':'' # tx' @ CHR '':'' # int_str i'"
    using assms(1) by (simp add: deposit_key_def)
  from colon_split [OF this assms(2,3)] have "chain = chain'" "tx @ CHR '':'' # int_str i = tx' @ CHR '':'' # int_str i'" by simp_all
  with colon_split [OF this(2) assms(4,5)] show ?thesis by (auto dest: int_str_inj)
qed

lemma log_key_inj:
  assumes wf: "wf_history hist" and ev: "ev \<in> set (hist chain)" and ev': "ev' \<in> set (hist chain')"
    and "chain \<in> set (map fst CONFIRMATIONS)" "chain' \<in> set (map fst CONFIRMATIONS)"
    and "deposit_key chain (value_text (cl_tx ev)) (cl_index ev) = deposit_key chain' (value_text (cl_tx ev')) (cl_index ev')"
  shows "chain = chain' \<and> ev = ev'"
proof -
  have "transfer_log ev" "transfer_log ev'" using wf ev ev' by (auto simp: wf_history_def list_all_iff)
  then obtain tx tx' where tx: "cl_tx ev = RpcBytes tx" "cl_tx ev' = RpcBytes tx'" by (metis transfer_logE)
  with deposit_key_inj [OF assms(6) chain_no_colon chain_no_colon] assms(4,5)
  have same: "chain = chain'" "log_id ev = log_id ev'" by (auto simp: hex_chars log_id_def dest: hex_inj)
  have "distinct (map log_id (hist chain))" using wf by (simp add: wf_history_def)
  with same ev ev' show ?thesis by (auto simp: distinct_map dest: inj_onD)
qed

text \<open>The blocks that a pass reads are those of its range, above the cursor that it found.\<close>

fun scan_ok :: "(string \<Rightarrow> chain_log list) \<Rightarrow> string \<times> scan_pc \<Rightarrow> bool" where
  "scan_ok hist (chain, ScanChunks f t by_address tokens rest n) = (f \<le> t)"
| "scan_ok hist (chain, ScanLogs f t by_address tokens rest logs n) =
     (f \<le> t \<and> (\<forall>ev\<in>set logs. ev \<in> set (hist chain) \<and> f \<le> cl_block ev))"
| "scan_ok hist (chain, ScanBook f t by_address tokens rest logs n d m) =
     (f \<le> t \<and> (\<forall>ev\<in>set logs. ev \<in> set (hist chain) \<and> f \<le> cl_block ev) \<and>
      (\<exists>ev\<in>set (hist chain). f \<le> cl_block ev \<and> deposit_id d = (dp_user d, deposit_key chain (value_text (cl_tx ev)) (cl_index ev))))"
| "scan_ok hist p = True"

definition scans_ok :: "(string \<Rightarrow> chain_log list) \<Rightarrow> deposit_sys \<Rightarrow> bool" where
  "scans_ok hist s \<longleftrightarrow> (\<forall>p\<in>set (ds_scans s). fst p \<in> set (map fst CONFIRMATIONS) \<and> scan_ok hist p)"

lemma scans_okD: "scans_ok hist s \<Longrightarrow> p \<in> set (ds_scans s) \<Longrightarrow> fst p \<in> set (map fst CONFIRMATIONS) \<and> scan_ok hist p"
  unfolding scans_ok_def by (rule bspec)

lemma scan_step_ok:
  assumes "scan_step TOKENS chain env pc w = (pc', w')" and "node_answers hist chain env" and "scan_ok hist (chain, pc)"
  shows "scan_ok hist (chain, pc')"
  using assms
  by (cases "(TOKENS, chain, env, pc, w)" rule: scan_step.cases)
    (auto simp: Let_def MAX_BLOCK_RANGE_def node_answers_def split: if_splits option.splits db_answer.splits sum.splits prod.splits
      dest!: read_deposit_facts(3))

lemma scans_ok_step:
  assumes "deposit_step TOKENS (node_answers hist) rewinds s s'" and "scans_ok hist s"
  shows "scans_ok hist s'"
  using assms(1)
proof cases
  case (start chain)
  with assms(2) show ?thesis by (auto simp: scans_ok_def)
next
  case (scan j chain pc env pc' w')
  have "(chain, pc) \<in> set (ds_scans s)" using scan(2,3) by (metis nth_mem)
  from scans_okD [OF assms(2) this] have "chain \<in> set (map fst CONFIRMATIONS)" "scan_ok hist (chain, pc)" by simp_all
  moreover have "set (ds_scans s') \<subseteq> insert (chain, pc') (set (ds_scans s))"
    using scan(1) by (simp add: set_update_subset_insert)
  ultimately show ?thesis
    unfolding scans_ok_def [of hist s'] using scans_okD [OF assms(2)] scan_step_ok [OF scan(5,4)] by fastforce
qed (use assms(2) in \<open>simp_all add: scans_ok_def\<close>)

text \<open>No pass is at work on \<open>block\<close>, and the cursor is past it.\<close>

fun scan_above :: "int \<Rightarrow> scan_pc \<Rightarrow> bool" where
  "scan_above block (ScanChunks f t by_address tokens rest n) = (block < f)"
| "scan_above block (ScanLogs f t by_address tokens rest logs n) = (block < f)"
| "scan_above block (ScanBook f t by_address tokens rest logs n d m) = (block < f)"
| "scan_above block pc = True"

definition gone_past :: "string \<Rightarrow> int \<Rightarrow> deposit_sys \<Rightarrow> bool" where
  "gone_past chain block s \<longleftrightarrow>
     (\<exists>c. dw_cursors (ds_world s) chain = Some c \<and> block \<le> c) \<and> (\<forall>p\<in>set (ds_scans s). fst p = chain \<longrightarrow> scan_above block (snd p))"

lemma scan_step_cursor:
  assumes "scan_step TOKENS chain env pc w = (pc', w')"
  obtains "dw_cursors w' = dw_cursors w"
  | f t by_address tokens n where "pc = ScanChunks f t by_address tokens [] n" "dw_cursors w' = (dw_cursors w)(chain \<mapsto> t)"
  using assms
  by (cases "(TOKENS, chain, env, pc, w)" rule: scan_step.cases)
    (auto simp: Let_def set_cursor_def split: if_splits option.splits db_answer.splits sum.splits prod.splits)

lemma scan_step_above:
  assumes "scan_step TOKENS chain env pc w = (pc', w')" and "scan_above block pc"
    and "dw_cursors w chain = Some c" and "block \<le> c"
  shows "scan_above block pc'"
  using assms
  by (cases "(TOKENS, chain, env, pc, w)" rule: scan_step.cases)
    (auto simp: Let_def first_cursor_def split: if_splits option.splits db_answer.splits sum.splits prod.splits)

lemma gone_past_step:
  assumes "deposit_step TOKENS answers rewinds s s'" and "scans_ok hist s" and "gone_past chain block s"
    and kept: "\<forall>b. rewinds chain b \<longrightarrow> block \<le> b"
  shows "gone_past chain block s'"
  using assms(1)
proof cases
  case (start ch)
  with assms(3) show ?thesis by (auto simp: gone_past_def)
next
  case (scan j ch pc env pc' w')
  have mem: "(ch, pc) \<in> set (ds_scans s)" using scan(2,3) by (metis nth_mem)
  obtain c where c: "dw_cursors (ds_world s) chain = Some c" "block \<le> c"
    and above: "\<And>p. p \<in> set (ds_scans s) \<Longrightarrow> fst p = chain \<Longrightarrow> scan_above block (snd p)"
    using assms(3) by (auto simp: gone_past_def)
  have sub: "set (ds_scans s') \<subseteq> insert (ch, pc') (set (ds_scans s))"
    using scan(1) by (simp add: set_update_subset_insert)
  have new: "scan_above block pc'" if "ch = chain"
    using scan_step_above [OF scan(5), of block c] above [OF mem] that c by simp
  have scans: "\<forall>p\<in>set (ds_scans s'). fst p = chain \<longrightarrow> scan_above block (snd p)"
    using sub above new by fastforce
  have w': "ds_world s' = w'" using scan(1) by simp
  from scan(5) have "\<exists>c. dw_cursors w' chain = Some c \<and> block \<le> c"
  proof (cases rule: scan_step_cursor)
    case 1
    with c show ?thesis by simp
  next
    case (2 f t by_address tokens n)
    have "f \<le> t" using scans_okD [OF assms(2) mem] 2(1) by simp
    moreover have "ch = chain \<Longrightarrow> block < f" using above [OF mem] 2(1) by simp
    ultimately show ?thesis using 2(2) c by auto
  qed
  with scans w' show ?thesis by (simp add: gone_past_def)
next
  case (rewind ch b)
  with assms(3) kept show ?thesis by (auto simp: gone_past_def set_cursor_def)
qed (use assms(3) in \<open>simp_all add: gone_past_def\<close>)


text \<open>A deposit of a chain that is not in the ledger and that no pass will read again.\<close>

definition never_booked :: "string \<Rightarrow> chain_log \<Rightarrow> deposit_sys \<Rightarrow> bool" where
  "never_booked chain ev s \<longleftrightarrow>
     gone_past chain (cl_block ev) s \<and>
     (\<forall>user_id. \<not> has_row (user_id, deposit_key chain (value_text (cl_tx ev)) (cl_index ev)) (dw_ledger (ds_world s)))"

lemma never_booked_step:
  assumes "deposit_step TOKENS (node_answers hist) rewinds s s'" and wf: "wf_history hist"
    and ev: "ev \<in> set (hist chain)" "chain \<in> set (map fst CONFIRMATIONS)"
    and ok: "scans_ok hist s" and inv: "never_booked chain ev s" and kept: "\<forall>b. rewinds chain b \<longrightarrow> cl_block ev \<le> b"
  shows "never_booked chain ev s'"
proof -
  have past: "gone_past chain (cl_block ev) s" using inv by (simp add: never_booked_def)
  have no: "\<not> has_row (u, deposit_key chain (value_text (cl_tx ev)) (cl_index ev)) (dw_ledger (ds_world s))" for u
    using inv by (simp add: never_booked_def)
  have "\<not> has_row (u, deposit_key chain (value_text (cl_tx ev)) (cl_index ev)) (dw_ledger (ds_world s'))" for u
    using assms(1)
  proof cases
    case (scan j ch pc env pc' w')
    have mem: "(ch, pc) \<in> set (ds_scans s)" using scan(2,3) by (metis nth_mem)
    from scan(5) show ?thesis
    proof (cases rule: scan_step_cases)
      case quiet
      with no scan(1) show ?thesis by simp
    next
      case (booked d m)
      obtain f t "by" toks rest logs n where pc: "pc = ScanBook f t by toks rest logs n d m"
        using booked(1) by (cases pc) auto
      obtain ev' where ev': "ev' \<in> set (hist ch)" "f \<le> cl_block ev'"
        and d: "deposit_id d = (dp_user d, deposit_key ch (value_text (cl_tx ev')) (cl_index ev'))"
        and ch: "ch \<in> set (map fst CONFIRMATIONS)"
        using scans_okD [OF ok mem] pc by auto
      have "ch = chain \<Longrightarrow> cl_block ev < f" using past mem pc by (force simp: gone_past_def)
      then have "\<not> (chain = ch \<and> ev = ev')" using ev'(2) by auto
      with log_key_inj [OF wf ev(1) ev'(1) ev(2) ch]
      have "deposit_key chain (value_text (cl_tx ev)) (cl_index ev) \<noteq> deposit_key ch (value_text (cl_tx ev')) (cl_index ev')" by blast
      with no booked(3) d scan(1) show ?thesis by simp
    qed
  next
    case (reserve u' c' t' a lg')
    with no debit_txs [OF reserve(2)] show ?thesis by (simp add: has_row_def)
  next
    case (move_write m)
    with no show ?thesis by (simp add: has_row_def)
  next
    case (rows lg')
    with no row_op_keeps [OF rows(2)] show ?thesis by simp
  qed (use no in \<open>simp_all add: set_cursor_def\<close>)
  then show ?thesis using gone_past_step [OF assms(1) ok past kept] by (simp add: never_booked_def)
qed

interpretation scans: invariant_of "deposit_step TOKENS (node_answers hist) rewinds" "scans_ok hist" for TOKENS hist rewinds
  by unfold_locales (rule scans_ok_step)

interpretation lost: invariant_of "deposit_step TOKENS (node_answers hist) rewinds"
    "\<lambda>s. scans_ok hist s \<and> (wf_history hist \<longrightarrow> ev \<in> set (hist chain) \<longrightarrow> chain \<in> set (map fst CONFIRMATIONS) \<longrightarrow>
       (\<forall>b. rewinds chain b \<longrightarrow> cl_block ev \<le> b) \<longrightarrow> never_booked chain ev s)"
  for TOKENS hist rewinds ev chain
  by unfold_locales (metis scans_ok_step never_booked_step)

lemma scans_ok_start: "scans_ok hist (deposits_start w)"
  by (simp add: scans_ok_def deposits_start_def)

text \<open>C22: A deposit that has no row when the cursor of its chain is past its block, and no pass is at work there,
  is never booked, whatever passes, retries and other operations follow, unless an operator rewinds the cursor of its
  chain below that block.\<close>

theorem passed_deposit_never_booked:
  assumes "(deposit_step TOKENS (node_answers hist) rewinds)\<^sup>*\<^sup>* (deposits_start w) s" and "wf_history hist"
    and "ev \<in> set (hist chain)" and "chain \<in> set (map fst CONFIRMATIONS)" and "never_booked chain ev s"
    and "\<forall>block. rewinds chain block \<longrightarrow> cl_block ev \<le> block" and "(deposit_step TOKENS (node_answers hist) rewinds)\<^sup>*\<^sup>* s s'"
  shows "\<not> has_row (user_id, deposit_key chain (value_text (cl_tx ev)) (cl_index ev)) (dw_ledger (ds_world s'))"
proof -
  have "scans_ok hist s" using scans.always [OF assms(1) scans_ok_start] .
  with lost.always [OF assms(7), of ev chain] assms(2-6) have "never_booked chain ev s'" by blast
  then show ?thesis by (simp add: never_booked_def)
qed

subsection \<open>A pass ends, and passes catch up\<close>

lemma run_scan_done [simp]: "run_scan TOKENS chain env (ScanDone r) w = Some (r, w)"
  by (subst run_scan.simps) simp

lemma run_scan_next:
  "\<forall>r. pc \<noteq> ScanDone r \<Longrightarrow> scan_step TOKENS chain env pc w = (pc', w') \<Longrightarrow>
     run_scan TOKENS chain env pc w = run_scan TOKENS chain env pc' w'"
  by (subst run_scan.simps) (cases pc; simp)

lemma run_logs:
  assumes "\<And>n w. \<exists>y. run_scan TOKENS chain env (ScanChunks f t by_address tokens rest n) w = Some y"
  shows "\<exists>y. run_scan TOKENS chain env (ScanLogs f t by_address tokens rest logs n) w = Some y"
proof (induction logs arbitrary: n w)
  case Nil
  with assms show ?case by (simp add: run_scan_next)
next
  case (Cons ev logs)
  obtain pc' w' where st: "scan_step TOKENS chain env (ScanLogs f t by_address tokens rest (ev # logs) n) w = (pc', w')" by fastforce
  then consider r where "pc' = ScanDone r" | n' where "pc' = ScanLogs f t by_address tokens rest logs n'"
    | n' d m where "pc' = ScanBook f t by_address tokens rest logs n' d m"
    by (auto split: sum.splits option.splits)
  then show ?case
  proof cases
    case 3
    obtain ok lg where "finish_credit TOKENS (se_now env) (se_db env) d m (dw_ledger w') = (ok, lg)" by fastforce
    then have "scan_step TOKENS chain env pc' w' =
        (ScanLogs f t by_address tokens rest logs (if ok then n' + 1 else n'), w'\<lparr>dw_ledger := lg\<rparr>)" using 3 by simp
    from run_scan_next [OF _ this] 3 run_scan_next [OF _ st] Cons.IH show ?thesis by auto
  qed (use run_scan_next [OF _ st] Cons.IH in auto)
qed

lemma run_chunks: "\<exists>y. run_scan TOKENS chain env (ScanChunks f t by_address tokens rest n) w = Some y"
proof (induction rest arbitrary: n w rule: measure_induct_rule [of length])
  case (less rest)
  obtain pc' w' where st: "scan_step TOKENS chain env (ScanChunks f t by_address tokens rest n) w = (pc', w')" by fastforce
  then consider r where "pc' = ScanDone r"
    | logs where "rest \<noteq> []" "pc' = ScanLogs f t by_address tokens (drop ADDRESS_CHUNK rest) logs n"
    by (auto split: if_splits option.splits db_answer.splits)
  then show ?case
  proof cases
    case 1
    with run_scan_next [OF _ st] show ?thesis by auto
  next
    case 2
    have "length (drop ADDRESS_CHUNK rest) < length rest" using 2(1) by (cases rest) (auto simp: ADDRESS_CHUNK_def)
    from run_logs [OF less.IH [OF this]] 2(2) run_scan_next [OF _ st] show ?thesis by auto
  qed
qed

text \<open>A pass over a chain always ends, whatever the node and the database answer.\<close>

theorem scan_returns: "\<exists>y. scan_chain TOKENS chain env w = Some y"
proof -
  have cursor: "\<exists>y. run_scan TOKENS chain env (ScanCursor by_address tokens safe) w = Some y" for by_address tokens safe w
  proof -
    obtain pc' w' where st: "scan_step TOKENS chain env (ScanCursor by_address tokens safe) w = (pc', w')" by fastforce
    then consider r where "pc' = ScanDone r" | f t addresses n where "pc' = ScanChunks f t by_address tokens addresses n"
      by (auto simp: Let_def split: if_splits)
    then show ?thesis using run_scan_next [OF _ st] run_chunks by cases auto
  qed
  have head: "\<exists>y. run_scan TOKENS chain env (ScanHead by_address tokens) w = Some y" for by_address tokens w
  proof -
    obtain pc' w' where st: "scan_step TOKENS chain env (ScanHead by_address tokens) w = (pc', w')" by fastforce
    then consider r where "pc' = ScanDone r" | safe where "pc' = ScanCursor by_address tokens safe"
      by (auto simp: Let_def split: if_splits option.splits)
    then show ?thesis using run_scan_next [OF _ st] cursor by cases auto
  qed
  obtain pc' w' where st: "scan_step TOKENS chain env ScanStart w = (pc', w')" by fastforce
  then consider r where "pc' = ScanDone r" | by_address tokens where "pc' = ScanHead by_address tokens"
    by (auto simp: Let_def split: if_splits)
  then show ?thesis unfolding scan_chain_def using run_scan_next [OF _ st] head by cases auto
qed

text \<open>The node and the database answer, and every log they return can be read.\<close>

definition healthy :: "token_configs \<Rightarrow> string \<Rightarrow> scan_env \<Rightarrow> DepositWallet list \<Rightarrow> bool" where
  "healthy TOKENS chain env wallets \<longleftrightarrow>
     (let watched = list_user_deposit_wallets ''evm'' wallets; tokens = token_map TOKENS chain
      in se_db env = DbOk \<and> watched \<noteq> [] \<and> tokens \<noteq> [] \<and>
         (\<forall>f t topics. \<exists>logs. se_logs env f t topics = Some logs \<and>
            (\<forall>ev\<in>set logs. \<exists>r. read_deposit TOKENS chain tokens (addresses_by_user watched) ev = Inr r)))"

lemma healthy_logs:
  assumes db: "se_db env = DbOk" and ok: "\<forall>ev\<in>set logs. \<exists>r. read_deposit TOKENS chain tokens by_address ev = Inr r"
  shows "\<exists>n' w'. run_scan TOKENS chain env (ScanLogs f t by_address tokens rest logs n) w =
      run_scan TOKENS chain env (ScanChunks f t by_address tokens rest n') w' \<and> dw_cursors w' = dw_cursors w \<and> dw_wallets w' = dw_wallets w"
  using ok
proof (induction logs arbitrary: n w)
  case Nil
  have "run_scan TOKENS chain env (ScanLogs f t by_address tokens rest [] n) w = run_scan TOKENS chain env (ScanChunks f t by_address tokens rest n) w"
    by (simp add: run_scan_next)
  then show ?case by blast
next
  case (Cons ev logs)
  from Cons.prems obtain r where r: "read_deposit TOKENS chain tokens by_address ev = Inr r" by auto
  have again: "?case" if "run_scan TOKENS chain env (ScanLogs f t by_address tokens rest (ev # logs) n) w =
      run_scan TOKENS chain env (ScanLogs f t by_address tokens rest logs n1) w1" "dw_cursors w1 = dw_cursors w" "dw_wallets w1 = dw_wallets w"
    for n1 w1
    using that Cons.IH [of n1 w1] Cons.prems by auto
  show ?case
  proof (cases "\<exists>d m. r = Some d \<and> begin_credit (se_now env) (se_db env) d (dw_ledger w) = Some m")
    case True
    then obtain d m where m: "r = Some d" "begin_credit (se_now env) (se_db env) d (dw_ledger w) = Some m" by blast
    obtain ok lg where fin: "finish_credit TOKENS (se_now env) (se_db env) d m (dw_ledger w) = (ok, lg)" by fastforce
    have "run_scan TOKENS chain env (ScanLogs f t by_address tokens rest (ev # logs) n) w =
        run_scan TOKENS chain env (ScanBook f t by_address tokens rest logs n d m) w"
      by (rule run_scan_next) (use r m in simp_all)
    also have "\<dots> = run_scan TOKENS chain env (ScanLogs f t by_address tokens rest logs (if ok then n + 1 else n)) (w\<lparr>dw_ledger := lg\<rparr>)"
      by (rule run_scan_next) (use fin in simp_all)
    finally show ?thesis by (rule again) simp_all
  next
    case False
    have "run_scan TOKENS chain env (ScanLogs f t by_address tokens rest (ev # logs) n) w =
        run_scan TOKENS chain env (ScanLogs f t by_address tokens rest logs n) w"
      by (rule run_scan_next) (use r False in \<open>auto split: option.splits\<close>)
    then show ?thesis by (rule again) simp_all
  qed
qed

lemma healthy_chunks:
  assumes db: "se_db env = DbOk"
    and ok: "\<forall>f t topics. \<exists>logs. se_logs env f t topics = Some logs \<and> (\<forall>ev\<in>set logs. \<exists>r. read_deposit TOKENS chain tokens by_address ev = Inr r)"
  shows "\<exists>k w'. run_scan TOKENS chain env (ScanChunks f t by_address tokens rest n) w = Some (Inr k, w') \<and>
      dw_cursors w' = (dw_cursors w)(chain \<mapsto> t) \<and> dw_wallets w' = dw_wallets w"
proof (induction rest arbitrary: n w rule: measure_induct_rule [of length])
  case (less rest)
  show ?case
  proof (cases "rest = []")
    case True
    then have "scan_step TOKENS chain env (ScanChunks f t by_address tokens rest n) w = (ScanDone (Inr n), set_cursor chain t w)"
      using db by simp
    from run_scan_next [OF _ this] have "run_scan TOKENS chain env (ScanChunks f t by_address tokens rest n) w = Some (Inr n, set_cursor chain t w)"
      by simp
    then show ?thesis by (intro exI conjI) (assumption, simp_all add: set_cursor_def)
  next
    case False
    obtain logs where logs: "se_logs env f t (map topic_for_address (take ADDRESS_CHUNK rest)) = Some logs"
      "\<forall>ev\<in>set logs. \<exists>r. read_deposit TOKENS chain tokens by_address ev = Inr r" using ok by blast
    let ?rest = "drop ADDRESS_CHUNK rest"
    have "scan_step TOKENS chain env (ScanChunks f t by_address tokens rest n) w = (ScanLogs f t by_address tokens ?rest logs n, w)"
      using False logs(1) by simp
    from run_scan_next [OF _ this]
    have run: "run_scan TOKENS chain env (ScanChunks f t by_address tokens rest n) w =
        run_scan TOKENS chain env (ScanLogs f t by_address tokens ?rest logs n) w" by simp
    obtain n' w1 where l: "run_scan TOKENS chain env (ScanLogs f t by_address tokens ?rest logs n) w =
        run_scan TOKENS chain env (ScanChunks f t by_address tokens ?rest n') w1" "dw_cursors w1 = dw_cursors w" "dw_wallets w1 = dw_wallets w"
      using healthy_logs [OF db logs(2)] by blast
    have "length ?rest < length rest" using False by (cases rest) (auto simp: ADDRESS_CHUNK_def)
    from less.IH [OF this, of n' w1] run l show ?thesis by simp
  qed
qed

lemma healthy_scan:
  assumes h: "healthy TOKENS chain env (dw_wallets w)" and head: "se_head env = Some (safe + confirmations chain)" and "0 < safe"
    and c: "dw_cursors w chain = Some c" "c \<le> safe"
  shows "\<exists>r w'. scan_chain TOKENS chain env w = Some (r, w') \<and> dw_wallets w' = dw_wallets w \<and>
      dw_cursors w' chain = Some (min safe (c + MAX_BLOCK_RANGE))"
proof -
  let ?watched = "list_user_deposit_wallets ''evm'' (dw_wallets w)" let ?toks = "token_map TOKENS chain"
  let ?by = "addresses_by_user ?watched"
  have db: "se_db env = DbOk" and ne: "?watched \<noteq> []" "?toks \<noteq> []"
    and ok: "\<forall>f t topics. \<exists>logs. se_logs env f t topics = Some logs \<and> (\<forall>ev\<in>set logs. \<exists>r. read_deposit TOKENS chain ?toks ?by ev = Inr r)"
    using h by (simp_all add: healthy_def Let_def)
  have "scan_chain TOKENS chain env w = run_scan TOKENS chain env (ScanHead ?by ?toks) w"
    unfolding scan_chain_def by (rule run_scan_next) (use db ne in simp_all)
  also have "\<dots> = run_scan TOKENS chain env (ScanCursor ?by ?toks safe) w"
    by (rule run_scan_next) (use head assms(3) in simp_all)
  finally have run: "scan_chain TOKENS chain env w = run_scan TOKENS chain env (ScanCursor ?by ?toks safe) w" .
  show ?thesis
  proof (cases "c = safe")
    case True
    then have "scan_step TOKENS chain env (ScanCursor ?by ?toks safe) w = (ScanDone (Inr 0), w)"
      using db c by (simp add: first_cursor_def)
    from run_scan_next [OF _ this] run True c show ?thesis by (simp add: MAX_BLOCK_RANGE_def)
  next
    case False
    then have "scan_step TOKENS chain env (ScanCursor ?by ?toks safe) w =
        (ScanChunks (c + 1) (min safe (c + MAX_BLOCK_RANGE)) ?by ?toks (map fst ?by) 0, w)"
      using db c by (simp add: first_cursor_def)
    from run_scan_next [OF _ this] run healthy_chunks [OF db ok] show ?thesis by fastforce
  qed
qed

text \<open>C23: While the node and the database answer, every round moves the cursor 2000 blocks on until it reaches
  the last confirmed block, and it stays there.\<close>

theorem cursor_catches_up:
  assumes "healthy TOKENS chain env (dw_wallets w)" and "se_head env = Some (safe + confirmations chain)" and "0 < safe"
    and "dw_cursors w chain = Some c" and "c \<le> safe"
  shows "\<exists>w'. scan_rounds TOKENS chain env k w = Some w' \<and> dw_cursors w' chain = Some (min safe (c + 2000 * int k))"
  using assms(1,4,5)
proof (induction k arbitrary: w c)
  case (Suc k)
  obtain r w1 where w1: "scan_chain TOKENS chain env w = Some (r, w1)" "dw_wallets w1 = dw_wallets w"
    "dw_cursors w1 chain = Some (min safe (c + MAX_BLOCK_RANGE))"
    using healthy_scan [OF Suc.prems(1) assms(2,3) Suc.prems(2,3)] by blast
  obtain w' where "scan_rounds TOKENS chain env k w1 = Some w'"
    "dw_cursors w' chain = Some (min safe (min safe (c + MAX_BLOCK_RANGE) + 2000 * int k))"
    using Suc.IH [of w1 "min safe (c + MAX_BLOCK_RANGE)"] w1(2,3) Suc.prems by auto
  moreover have "min safe (min safe (c + MAX_BLOCK_RANGE) + 2000 * int k) = min safe (c + 2000 * int (Suc k))"
    by (auto simp: MAX_BLOCK_RANGE_def)
  ultimately show ?case using w1(1) by simp
qed (simp add: min_def)

subsection \<open>A sample deposit\<close>

definition sample_tokens :: token_configs where
  "sample_tokens = [''USDC'' \<mapsto> \<lparr>tk_symbol = ''USDC'', tk_decimals = 6,
     tk_addresses = [''ethereum'' \<mapsto> ''0xA0b86991c6218b36c1d19D4a2e9Eb0cE3606eB48'']\<rparr>]"

definition sample_deposit_log :: chain_log where
  "sample_deposit_log =
     \<lparr>cl_address = ''0xA0b86991c6218b36c1d19D4a2e9Eb0cE3606eB48'',
      cl_topics = [RpcBytes [0xdd, 0xf2, 0x52, 0xad, 0x1b, 0xe2, 0xc8, 0x9b, 0x69, 0xc2, 0xb0, 0x68, 0xfc, 0x37, 0x8d, 0xaa,
                             0x95, 0x2b, 0xa7, 0xf1, 0x63, 0xc4, 0xa1, 0x16, 0x28, 0xf5, 0x5a, 0x4d, 0xf5, 0x23, 0xb3, 0xef],
                   RpcBytes (replicate 12 0 @ replicate 20 0x22), RpcBytes (replicate 12 0 @ replicate 20 0x11)],
      cl_data = RpcBytes (replicate 28 0 @ [1, 0x7d, 0x78, 0x40]),
      cl_tx = RpcBytes (replicate 32 0xab), cl_index = 3, cl_block = 100\<rparr>"

definition sample_history :: "string \<Rightarrow> chain_log list" where
  "sample_history chain = (if chain = ''ethereum'' then [sample_deposit_log] else [])"

definition sample_deposits_world :: deposit_world where
  "sample_deposits_world =
     \<lparr>dw_ledger = \<lparr>lg_balances = [], lg_txs = [], lg_next_tx = 1\<rparr>, dw_cursors = [''ethereum'' \<mapsto> 99],
      dw_wallets = [\<lparr>dh_deposit_user_id = Some 7, dh_chain_type = ''evm'',
                     dh_address = ''0x1111111111111111111111111111111111111111'', dh_is_active = True\<rparr>]\<rparr>"

definition honest_env :: "(string \<Rightarrow> chain_log list) \<Rightarrow> string \<Rightarrow> int \<Rightarrow> db_answer \<Rightarrow> scan_env" where
  "honest_env hist chain head db =
     \<lparr>se_now = 0, se_head = Some head,
      se_logs = \<lambda>f t topics. Some (filter (\<lambda>ev. f \<le> cl_block ev \<and> cl_block ev \<le> t \<and> topic_in topics ev) (hist chain)),
      se_db = db\<rparr>"

lemma honest_env_answers: "node_answers hist chain (honest_env hist chain head db)"
  by (auto simp: node_answers_def honest_env_def)

lemma sample_history_wf: "wf_history sample_history"
proof -
  have "list_all transfer_log [sample_deposit_log]" by code_simp
  then show ?thesis by (simp add: wf_history_def sample_history_def)
qed

text \<open>One watcher and its database answers.\<close>

fun drive :: "db_answer list \<Rightarrow> deposit_sys \<Rightarrow> deposit_sys" where
  "drive [] s = s"
| "drive (db # dbs) s =
     (let pc = snd (hd (ds_scans s));
          (pc', w') = scan_step sample_tokens ''ethereum'' (honest_env sample_history ''ethereum'' 112 db) pc (ds_world s)
      in drive dbs ((scanned sample_tokens ''ethereum'' pc pc' w' s)\<lparr>ds_scans := [(''ethereum'', pc')]\<rparr>))"

lemma drive_steps:
  "ds_scans s = [(''ethereum'', pc)] \<Longrightarrow> (deposit_step sample_tokens (node_answers sample_history) rewinds)\<^sup>*\<^sup>* s (drive dbs s)"
proof (induction dbs arbitrary: s pc)
  case (Cons db dbs)
  obtain pc' w' where st: "scan_step sample_tokens ''ethereum'' (honest_env sample_history ''ethereum'' 112 db) pc (ds_world s) = (pc', w')"
    by fastforce
  let ?s = "(scanned sample_tokens ''ethereum'' pc pc' w' s)\<lparr>ds_scans := [(''ethereum'', pc')]\<rparr>"
  have "deposit_step sample_tokens (node_answers sample_history) rewinds s ?s"
    using deposit_step.scan [of 0 s "''ethereum''" pc "node_answers sample_history" _ sample_tokens pc' w' rewinds, OF _ _ honest_env_answers st] Cons.prems by simp
  moreover have "drive (db # dbs) s = drive dbs ?s" using Cons.prems by (simp add: st)
  ultimately show ?case using Cons.IH [of ?s pc'] by (simp add: converse_rtranclp_into_rtranclp)
qed simp

definition sample_watch :: "db_answer list \<Rightarrow> deposit_sys" where
  "sample_watch dbs = drive dbs ((deposits_start sample_deposits_world)\<lparr>ds_scans := [(''ethereum'', ScanStart)]\<rparr>)"

lemma sample_watch_run:
  "(deposit_step sample_tokens (node_answers sample_history) rewinds)\<^sup>*\<^sup>* (deposits_start sample_deposits_world) (sample_watch dbs)"
proof -
  have "deposit_step sample_tokens (node_answers sample_history) rewinds (deposits_start sample_deposits_world)
      ((deposits_start sample_deposits_world)\<lparr>ds_scans := [(''ethereum'', ScanStart)]\<rparr>)"
    using deposit_step.start [of "''ethereum''" sample_tokens "node_answers sample_history" rewinds "deposits_start sample_deposits_world"]
    by (simp add: CONFIRMATIONS_def deposits_start_def)
  then show ?thesis
    unfolding sample_watch_def by (rule converse_rtranclp_into_rtranclp) (rule drive_steps, simp)
qed

definition sample_deposit :: deposit where
  "sample_deposit =
     \<lparr>dp_user = 7, dp_chain = ''ethereum'', dp_symbol = ''USDC'',
      dp_token_address = ''0xa0b86991c6218b36c1d19d4a2e9eb0ce3606eb48'', dp_amount = Dec False 25 0,
      dp_tx = hex (replicate 32 0xab), dp_index = 3, dp_block = 100,
      dp_from = ''0x2222222222222222222222222222222222222222'',
      dp_to = ''0x1111111111111111111111111111111111111111''\<rparr>"

definition sample_by_address :: "(string \<times> int) list" where
  "sample_by_address = [(''0x1111111111111111111111111111111111111111'', 7)]"

definition sample_token_map :: "(string \<times> string) list" where
  "sample_token_map = [(''0xa0b86991c6218b36c1d19d4a2e9eb0ce3606eb48'', ''USDC'')]"

lemma sample_amounts:
  "deposit_amount 25000000 6 = Inr (Dec False 25 0)" "dec_less (Dec False 25 0) (Dec False 1 0) = Inr False"
  by code_simp+

lemma sample_settings:
  "get_token_decimals sample_tokens ''USDC'' ''ethereum'' = 6" "map_of MIN_DEPOSIT ''USDC'' = Some (Dec False 1 0)"
  by code_simp+

lemma sample_data:
  "int16_value (replace_0x (value_text (cl_data sample_deposit_log))) = Some 25000000"
  "replace_0x (value_text (cl_data sample_deposit_log)) \<noteq> []"
  by code_simp+

lemma sample_receiver: "lower (address_from_topic (cl_topics sample_deposit_log ! 2)) = ''0x1111111111111111111111111111111111111111''"
  by code_simp

lemma sample_sender: "address_from_topic (cl_topics sample_deposit_log ! 1) = ''0x2222222222222222222222222222222222222222''"
  by code_simp

lemma sample_contract: "lower (cl_address sample_deposit_log) = ''0xa0b86991c6218b36c1d19d4a2e9eb0ce3606eb48''"
  by code_simp

lemmas sample_fields = sample_amounts sample_settings sample_data sample_receiver sample_sender sample_contract

lemma sample_maps:
  "map_of sample_token_map ''0xa0b86991c6218b36c1d19d4a2e9eb0ce3606eb48'' = Some ''USDC''"
  "map_of sample_by_address ''0x1111111111111111111111111111111111111111'' = Some 7"
  by (simp_all add: sample_token_map_def sample_by_address_def)

lemma sample_log_fields:
  "\<not> length (cl_topics sample_deposit_log) < 3" "value_text (cl_tx sample_deposit_log) = hex (replicate 32 0xab)"
  "cl_index sample_deposit_log = 3" "cl_block sample_deposit_log = 100"
  by (simp_all only: sample_deposit_log_def chain_log.simps value_text.simps list.size)

lemma sample_log_read: "read_deposit sample_tokens ''ethereum'' sample_token_map sample_by_address sample_deposit_log = Inr (Some sample_deposit)"
  unfolding read_deposit_def Let_def sample_fields sample_maps option.case mapErr_simps bindE_simps
  by (simp only: sample_fields sample_maps sample_log_fields if_False option.case mapErr_simps bindE_simps sample_deposit_def)

lemma sample_lookups:
  "list_user_deposit_wallets ''evm'' (dw_wallets sample_deposits_world) = [(7, ''0x1111111111111111111111111111111111111111'')]"
  "token_map sample_tokens ''ethereum'' = sample_token_map"
  "addresses_by_user [(7, ''0x1111111111111111111111111111111111111111'')] = sample_by_address"
  by code_simp+

lemma sample_topic: "topic_in (map topic_for_address (take ADDRESS_CHUNK (map fst sample_by_address))) sample_deposit_log"
  by code_simp

definition watching :: "deposit_world \<Rightarrow> scan_pc \<Rightarrow> deposit_sys" where
  "watching w pc =
     \<lparr>ds_world = w, ds_scans = [(''ethereum'', pc)], ds_moves = [], ds_log = [], ds_overlapped = False, ds_missed = {}\<rparr>"

lemma drive_append: "drive (xs @ ys) s = drive ys (drive xs s)"
  by (induction xs arbitrary: s) (simp_all add: Let_def split: prod.splits)

lemma drive_quiet:
  "scan_step sample_tokens ''ethereum'' (honest_env sample_history ''ethereum'' 112 db) pc w = (pc', w') \<Longrightarrow>
   committing pc = None \<Longrightarrow> passed_over sample_tokens ''ethereum'' pc pc' = None \<Longrightarrow>
   drive (db # dbs) (watching w pc) = drive dbs (watching w' pc')"
  by (simp add: watching_def scanned_def Let_def)

text \<open>The sections before the log is handled.\<close>

lemma sample_watch_reads:
  "sample_watch (DbOk # DbOk # DbOk # DbOk # dbs) =
     drive dbs (watching sample_deposits_world (ScanLogs 100 100 sample_by_address sample_token_map [] [sample_deposit_log] 0))"
proof -
  let ?w = sample_deposits_world
  have s: "(deposits_start ?w)\<lparr>ds_scans := [(''ethereum'', ScanStart)]\<rparr> = watching ?w ScanStart"
    by (simp add: deposits_start_def watching_def)
  have "scan_step sample_tokens ''ethereum'' (honest_env sample_history ''ethereum'' 112 DbOk) ScanStart ?w =
      (ScanHead sample_by_address sample_token_map, ?w)"
    by (simp add: sample_lookups honest_env_def) (simp add: sample_token_map_def)
  note 1 = drive_quiet [OF this]
  have "scan_step sample_tokens ''ethereum'' (honest_env sample_history ''ethereum'' 112 DbOk) (ScanHead sample_by_address sample_token_map) ?w =
      (ScanCursor sample_by_address sample_token_map 100, ?w)"
    by (simp add: honest_env_def confirmations_def CONFIRMATIONS_def)
  note 2 = drive_quiet [OF this]
  have "scan_step sample_tokens ''ethereum'' (honest_env sample_history ''ethereum'' 112 DbOk) (ScanCursor sample_by_address sample_token_map 100) ?w =
      (ScanChunks 100 100 sample_by_address sample_token_map (map fst sample_by_address) 0, ?w)"
    by (simp add: honest_env_def sample_deposits_world_def first_cursor_def MAX_BLOCK_RANGE_def)
  note 3 = drive_quiet [OF this]
  have "map fst sample_by_address \<noteq> []" "drop ADDRESS_CHUNK (map fst sample_by_address) = []" "cl_block sample_deposit_log = 100"
    by (simp_all add: sample_by_address_def ADDRESS_CHUNK_def sample_deposit_log_def)
  then have "scan_step sample_tokens ''ethereum'' (honest_env sample_history ''ethereum'' 112 DbOk)
      (ScanChunks 100 100 sample_by_address sample_token_map (map fst sample_by_address) 0) ?w =
      (ScanLogs 100 100 sample_by_address sample_token_map [] [sample_deposit_log] 0, ?w)"
    using sample_topic by (simp add: honest_env_def sample_history_def)
  note 4 = drive_quiet [OF this]
  show ?thesis unfolding sample_watch_def s by (simp only: 1 2 3 4 committing.simps passed_over_def scan_pc.case)
qed

definition sample_pending :: pending_move where
  "sample_pending =
     \<lparr>pm_user = 7, pm_chain = ''ethereum'', pm_token = ''USDC'', pm_amount = Dec False 25 0, pm_operation = OpAdd,
      pm_seen = None, pm_text = ''25''\<rparr>"

definition sample_ledger_after :: ledger where
  "sample_ledger_after = snd (finish_credit sample_tokens 0 DbOk sample_deposit sample_pending (dw_ledger sample_deposits_world))"

lemma sample_booking:
  "begin_credit 0 DbOk sample_deposit (dw_ledger sample_deposits_world) = Some sample_pending"
  "finish_credit sample_tokens 0 DbOk sample_deposit sample_pending (dw_ledger sample_deposits_world) = (True, sample_ledger_after)"
proof -
  show "begin_credit 0 DbOk sample_deposit (dw_ledger sample_deposits_world) = Some sample_pending" by code_simp
  have "fst (finish_credit sample_tokens 0 DbOk sample_deposit sample_pending (dw_ledger sample_deposits_world))" by code_simp
  then show "finish_credit sample_tokens 0 DbOk sample_deposit sample_pending (dw_ledger sample_deposits_world) = (True, sample_ledger_after)"
    by (simp add: sample_ledger_after_def prod_eq_iff)
qed

text \<open>The transfer of 25 USDC in block 100: its row is flushed and the balance read.\<close>

lemma sample_watch_begun:
  "sample_watch (DbOk # DbOk # DbOk # DbOk # DbOk # dbs) =
     drive dbs (watching sample_deposits_world (ScanBook 100 100 sample_by_address sample_token_map [] [] 0 sample_deposit sample_pending))"
proof -
  have "scan_step sample_tokens ''ethereum'' (honest_env sample_history ''ethereum'' 112 DbOk)
      (ScanLogs 100 100 sample_by_address sample_token_map [] [sample_deposit_log] 0) sample_deposits_world =
      (ScanBook 100 100 sample_by_address sample_token_map [] [] 0 sample_deposit sample_pending, sample_deposits_world)"
    by (simp add: sample_log_read honest_env_def sample_booking)
  from drive_quiet [OF this] show ?thesis
    unfolding sample_watch_reads by (simp add: passed_over_def)
qed

text \<open>The booking is committed, and the cursor is about to be stored.\<close>

lemma sample_watch_booked:
  "sample_watch [DbOk, DbOk, DbOk, DbOk, DbOk, DbOk, DbOk] =
     \<lparr>ds_world = sample_deposits_world\<lparr>dw_ledger := sample_ledger_after\<rparr>,
      ds_scans = [(''ethereum'', ScanChunks 100 100 sample_by_address sample_token_map [] 1)], ds_moves = [],
      ds_log = [(Credit 7 ''ethereum'' ''USDC'' (Dec False 25 0), Some (deposit_id sample_deposit))], ds_overlapped = False, ds_missed = {}\<rparr>"
proof -
  have after: "sample_ledger_after \<noteq> dw_ledger sample_deposits_world" "has_row (deposit_id sample_deposit) sample_ledger_after"
    using sample_booking(2) by (cases rule: finish_credit_cases; simp)+
  have "move_op sample_pending = Credit 7 ''ethereum'' ''USDC'' (Dec False 25 0)" "\<not> stale sample_pending (dw_ledger sample_deposits_world)"
    by (simp_all add: move_op_def sample_pending_def stale_def sample_deposits_world_def find_balance_def)
  with after show ?thesis
    unfolding sample_watch_begun
    by (simp add: watching_def scanned_def passed_over_def sample_booking honest_env_def)
qed

lemma sample_watch_booked_ids: "booked_ids (sample_watch [DbOk, DbOk, DbOk, DbOk, DbOk, DbOk, DbOk]) = [deposit_id sample_deposit]"
  by (simp add: sample_watch_booked booked_ids_def)

lemma sample_rewinds: "(deposit_step sample_tokens (node_answers sample_history) (\<lambda>_ _. False))\<^sup>*\<^sup>* (deposits_start sample_deposits_world) (sample_watch dbs)"
  by (rule sample_watch_run)

theorem deposit_credited_once_witness:
  "\<not> has_row (deposit_id sample_deposit) (dw_ledger sample_deposits_world) \<and>
   has_row (deposit_id sample_deposit) (dw_ledger (ds_world (sample_watch [DbOk, DbOk, DbOk, DbOk, DbOk, DbOk, DbOk]))) \<and>
   (\<exists>lg. run_ops (get_token_address sample_tokens) [Credit 7 ''ethereum'' ''USDC'' (Dec False 25 0)] (dw_ledger sample_deposits_world) = Some lg \<and>
     lg_balances lg = lg_balances sample_ledger_after)"
proof -
  have "distinct (balance_ids (dw_ledger sample_deposits_world))" by (simp add: sample_deposits_world_def balance_ids_def)
  note once = deposit_credited_once [OF sample_rewinds this, of "[DbOk, DbOk, DbOk, DbOk, DbOk, DbOk, DbOk]"]
  from once have "\<not> has_row (deposit_id sample_deposit) (dw_ledger sample_deposits_world) \<and>
      has_row (deposit_id sample_deposit) (dw_ledger (ds_world (sample_watch [DbOk, DbOk, DbOk, DbOk, DbOk, DbOk, DbOk])))"
    unfolding sample_watch_booked_ids list.set by (metis insertI1)
  moreover from once have "\<exists>lg. run_ops (get_token_address sample_tokens) [Credit 7 ''ethereum'' ''USDC'' (Dec False 25 0)] (dw_ledger sample_deposits_world) = Some lg \<and>
      lg_balances lg = lg_balances sample_ledger_after"
    by (simp only: sample_watch_booked) simp
  ultimately show ?thesis by blast
qed

theorem stored_range_is_booked_witness:
  "has_row (deposit_id sample_deposit) (dw_ledger (ds_world (sample_watch [DbOk, DbOk, DbOk, DbOk, DbOk, DbOk, DbOk]))) \<or>
   deposit_id sample_deposit \<in> ds_missed (sample_watch [DbOk, DbOk, DbOk, DbOk, DbOk, DbOk, DbOk])"
proof (rule stored_range_is_booked [OF sample_rewinds sample_history_wf _ _ _ _ sample_log_read])
  show "(''ethereum'', ScanChunks 100 100 sample_by_address sample_token_map [] 1) \<in>
      set (ds_scans (sample_watch [DbOk, DbOk, DbOk, DbOk, DbOk, DbOk, DbOk]))"
    by (simp add: sample_watch_booked)
qed (simp_all add: sample_history_def sample_deposit_log_def)

text \<open>The same pass when the database refuses the booking: it goes on and stores the cursor.\<close>

lemma sample_watch_missed:
  "sample_watch [DbOk, DbOk, DbOk, DbOk, DbFailed, DbOk, DbOk] =
     \<lparr>ds_world = set_cursor ''ethereum'' 100 sample_deposits_world, ds_scans = [(''ethereum'', ScanDone (Inr 0))],
      ds_moves = [], ds_log = [], ds_overlapped = False, ds_missed = {deposit_id sample_deposit}\<rparr>"
proof -
  have "\<not> has_row (deposit_id sample_deposit) (dw_ledger sample_deposits_world)"
    by (simp add: has_row_def sample_deposits_world_def)
  then show ?thesis
    unfolding sample_watch_reads
    by (simp add: watching_def scanned_def passed_over_def sample_log_read begin_credit_def honest_env_def)
qed

theorem passed_deposit_never_booked_witness:
  "\<forall>dbs. \<not> has_row (7, deposit_key ''ethereum'' (hex (replicate 32 0xab)) 3)
      (dw_ledger (ds_world (drive dbs (sample_watch [DbOk, DbOk, DbOk, DbOk, DbFailed, DbOk, DbOk]))))"
proof
  fix dbs
  let ?s = "sample_watch [DbOk, DbOk, DbOk, DbOk, DbFailed, DbOk, DbOk]"
  have ev: "cl_block sample_deposit_log = 100" "value_text (cl_tx sample_deposit_log) = hex (replicate 32 0xab)" "cl_index sample_deposit_log = 3"
    by (simp_all add: sample_deposit_log_def)
  have mem: "sample_deposit_log \<in> set (sample_history ''ethereum'')" by (simp add: sample_history_def)
  have chain: "''ethereum'' \<in> set (map fst CONFIRMATIONS)" by (simp add: CONFIRMATIONS_def)
  have never: "never_booked ''ethereum'' sample_deposit_log ?s"
    by (simp add: never_booked_def gone_past_def has_row_def sample_watch_missed ev(1) set_cursor_def)
      (simp add: sample_deposits_world_def)
  have scans: "ds_scans ?s = [(''ethereum'', ScanDone (Inr 0))]" by (simp add: sample_watch_missed)
  show "\<not> has_row (7, deposit_key ''ethereum'' (hex (replicate 32 0xab)) 3) (dw_ledger (ds_world (drive dbs ?s)))"
    using passed_deposit_never_booked [OF sample_rewinds sample_history_wf mem chain never _ drive_steps [OF scans], of 7 dbs]
    unfolding ev by simp
qed

lemma sample_healthy: "healthy sample_tokens ''ethereum'' (honest_env sample_history ''ethereum'' 112 DbOk) (dw_wallets sample_deposits_world)"
proof -
  have ne: "sample_token_map \<noteq> []" by (simp add: sample_token_map_def)
  show ?thesis unfolding healthy_def Let_def sample_lookups using ne sample_log_read by (auto simp: honest_env_def sample_history_def)
qed

theorem cursor_catches_up_witness:
  "\<exists>w'. scan_rounds sample_tokens ''ethereum'' (honest_env sample_history ''ethereum'' 112 DbOk) 3 sample_deposits_world = Some w' \<and>
     dw_cursors w' ''ethereum'' = Some 100"
  using cursor_catches_up [OF sample_healthy, of 100 99 3]
  by (simp add: honest_env_def confirmations_def CONFIRMATIONS_def sample_deposits_world_def)


end
