(* ===== verification/OnchainRewards.thy ===== *)
theory OnchainRewards
  imports Merkle P2PModels CustodialLedger
begin

text \<open>
  The fee-cashback service: \<open>bot/models/onchain_rewards.py\<close> and
  \<open>bot/services/onchain_rewards_service.py\<close>, over the reward tree of theory \<open>Merkle\<close> and the
  custodial ledger.  Instants are seconds of Unix time in UTC.  A JSON column is the value it
  encodes.  The rows of a query without an order come in insertion order.
\<close>

subsection \<open>Tables\<close>

datatype epoch_status = EPOCH_ACCRUING | EPOCH_FINALIZED | EPOCH_PUBLISHED | EPOCH_CLOSED

datatype entry_status =
  ENTRY_CARRYOVER | ENTRY_ROLLED | ENTRY_CLAIMABLE | ENTRY_ONCHAIN | ENTRY_CLAIMED_ONCHAIN | ENTRY_CREDITED

record RewardEpoch =
  ep_id :: int
  ep_epoch_index :: int
  ep_starts_at :: int
  ep_ends_at :: int
  ep_status :: epoch_status
  ep_total_amount_usd :: pyfloat
  ep_entry_count :: int
  ep_merkle_root :: "string option"
  ep_published_tx_hash :: "string option"
  ep_claim_deadline :: "int option"
  ep_finalized_at :: "int option"
  ep_published_at :: "int option"

record RewardEntry =
  en_id :: int
  en_epoch_id :: int
  en_user_id :: int
  en_cashback_usd :: pyfloat
  en_carryover_usd :: pyfloat
  en_amount_usd :: pyfloat
  en_fee_basis_usd :: pyfloat
  en_claim_address :: "string option"
  en_leaf_index :: "nat option"
  en_amount_base_units :: "string option"
  en_merkle_proof :: "string list option"
  en_status :: entry_status
  en_claimed_tx_hash :: "string option"
  en_settled_at :: "int option"

record FeeTransaction =
  ft_user_id :: int
  ft_fee_amount_usd :: "pyfloat option"
  ft_created_at :: int

record rewards_db =
  rd_epochs :: "RewardEpoch list"
  rd_entries :: "RewardEntry list"
  rd_fees :: "FeeTransaction list"
  rd_wallets :: "Wallet list"

datatype rewards_error = MerkleRaised merkle_error | CarryoverRaced

subsection \<open>Floats\<close>

text \<open>\<open>round(x, 6)\<close>: the decimal nearest to the exact value, halves to even, and the float nearest to that.\<close>

definition fl_round6 :: "pyfloat \<Rightarrow> pyfloat" where
  "fl_round6 x =
     (case x of
        Fin v \<Rightarrow>
          let (n, d) = quotient_of (\<bar>v\<bar> * 1000000); r = of_nat (rhe (nat n) (nat d)) / 1000000
          in fl_round (if v < 0 then - r else r)
      | _ \<Rightarrow> x)"

text \<open>\<open>sum\<close> of floats is compensated: a running sum and a correction, added at the end.\<close>

definition fl_abs :: "pyfloat \<Rightarrow> pyfloat" where
  "fl_abs x = (if fl_lt x (Fin 0) then fl_neg x else x)"

definition sum_step :: "pyfloat \<Rightarrow> pyfloat \<times> pyfloat \<Rightarrow> pyfloat \<times> pyfloat" where
  "sum_step x p =
     (case p of (hi, c) \<Rightarrow>
        let t = fl_add hi x
        in (t, if fl_le (fl_abs x) (fl_abs hi) then fl_add c (fl_add (fl_sub hi t) x) else fl_add c (fl_add (fl_sub x t) hi)))"

definition fl_sum :: "pyfloat list \<Rightarrow> pyfloat" where
  "fl_sum xs = (case fold sum_step xs (Fin 0, Fin 0) of (hi, c) \<Rightarrow> (case c of Fin v \<Rightarrow> if v = 0 then hi else fl_add hi c | _ \<Rightarrow> hi))"

definition CASHBACK_RATE :: pyfloat where "CASHBACK_RATE = fl_round (1 / 10)"

definition MIN_PAYOUT_USD :: pyfloat where "MIN_PAYOUT_USD = Fin 1"

subsection \<open>Epochs\<close>

definition EPOCH_ANCHOR :: int where "EPOCH_ANCHOR = 1767571200"

definition EPOCH_LENGTH :: int where "EPOCH_LENGTH = 7 * 24 * 60 * 60"

definition DEFAULT_CLAIM_WINDOW :: int where "DEFAULT_CLAIM_WINDOW = 90 * 24 * 60 * 60"

definition epoch_index_for :: "int \<Rightarrow> int" where
  "epoch_index_for t = max 0 ((t - EPOCH_ANCHOR) div EPOCH_LENGTH)"

definition epoch_window :: "int \<Rightarrow> int \<times> int" where
  "epoch_window index = (let start = EPOCH_ANCHOR + index * EPOCH_LENGTH in (start, start + EPOCH_LENGTH))"

definition find_epoch :: "int \<Rightarrow> rewards_db \<Rightarrow> RewardEpoch option" where
  "find_epoch index db = List.find (\<lambda>e. ep_epoch_index e = index) (rd_epochs db)"

definition epoch_of :: "RewardEntry \<Rightarrow> rewards_db \<Rightarrow> RewardEpoch option" where
  "epoch_of e db = List.find (\<lambda>p. ep_id p = en_epoch_id e) (rd_epochs db)"

definition new_epoch :: "int \<Rightarrow> rewards_db \<Rightarrow> RewardEpoch" where
  "new_epoch index db =
     \<lparr>ep_id = next_id (map ep_id (rd_epochs db)), ep_epoch_index = index, ep_starts_at = fst (epoch_window index),
      ep_ends_at = snd (epoch_window index), ep_status = EPOCH_ACCRUING, ep_total_amount_usd = Fin 0, ep_entry_count = 0,
      ep_merkle_root = None, ep_published_tx_hash = None, ep_claim_deadline = None, ep_finalized_at = None, ep_published_at = None\<rparr>"

definition get_or_create_epoch :: "int \<Rightarrow> rewards_db \<Rightarrow> RewardEpoch \<times> rewards_db" where
  "get_or_create_epoch index db =
     (case find_epoch index db of
        Some e \<Rightarrow> (e, db)
      | None \<Rightarrow> let e = new_epoch index db in (e, db\<lparr>rd_epochs := rd_epochs db @ [e]\<rparr>))"

definition upd_epoch :: "int \<Rightarrow> (RewardEpoch \<Rightarrow> RewardEpoch) \<Rightarrow> rewards_db \<Rightarrow> rewards_db" where
  "upd_epoch i f db = db\<lparr>rd_epochs := upd_where (\<lambda>e. ep_id e = i) f (rd_epochs db)\<rparr>"

subsection \<open>Finalizing an epoch\<close>

definition fee_rows :: "int \<Rightarrow> int \<Rightarrow> rewards_db \<Rightarrow> (int \<times> pyfloat) list" where
  "fee_rows starts_at ends_at db =
     List.map_filter (\<lambda>f. case ft_fee_amount_usd f of
         Some a \<Rightarrow> if starts_at \<le> ft_created_at f \<and> ft_created_at f < ends_at \<and> fl_lt (Fin 0) a then Some (ft_user_id f, a) else None
       | None \<Rightarrow> None) (rd_fees db)"

text \<open>A sum per user, \<open>0.0\<close> for a user without rows.\<close>

definition user_sum :: "(int \<times> pyfloat) list \<Rightarrow> int \<Rightarrow> pyfloat" where
  "user_sum rows uid = foldl fl_add (Fin 0) (map snd (filter (\<lambda>(u, a). u = uid) rows))"

definition carry_rows :: "int \<Rightarrow> rewards_db \<Rightarrow> RewardEntry list" where
  "carry_rows index db =
     filter (\<lambda>e. en_status e = ENTRY_CARRYOVER \<and>
        (case epoch_of e db of Some p \<Rightarrow> ep_epoch_index p < index | None \<Rightarrow> False)) (rd_entries db)"

definition roll_carryovers :: "int \<Rightarrow> RewardEntry list \<Rightarrow> rewards_db \<Rightarrow> rewards_error + rewards_db" where
  "roll_carryovers now rows db =
     (let P = (\<lambda>e. en_id e \<in> en_id ` set rows \<and> en_status e = ENTRY_CARRYOVER)
      in if length (filter P (rd_entries db)) \<noteq> length rows then Inl CarryoverRaced
         else Inr (db\<lparr>rd_entries := upd_where P (\<lambda>e. e\<lparr>en_status := ENTRY_ROLLED, en_settled_at := Some now\<rparr>) (rd_entries db)\<rparr>))"

definition claim_address :: "rewards_db \<Rightarrow> int \<Rightarrow> string option" where
  "claim_address db uid =
     (case sort_key (\<lambda>w. (\<not> wa_is_default w, wa_id w))
          (filter (\<lambda>w. wa_user_id w = uid \<and> wa_chain_type w = ''evm'' \<and> wa_is_active w) (rd_wallets db)) of
        w # _ \<Rightarrow> Some (wa_address w)
      | [] \<Rightarrow> None)"

definition new_entry :: "int \<Rightarrow> int \<Rightarrow> int \<Rightarrow> pyfloat \<Rightarrow> pyfloat \<Rightarrow> string option \<Rightarrow> RewardEntry" where
  "new_entry i epoch_id uid basis carryover address =
     (let cashback = fl_round6 (fl_mul basis CASHBACK_RATE); carry = fl_round6 carryover;
          tot = fl_round6 (fl_add cashback carry)
      in \<lparr>en_id = i, en_epoch_id = epoch_id, en_user_id = uid, en_cashback_usd = cashback, en_carryover_usd = carry,
          en_amount_usd = tot, en_fee_basis_usd = fl_round6 basis, en_claim_address = address, en_leaf_index = None,
          en_amount_base_units = None, en_merkle_proof = None,
          en_status = (if fl_le MIN_PAYOUT_USD tot then ENTRY_CLAIMABLE else ENTRY_CARRYOVER),
          en_claimed_tx_hash = None, en_settled_at = None\<rparr>)"

text \<open>One user of the loop: the entry, the leaves so far, and the user of each leaf's address.\<close>

definition place_leaf ::
  "hasher \<Rightarrow> RewardEntry \<Rightarrow> (string \<times> int) list \<times> (string \<times> int) list
     \<Rightarrow> merkle_error + (RewardEntry \<times> (string \<times> int) list \<times> (string \<times> int) list)" where
  "place_leaf h e acc =
     (case acc of (leaf_input, address_to_user) \<Rightarrow>
        if en_status e = ENTRY_CLAIMABLE \<and> truthy (en_claim_address e) then
          bindE (usd_to_base_units (en_amount_usd e) USDC_DECIMALS) (\<lambda>base_units.
            if 0 < base_units then
              bindE (h_to_checksum_address h (the (en_claim_address e))) (\<lambda>addr.
                let e' = e\<lparr>en_claim_address := Some addr\<rparr>
                in if addr \<in> fst ` set address_to_user then Inr (e', leaf_input, address_to_user)
                   else Inr (e', leaf_input @ [(addr, base_units)], address_to_user @ [(addr, en_user_id e)]))
            else Inr (e, leaf_input, address_to_user))
        else Inr (e, leaf_input, address_to_user))"

fun place_leaves ::
  "hasher \<Rightarrow> RewardEntry list \<Rightarrow> (string \<times> int) list \<times> (string \<times> int) list
     \<Rightarrow> merkle_error + (RewardEntry list \<times> (string \<times> int) list \<times> (string \<times> int) list)" where
  "place_leaves h [] acc = Inr ([], acc)"
| "place_leaves h (e # es) acc =
     bindE (place_leaf h e acc) (\<lambda>(e', acc'). bindE (place_leaves h es acc') (\<lambda>(es', acc''). Inr (e' # es', acc'')))"

text \<open>The leaf of an entry: the position of its address in the canonical order of the distribution.\<close>

definition set_leaf :: "MerkleDistribution \<Rightarrow> (string \<times> int) list \<Rightarrow> nat \<times> string \<times> int \<Rightarrow> RewardEntry list \<Rightarrow> RewardEntry list" where
  "set_leaf distr address_to_user leaf es =
     (case leaf of (k, addr, units) \<Rightarrow>
        upd_where (\<lambda>e. map_of address_to_user addr = Some (en_user_id e))
          (\<lambda>e. e\<lparr>en_leaf_index := Some k, en_amount_base_units := Some (int_str units), en_merkle_proof := Some (proof_hex distr k)\<rparr>) es)"

definition assign_leaves ::
  "hasher \<Rightarrow> (string \<times> int) list \<Rightarrow> (string \<times> int) list \<Rightarrow> RewardEntry list
     \<Rightarrow> merkle_error + (RewardEntry list \<times> string option)" where
  "assign_leaves h leaf_input address_to_user es =
     (if leaf_input = [] then Inr (es, None)
      else bindE (build_distribution h leaf_input) (\<lambda>distr.
           bindE (sorted_entries h leaf_input) (\<lambda>canonical.
             Inr (fold (set_leaf distr address_to_user) (enumerate 0 canonical) es, Some (root_hex distr)))))"

datatype finalize_reply =
  StillAccruing | AlreadyFinal epoch_status | NoActivity | Finalized nat pyfloat nat "string option"

text \<open>The entries of the users: the next primary keys, in the order of the user ids.\<close>

definition user_entries ::
  "RewardEpoch \<Rightarrow> (int \<times> pyfloat) list \<Rightarrow> (int \<times> pyfloat) list \<Rightarrow> int list \<Rightarrow> rewards_db \<Rightarrow> RewardEntry list" where
  "user_entries epoch fees carry user_ids db =
     (let base = next_id (map en_id (rd_entries db))
      in map (\<lambda>(k, uid). new_entry (base + int k) (ep_id epoch) uid (user_sum fees uid) (user_sum carry uid) (claim_address db uid))
           (enumerate 0 user_ids))"

definition store_entries ::
  "hasher \<Rightarrow> int \<Rightarrow> RewardEpoch \<Rightarrow> RewardEntry list \<Rightarrow> rewards_db \<Rightarrow> rewards_error + (finalize_reply \<times> rewards_db)" where
  "store_entries h now epoch es0 db =
     bindE (mapErr MerkleRaised (place_leaves h es0 ([], []))) (\<lambda>(es1, leaf_input, address_to_user).
     bindE (mapErr MerkleRaised (assign_leaves h leaf_input address_to_user es1)) (\<lambda>(es2, merkle_root).
       let payable = filter (\<lambda>e. en_status e = ENTRY_CLAIMABLE) es2;
           tot = fl_round6 (fl_sum (map en_amount_usd payable))
       in Inr (Finalized (length payable) tot (length leaf_input) merkle_root,
            upd_epoch (ep_id epoch)
              (\<lambda>e. e\<lparr>ep_merkle_root := (if leaf_input = [] then ep_merkle_root e else merkle_root),
                    ep_total_amount_usd := tot, ep_entry_count := int (length payable),
                    ep_status := EPOCH_FINALIZED, ep_finalized_at := Some now\<rparr>)
              (db\<lparr>rd_entries := rd_entries db @ es2\<rparr>))))"

definition finalize_accruing ::
  "hasher \<Rightarrow> int \<Rightarrow> RewardEpoch \<Rightarrow> rewards_db \<Rightarrow> rewards_error + (finalize_reply \<times> rewards_db)" where
  "finalize_accruing h now epoch db =
     (let index = ep_epoch_index epoch; (starts_at, ends_at) = epoch_window index;
          fees = fee_rows starts_at ends_at db; rows = carry_rows index db;
          carry = map (\<lambda>e. (en_user_id e, en_amount_usd e)) rows;
          user_ids = sort (remdups (map fst fees @ map fst carry))
      in bindE (if rows = [] then Inr db else roll_carryovers now rows db) (\<lambda>db1.
         if user_ids = [] then
           Inr (NoActivity, upd_epoch (ep_id epoch) (\<lambda>e. e\<lparr>ep_status := EPOCH_FINALIZED, ep_finalized_at := Some now\<rparr>) db1)
         else store_entries h now epoch (user_entries epoch fees carry user_ids db1) db1))"

text \<open>A raise rolls the whole transaction back.\<close>

definition finalize_epoch :: "hasher \<Rightarrow> int \<Rightarrow> int \<Rightarrow> rewards_db \<Rightarrow> (rewards_error + finalize_reply) \<times> rewards_db" where
  "finalize_epoch h index now db =
     (if now < snd (epoch_window index) then (Inr StillAccruing, db)
      else
        let (epoch, db0) = get_or_create_epoch index db
        in if ep_status epoch \<noteq> EPOCH_ACCRUING then (Inr (AlreadyFinal (ep_status epoch)), db0)
           else (case finalize_accruing h now epoch db0 of Inl e \<Rightarrow> (Inl e, db) | Inr (r, db') \<Rightarrow> (Inr r, db')))"

subsection \<open>Publishing\<close>

record publish_payload =
  pp_epoch_id :: int
  pp_merkle_root :: string
  pp_total_base_units :: int
  pp_suggested_deadline :: int

definition epoch_leaves :: "int \<Rightarrow> rewards_db \<Rightarrow> RewardEntry list" where
  "epoch_leaves i db = filter (\<lambda>e. en_epoch_id e = i \<and> en_leaf_index e \<noteq> None) (rd_entries db)"

definition leaf_units :: "RewardEntry \<Rightarrow> int option" where
  "leaf_units e = (case en_amount_base_units e of Some s \<Rightarrow> py_int s | None \<Rightarrow> None)"

definition get_publish_payload :: "int \<Rightarrow> int \<Rightarrow> rewards_db \<Rightarrow> string + publish_payload option" where
  "get_publish_payload index now db =
     (case find_epoch index db of
        None \<Rightarrow> Inr None
      | Some p \<Rightarrow>
          if ep_status p \<noteq> EPOCH_FINALIZED \<or> \<not> truthy (ep_merkle_root p) then Inr None
          else
            let units = map leaf_units (epoch_leaves (ep_id p) db)
            in if None \<in> set units then Inl ''TypeError''
               else Inr (Some \<lparr>pp_epoch_id = ep_epoch_index p, pp_merkle_root = the (ep_merkle_root p),
                       pp_total_base_units = sum_list (map the units), pp_suggested_deadline = now + DEFAULT_CLAIM_WINDOW\<rparr>))"

definition mark_published :: "int \<Rightarrow> string \<Rightarrow> int \<Rightarrow> int \<Rightarrow> rewards_db \<Rightarrow> nat option \<times> rewards_db" where
  "mark_published index tx_hash deadline now db =
     (case find_epoch index db of
        None \<Rightarrow> (None, db)
      | Some p \<Rightarrow>
          if ep_status p \<noteq> EPOCH_FINALIZED then (None, db)
          else
            let P = (\<lambda>e. en_epoch_id e = ep_id p \<and> en_status e = ENTRY_CLAIMABLE \<and> en_leaf_index e \<noteq> None)
            in (Some (length (filter P (rd_entries db))),
                upd_epoch (ep_id p)
                  (\<lambda>e. e\<lparr>ep_status := EPOCH_PUBLISHED, ep_published_tx_hash := Some tx_hash, ep_published_at := Some now,
                        ep_claim_deadline := Some deadline\<rparr>)
                  (db\<lparr>rd_entries := upd_where P (\<lambda>e. e\<lparr>en_status := ENTRY_ONCHAIN\<rparr>) (rd_entries db)\<rparr>)))"

subsection \<open>Settlement\<close>

definition custodially_settleable :: "int \<Rightarrow> int \<Rightarrow> rewards_db \<Rightarrow> RewardEntry list" where
  "custodially_settleable uid now db =
     filter (\<lambda>e. en_user_id e = uid \<and>
        (case epoch_of e db of
           None \<Rightarrow> False
         | Some p \<Rightarrow> en_status e = ENTRY_CLAIMABLE \<or>
             en_status e = ENTRY_ONCHAIN \<and> (case ep_claim_deadline p of Some d \<Rightarrow> d < now | None \<Rightarrow> False))) (rd_entries db)"

text \<open>
  \<open>credit_custodial\<close> in its sections: the statuses are flipped and committed, then the balance
  is credited, and on an exception the statuses are put back.
\<close>

definition credit_begin :: "int \<Rightarrow> int \<Rightarrow> rewards_db \<Rightarrow> (pyfloat \<times> (int \<times> entry_status) list \<times> rewards_db) option" where
  "credit_begin uid now db =
     (let eligible = custodially_settleable uid now db
      in if eligible = [] then None
         else Some (fl_round6 (fl_sum (map en_amount_usd eligible)), map (\<lambda>e. (en_id e, en_status e)) eligible,
            db\<lparr>rd_entries := upd_where (\<lambda>e. en_id e \<in> en_id ` set eligible)
              (\<lambda>e. e\<lparr>en_status := ENTRY_CREDITED, en_settled_at := Some now\<rparr>) (rd_entries db)\<rparr>))"

definition credit_balance :: "token_registry \<Rightarrow> int \<Rightarrow> pyfloat \<Rightarrow> ledger \<Rightarrow> bool \<times> ledger" where
  "credit_balance reg uid tot lg =
     (case dec_parse (fl_repr tot) of
        None \<Rightarrow> (False, lg)
      | Some amount \<Rightarrow>
          (case update_custodial_balance reg uid ''base'' ''USDC'' amount OpAdd lg of
             (Inl _, lg') \<Rightarrow> (False, lg')
           | (Inr _, lg') \<Rightarrow> (True, lg')))"

definition credit_restore :: "(int \<times> entry_status) list \<Rightarrow> rewards_db \<Rightarrow> rewards_db" where
  "credit_restore prior db =
     db\<lparr>rd_entries := fold (\<lambda>(i, st). upd_where (\<lambda>e. en_id e = i) (\<lambda>e. e\<lparr>en_status := st, en_settled_at := None\<rparr>)) prior (rd_entries db)\<rparr>"

text \<open>\<open>lost\<close>: the credit was committed but its reply did not arrive, so the call raised.\<close>

definition credit_custodial ::
  "token_registry \<Rightarrow> int \<Rightarrow> int \<Rightarrow> bool \<Rightarrow> rewards_db \<Rightarrow> ledger \<Rightarrow> (bool \<times> pyfloat) \<times> rewards_db \<times> ledger" where
  "credit_custodial reg uid now lost db lg =
     (case credit_begin uid now db of
        None \<Rightarrow> ((False, Fin 0), db, lg)
      | Some (tot, prior, db1) \<Rightarrow>
          (case credit_balance reg uid tot lg of
             (credited, lg') \<Rightarrow>
               if credited \<and> \<not> lost then ((True, tot), db1, lg') else ((False, Fin 0), credit_restore prior db1, lg')))"

subsection \<open>Reconciliation with the contract\<close>

definition hex_val :: "char \<Rightarrow> nat option" where
  "hex_val c =
     (let n = of_char c :: nat in
      if 48 \<le> n \<and> n \<le> 57 then Some (n - 48) else if 97 \<le> n \<and> n \<le> 102 then Some (n - 87)
      else if 65 \<le> n \<and> n \<le> 70 then Some (n - 55) else None)"

fun fromhex :: "string \<Rightarrow> bytes option" where
  "fromhex [] = Some []"
| "fromhex (a # r) =
     (if is_space a then fromhex r
      else case r of
        [] \<Rightarrow> None
      | b # t \<Rightarrow> (case (hex_val a, hex_val b, fromhex t) of
                   (Some x, Some y, Some bs) \<Rightarrow> Some (of_nat (16 * x + y) # bs)
                 | _ \<Rightarrow> None))"

definition pending_onchain :: "int \<Rightarrow> rewards_db \<Rightarrow> (string option \<times> RewardEntry list) option" where
  "pending_onchain index db =
     (case find_epoch index db of
        None \<Rightarrow> None
      | Some p \<Rightarrow>
          if ep_status p \<noteq> EPOCH_PUBLISHED then None
          else Some (ep_merkle_root p, filter (\<lambda>e. en_epoch_id e = ep_id p \<and> en_status e = ENTRY_ONCHAIN \<and> en_leaf_index e \<noteq> None) (rd_entries db)))"

text \<open>Any exception while the stored proof is checked counts as a proof that does not verify.\<close>

definition stored_proof_ok :: "hasher \<Rightarrow> string option \<Rightarrow> RewardEntry \<Rightarrow> bool" where
  "stored_proof_ok h epoch_root e =
     (case (epoch_root, en_leaf_index e, en_claim_address e, leaf_units e, en_merkle_proof e) of
        (Some r, Some k, Some addr, Some units, Some hexes) \<Rightarrow>
          (case (fromhex (drop 2 r), those (map (\<lambda>x. fromhex (drop 2 x)) hexes)) of
             (Some rt, Some nodes) \<Rightarrow> verify_proof h rt (int k) addr units nodes = Inr True
           | _ \<Rightarrow> False)
      | _ \<Rightarrow> False)"

text \<open>\<open>claimed\<close>: what \<open>isClaimed(index, leaf_index)\<close> answered, \<open>None\<close> when the call failed.\<close>

definition reconcile_row ::
  "hasher \<Rightarrow> int \<Rightarrow> string option \<Rightarrow> bool option \<Rightarrow> RewardEntry \<Rightarrow> rewards_db \<Rightarrow> bool \<times> rewards_db" where
  "reconcile_row h now epoch_root claimed e db =
     (if \<not> stored_proof_ok h epoch_root e \<or> claimed \<noteq> Some True then (False, db)
      else
        let P = (\<lambda>x. en_id x = en_id e \<and> en_status x = ENTRY_ONCHAIN)
        in (\<exists>x\<in>set (rd_entries db). P x,
            db\<lparr>rd_entries := upd_where P (\<lambda>x. x\<lparr>en_status := ENTRY_CLAIMED_ONCHAIN, en_settled_at := Some now\<rparr>) (rd_entries db)\<rparr>))"

fun reconcile_rows ::
  "hasher \<Rightarrow> int \<Rightarrow> string option \<Rightarrow> (nat \<Rightarrow> bool option) \<Rightarrow> RewardEntry list \<Rightarrow> rewards_db \<Rightarrow> (int \<times> pyfloat) list \<times> rewards_db" where
  "reconcile_rows h now rt claimed [] db = ([], db)"
| "reconcile_rows h now rt claimed (e # es) db =
     (case reconcile_row h now rt (claimed (the (en_leaf_index e))) e db of
        (ok, db1) \<Rightarrow>
          (case reconcile_rows h now rt claimed es db1 of
             (settled, db2) \<Rightarrow> ((if ok then [(en_user_id e, en_amount_usd e)] else []) @ settled, db2)))"

definition reconcile_onchain ::
  "hasher \<Rightarrow> int \<Rightarrow> int \<Rightarrow> (nat \<Rightarrow> bool option) \<Rightarrow> rewards_db \<Rightarrow> (int \<times> pyfloat) list option \<times> rewards_db" where
  "reconcile_onchain h index now claimed db =
     (case pending_onchain index db of
        None \<Rightarrow> (None, db)
      | Some (rt, pending) \<Rightarrow> (case reconcile_rows h now rt claimed pending db of (settled, db') \<Rightarrow> (Some settled, db')))"

subsection \<open>Summary\<close>

record RewardsSummary =
  sm_accruing_usd :: pyfloat
  sm_accruing_epoch_index :: int
  sm_accruing_ends_at :: int
  sm_claimable_usd :: pyfloat
  sm_onchain_usd :: pyfloat
  sm_lifetime_usd :: pyfloat
  sm_carryover_usd :: pyfloat

definition summary_bucket :: "int \<Rightarrow> rewards_db \<Rightarrow> RewardEntry \<Rightarrow> nat" where
  "summary_bucket now db e =
     (let passed = (case epoch_of e db of Some p \<Rightarrow> (case ep_claim_deadline p of Some d \<Rightarrow> d < now | None \<Rightarrow> False) | None \<Rightarrow> False)
      in if en_status e = ENTRY_CLAIMABLE \<or> en_status e = ENTRY_ONCHAIN \<and> passed then 0
         else if en_status e = ENTRY_ONCHAIN then 1
         else if en_status e = ENTRY_CREDITED \<or> en_status e = ENTRY_CLAIMED_ONCHAIN then 2
         else if en_status e = ENTRY_CARRYOVER then 3 else 4)"

definition get_user_summary :: "int \<Rightarrow> int \<Rightarrow> rewards_db \<Rightarrow> RewardsSummary" where
  "get_user_summary uid now db =
     (let index = epoch_index_for now; (starts_at, ends_at) = epoch_window index;
          rows = sort_key (\<lambda>e. - (case epoch_of e db of Some p \<Rightarrow> ep_epoch_index p | None \<Rightarrow> 0))
                   (filter (\<lambda>e. en_user_id e = uid \<and> epoch_of e db \<noteq> None) (rd_entries db));
          bucket = (\<lambda>b. fl_round6 (foldl fl_add (Fin 0) (map en_amount_usd (filter (\<lambda>e. summary_bucket now db e = b) rows))))
      in \<lparr>sm_accruing_usd = fl_round6 (fl_mul (user_sum (fee_rows starts_at ends_at db) uid) CASHBACK_RATE),
          sm_accruing_epoch_index = index, sm_accruing_ends_at = ends_at,
          sm_claimable_usd = bucket 0, sm_onchain_usd = bucket 1, sm_lifetime_usd = bucket 2, sm_carryover_usd = bucket 3\<rparr>)"

end
