(* ===== verification/RewardTables.thy ===== *)
theory RewardTables
  imports OnchainRewards
begin

text \<open>
  The tables of the fee-cashback service stay well formed: what a finalization stores, which
  fields an operation may change, and that every stored leaf proof verifies against the root
  of its epoch.
\<close>

subsection \<open>Texts read back\<close>

lemma hex_val_digit: "n < 16 \<Longrightarrow> hex_val (hex_digit n) = Some n \<and> \<not> is_space (hex_digit n)"
  by (auto simp: hex_val_def hex_digit_def digit_char_def is_space_def Let_def)

lemma fromhex_hex: "fromhex (hex b) = Some b"
proof (induction b)
  case (Cons w b)
  have "unat w < 256" using unsigned_less [of w] by simp
  then have "unat w div 16 < 16" by (simp add: less_mult_imp_div_less)
  moreover have "unat w mod 16 < 16" by simp
  ultimately show ?case using Cons hex_val_digit [of "unat w div 16"] hex_val_digit [of "unat w mod 16"]
    by (simp add: hex_def)
qed (simp add: hex_def)

lemma digits_no_space: "list_all is_digit s \<Longrightarrow> strip s = s"
proof -
  assume a: "list_all is_digit s"
  have d: "list_all is_digit t \<Longrightarrow> dropWhile is_space t = t" for t
    by (cases t) (auto simp: is_digit_not_space)
  have "list_all is_digit (rev s)" using a by (simp add: list_all_iff)
  with d [OF a] d [of "rev s"] show "strip s = s" by (simp add: strip_def)
qed

lemma py_int_str: "0 \<le> n \<Longrightarrow> py_int (int_str n) = Some n"
proof -
  assume n: "0 \<le> n"
  let ?s = "nat_digits (nat n)"
  obtain c r where s: "?s = c # r" using nat_digits_not_Nil by (cases ?s) auto
  have "is_digit c" using nat_digits_all_digits [of "nat n"] s by simp
  then have "c \<noteq> CHR ''-'' \<and> c \<noteq> CHR ''+''" by (auto simp: is_digit_def)
  moreover have "list_all is_digit (c # r)" using list_all_nat_digits [of "nat n"] s by simp
  ultimately show ?thesis
    using n digits_no_space [of ?s] digits_val_nat_digits [of "nat n"] s by (simp add: py_int_def int_str_def)
qed

subsection \<open>The invariant of the tables\<close>

definition leaf_ok :: "hasher \<Rightarrow> RewardEpoch \<Rightarrow> RewardEntry \<Rightarrow> bool" where
  "leaf_ok h p e \<longleftrightarrow>
     (en_leaf_index e \<noteq> None \<longrightarrow> stored_proof_ok h (ep_merkle_root p) e) \<and>
     (en_status e = ENTRY_ONCHAIN \<longrightarrow> ep_status p \<noteq> EPOCH_FINALIZED)"

definition rewards_inv :: "hasher \<Rightarrow> rewards_db \<Rightarrow> bool" where
  "rewards_inv h db \<longleftrightarrow>
     distinct (map ep_id (rd_epochs db)) \<and> distinct (map ep_epoch_index (rd_epochs db)) \<and>
     distinct (map en_id (rd_entries db)) \<and> distinct (map (\<lambda>e. (en_epoch_id e, en_user_id e)) (rd_entries db)) \<and>
     (\<forall>e\<in>set (rd_entries db). \<exists>p\<in>set (rd_epochs db).
        ep_id p = en_epoch_id e \<and> ep_status p \<noteq> EPOCH_ACCRUING \<and> leaf_ok h p e)"

subsection \<open>Placing the leaves\<close>

lemma place_leafE:
  assumes "place_leaf h e (li, own) = Inr (e', li', own')"
  obtains (none) "e' = e \<or> (\<exists>a. e' = e\<lparr>en_claim_address := Some a\<rparr>)" "li' = li" "own' = own"
    | (leaf) a n where "e' = e\<lparr>en_claim_address := Some a\<rparr>" "li' = li @ [(a, n)]" "own' = own @ [(a, en_user_id e)]"
        "0 < n" "a \<notin> fst ` set own" "usd_to_base_units (en_amount_usd e) USDC_DECIMALS = Inr n"
        "en_status e = ENTRY_CLAIMABLE"
proof (cases "en_status e = ENTRY_CLAIMABLE \<and> truthy (en_claim_address e)")
  case False
  with assms have "e' = e" "li' = li" "own' = own" by (simp_all add: place_leaf_def)
  with none show ?thesis by simp
next
  case True
  with assms obtain n where n: "usd_to_base_units (en_amount_usd e) USDC_DECIMALS = Inr n"
    by (cases "usd_to_base_units (en_amount_usd e) USDC_DECIMALS") (simp_all add: place_leaf_def)
  show ?thesis
  proof (cases "0 < n")
    case False
    with True n assms have "e' = e" "li' = li" "own' = own" by (simp_all add: place_leaf_def)
    with none show ?thesis by simp
  next
    case pos: True
    with True n assms obtain a where a: "h_to_checksum_address h (the (en_claim_address e)) = Inr a"
      by (cases "h_to_checksum_address h (the (en_claim_address e))") (simp_all add: place_leaf_def)
    let ?e = "e\<lparr>en_claim_address := Some a\<rparr>"
    show ?thesis
    proof (cases "a \<in> fst ` set own")
      case True
      with \<open>en_status e = _ \<and> _\<close> pos n a assms have "e' = ?e" "li' = li" "own' = own" by (simp_all add: place_leaf_def Let_def)
      with none show ?thesis by blast
    next
      case False
      with True pos n a assms have "e' = ?e" "li' = li @ [(a, n)]" "own' = own @ [(a, en_user_id e)]"
        by (simp_all add: place_leaf_def Let_def)
      with leaf pos n True False show ?thesis by blast
    qed
  qed
qed

definition entry_terms :: "RewardEntry \<Rightarrow> int \<times> int \<times> int \<times> pyfloat \<times> entry_status \<times> nat option" where
  "entry_terms e = (en_id e, en_epoch_id e, en_user_id e, en_amount_usd e, en_status e, en_leaf_index e)"

lemma place_leaves_terms:
  "place_leaves h es (li, own) = Inr (es', li', own') \<Longrightarrow>
     map entry_terms es' = map entry_terms es \<and> (map fst li = map fst own \<longrightarrow> map fst li' = map fst own') \<and>
     (\<forall>x\<in>set li'. x \<in> set li \<or> 0 < snd x) \<and> (distinct (map fst own) \<longrightarrow> distinct (map fst own'))"
proof (induction es arbitrary: li own es' li' own')
  case (Cons e es)
  from Cons.prems obtain e1 li1 own1 es1 where
    p: "place_leaf h e (li, own) = Inr (e1, li1, own1)" "place_leaves h es (li1, own1) = Inr (es1, li', own')" "es' = e1 # es1"
    by (auto simp: bindE_eq_Inr)
  note IH = Cons.IH [OF p(2)]
  from p(1) show ?case
  proof (cases rule: place_leafE)
    case none
    then have "entry_terms e1 = entry_terms e" by (auto simp: entry_terms_def)
    with IH p(3) none show ?thesis by simp
  next
    case (leaf a n)
    then have "entry_terms e1 = entry_terms e" by (simp add: entry_terms_def)
    with IH p(3) leaf show ?thesis by auto
  qed
qed simp

text \<open>Whoever owns a leaf's address has that address in the entry.\<close>

lemma place_leaves_owner:
  "place_leaves h es (li, own) = Inr (es', li', own') \<Longrightarrow> (a, u) \<in> set own' \<Longrightarrow>
     (a, u) \<in> set own \<or> (\<exists>e\<in>set es'. en_user_id e = u \<and> en_claim_address e = Some a)"
proof (induction es arbitrary: li own es' li' own')
  case (Cons e es)
  from Cons.prems(1) obtain e1 li1 own1 es1 where
    p: "place_leaf h e (li, own) = Inr (e1, li1, own1)" "place_leaves h es (li1, own1) = Inr (es1, li', own')" "es' = e1 # es1"
    by (auto simp: bindE_eq_Inr)
  from Cons.IH [OF p(2) Cons.prems(2)]
  consider "(a, u) \<in> set own1" | "\<exists>e\<in>set es1. en_user_id e = u \<and> en_claim_address e = Some a" by blast
  then show ?case
  proof cases
    case 1
    from p(1) show ?thesis
    proof (cases rule: place_leafE)
      case none
      with 1 show ?thesis by simp
    next
      case (leaf b n)
      with 1 p(3) show ?thesis by auto
    qed
  next
    case 2
    with p(3) show ?thesis by auto
  qed
qed simp

definition has_leaf :: "MerkleDistribution \<Rightarrow> (string \<times> int) list \<Rightarrow> (nat \<times> string \<times> int) set \<Rightarrow> RewardEntry \<Rightarrow> bool" where
  "has_leaf distr own L e \<longleftrightarrow>
     en_leaf_index e = None \<or>
     (\<exists>k addr units. (k, addr, units) \<in> L \<and> en_leaf_index e = Some k \<and> en_amount_base_units e = Some (int_str units) \<and>
        en_merkle_proof e = Some (proof_hex distr k) \<and> map_of own addr = Some (en_user_id e))"

lemma set_leaf_has:
  assumes "\<forall>e\<in>set es. has_leaf distr own L e" and "leaf \<in> L"
  shows "\<forall>e\<in>set (set_leaf distr own leaf es). has_leaf distr own L e"
  using assms by (cases leaf) (auto simp: set_leaf_def set_upd_where has_leaf_def)

lemma fold_set_leaf_has:
  "\<forall>e\<in>set es. has_leaf distr own L e \<Longrightarrow> set leaves \<subseteq> L \<Longrightarrow> \<forall>e\<in>set (fold (set_leaf distr own) leaves es). has_leaf distr own L e"
proof (induction leaves arbitrary: es)
  case (Cons leaf leaves)
  have "\<forall>e\<in>set (set_leaf distr own leaf es). has_leaf distr own L e"
    by (rule set_leaf_has) (use Cons.prems in auto)
  with Cons.IH Cons.prems(2) show ?case by simp
qed simp

lemma set_leaf_keeps:
  assumes "\<And>e k u p. g (e\<lparr>en_leaf_index := k, en_amount_base_units := u, en_merkle_proof := p\<rparr>) = g e"
  shows "map g (fold (set_leaf distr own) leaves es) = map g es"
proof (induction leaves arbitrary: es)
  case (Cons leaf leaves)
  have "map g (set_leaf distr own leaf es) = map g es"
    unfolding set_leaf_def by (cases leaf) (simp add: map_upd_where assms)
  with Cons show ?case by simp
qed simp

subsection \<open>The leaves of a finalized epoch\<close>

text \<open>What no operation changes once an entry is stored.\<close>

definition entry_fixed :: "RewardEntry \<Rightarrow> int \<times> int \<times> int \<times> pyfloat \<times> string option \<times> nat option \<times> string option \<times> string list option" where
  "entry_fixed e = (en_id e, en_epoch_id e, en_user_id e, en_amount_usd e, en_claim_address e, en_leaf_index e,
     en_amount_base_units e, en_merkle_proof e)"

lemma those_hex: "those (map (\<lambda>x. fromhex (drop 2 x)) (proof_hex d k)) = Some (md_proofs d ! k)"
proof -
  have "those (map (\<lambda>x. fromhex (drop 2 x)) (map (\<lambda>b. ''0x'' @ hex b) bs)) = Some bs" for bs
    by (induction bs) (simp_all add: fromhex_hex)
  then show ?thesis unfolding proof_hex_def .
qed

lemma leaf_proof_ok:
  assumes h: "sound_hasher h" and b: "build_distribution h li = Inr d" "sorted_entries h li = Inr cs"
    and e: "has_leaf d own (set (enumerate 0 cs)) e" "en_leaf_index e \<noteq> None"
    and a: "\<And>addr. map_of own addr = Some (en_user_id e) \<Longrightarrow> en_claim_address e = Some addr"
  shows "stored_proof_ok h (Some (root_hex d)) e"
proof -
  from e obtain k addr units where k: "(k, addr, units) \<in> set (enumerate 0 cs)" "en_leaf_index e = Some k"
    "en_amount_base_units e = Some (int_str units)" "en_merkle_proof e = Some (proof_hex d k)"
    "map_of own addr = Some (en_user_id e)"
    unfolding has_leaf_def by blast
  from k(1) have i: "k < length cs" "cs ! k = (addr, units)" by (auto simp: in_set_enumerate_eq)
  have "0 < units" using build_InrE(3) [OF b] nth_mem [OF i(1)] i(2) by fastforce
  then have u: "leaf_units e = Some units" by (simp add: leaf_units_def k(3) py_int_str)
  have "h_to_checksum_address h addr = Inr addr" using checksummed_entries [OF h b(2) i(1)] i(2) by simp
  then have v: "verify_proof h (md_root d) (int k) addr units (md_proofs d ! k) = Inr True"
    using built_proofs_verify [OF h b i(1), of addr] i(2) by simp
  have "fromhex (drop 2 (root_hex d)) = Some (md_root d)" by (simp add: root_hex_def fromhex_hex)
  with u v k a [OF k(5)] show ?thesis by (simp add: stored_proof_ok_def those_hex)
qed


definition entry_owner :: "RewardEntry \<Rightarrow> int \<times> int \<times> int \<times> pyfloat \<times> entry_status \<times> string option" where
  "entry_owner e = (en_id e, en_epoch_id e, en_user_id e, en_amount_usd e, en_status e, en_claim_address e)"

lemma assigned_leaves_ok:
  assumes h: "sound_hasher h"
    and pl: "place_leaves h es0 ([], []) = Inr (es1, li, own)" and al: "assign_leaves h li own es1 = Inr (es2, r)"
    and none: "\<forall>e\<in>set es0. en_leaf_index e = None" and dist: "distinct (map en_user_id es0)"
  shows "map entry_owner es2 = map entry_owner es1"
    and "\<forall>e\<in>set es2. en_leaf_index e \<noteq> None \<longrightarrow> li \<noteq> [] \<and> stored_proof_ok h r e"
proof -
  note T = place_leaves_terms [OF pl]
  have t: "map entry_terms es1 = map entry_terms es0" using T by blast
  have none1: "\<forall>e\<in>set es1. en_leaf_index e = None"
  proof
    fix e assume "e \<in> set es1"
    then have "entry_terms e \<in> set (map entry_terms es0)" unfolding t [symmetric] by simp
    then show "en_leaf_index e = None" using none by (auto simp: entry_terms_def)
  qed
  have u: "map en_user_id es1 = map en_user_id es0"
    using arg_cong [OF t, of "map (fst \<circ> snd \<circ> snd)"] by (simp add: comp_def entry_terms_def)
  have "map entry_owner es2 = map entry_owner es1 \<and> (\<forall>e\<in>set es2. en_leaf_index e \<noteq> None \<longrightarrow> li \<noteq> [] \<and> stored_proof_ok h r e)"
  proof (cases "li = []")
    case True
    with al none1 show ?thesis by (simp add: assign_leaves_def)
  next
    case False
    with al obtain d cs where b: "build_distribution h li = Inr d" "sorted_entries h li = Inr cs"
      and es2: "es2 = fold (set_leaf d own) (enumerate 0 cs) es1" "r = Some (root_hex d)"
      by (auto simp: assign_leaves_def bindE_eq_Inr)
    have o: "map entry_owner es2 = map entry_owner es1"
      unfolding es2 by (rule set_leaf_keeps) (simp add: entry_owner_def)
    have "\<forall>e\<in>set es1. has_leaf d own (set (enumerate 0 cs)) e" using none1 by (simp add: has_leaf_def)
    then have hl: "\<forall>e\<in>set es2. has_leaf d own (set (enumerate 0 cs)) e"
      unfolding es2 by (rule fold_set_leaf_has) simp
    have "stored_proof_ok h r e" if e: "e \<in> set es2" "en_leaf_index e \<noteq> None" for e
      unfolding es2
    proof (rule leaf_proof_ok [OF h b _ e(2)])
      show "has_leaf d own (set (enumerate 0 cs)) e" using hl e(1) by blast
      fix addr assume "map_of own addr = Some (en_user_id e)"
      then have "(addr, en_user_id e) \<in> set own" by (rule map_of_SomeD)
      from place_leaves_owner [OF pl this] obtain e1 where
        e1: "e1 \<in> set es1" "en_user_id e1 = en_user_id e" "en_claim_address e1 = Some addr" by auto
      have "entry_owner e \<in> set (map entry_owner es1)" unfolding o [symmetric] using e(1) by simp
      then obtain e2 where e2: "e2 \<in> set es1" "entry_owner e = entry_owner e2" by auto
      have "inj_on en_user_id (set es1)" using dist unfolding u [symmetric] distinct_map ..
      moreover have "en_user_id e1 = en_user_id e2" using e1(2) e2(2) by (simp add: entry_owner_def)
      ultimately have "e1 = e2" using e1(1) e2(1) by (rule inj_onD)
      with e1 e2 show "en_claim_address e = Some addr" by (simp add: entry_owner_def)
    qed
    with o False show ?thesis by blast
  qed
  then show "map entry_owner es2 = map entry_owner es1"
    "\<forall>e\<in>set es2. en_leaf_index e \<noteq> None \<longrightarrow> li \<noteq> [] \<and> stored_proof_ok h r e" by blast+
qed

subsection \<open>Operations keep the invariant\<close>

lemma rewards_invD:
  assumes "rewards_inv h db"
  shows "distinct (map ep_id (rd_epochs db))" "distinct (map ep_epoch_index (rd_epochs db))"
    "distinct (map en_id (rd_entries db))" "distinct (map (\<lambda>e. (en_epoch_id e, en_user_id e)) (rd_entries db))"
    "e \<in> set (rd_entries db) \<Longrightarrow> p \<in> set (rd_epochs db) \<Longrightarrow> ep_id p = en_epoch_id e \<Longrightarrow> ep_status p \<noteq> EPOCH_ACCRUING \<and> leaf_ok h p e"
    "e \<in> set (rd_entries db) \<Longrightarrow> en_epoch_id e \<in> ep_id ` set (rd_epochs db)"
proof -
  have i: "inj_on ep_id (set (rd_epochs db))" using assms by (simp add: rewards_inv_def distinct_map)
  have all: "\<forall>e\<in>set (rd_entries db). \<exists>p\<in>set (rd_epochs db). ep_id p = en_epoch_id e \<and> ep_status p \<noteq> EPOCH_ACCRUING \<and> leaf_ok h p e"
    using assms by (simp add: rewards_inv_def)
  show "e \<in> set (rd_entries db) \<Longrightarrow> p \<in> set (rd_epochs db) \<Longrightarrow> ep_id p = en_epoch_id e \<Longrightarrow> ep_status p \<noteq> EPOCH_ACCRUING \<and> leaf_ok h p e"
  proof -
    assume e: "e \<in> set (rd_entries db)" "p \<in> set (rd_epochs db)" "ep_id p = en_epoch_id e"
    from all e(1) obtain q where q: "q \<in> set (rd_epochs db)" "ep_id q = en_epoch_id e" "ep_status q \<noteq> EPOCH_ACCRUING \<and> leaf_ok h q e" by blast
    from i q(1) e(2) q(2) e(3) have "q = p" by (metis inj_onD)
    with q(3) show ?thesis by simp
  qed
  show "e \<in> set (rd_entries db) \<Longrightarrow> en_epoch_id e \<in> ep_id ` set (rd_epochs db)" using all by force
qed (use assms in \<open>simp_all add: rewards_inv_def\<close>)

text \<open>The fields of an epoch that only a status change keeps; and a status that may follow another.\<close>

definition epoch_advances :: "RewardEpoch \<Rightarrow> RewardEpoch \<Rightarrow> bool" where
  "epoch_advances p q \<longleftrightarrow> ep_id q = ep_id p \<and> ep_epoch_index q = ep_epoch_index p \<and>
     (ep_status p \<noteq> EPOCH_ACCRUING \<longrightarrow> ep_merkle_root q = ep_merkle_root p \<and> ep_status q \<noteq> EPOCH_ACCRUING \<and>
        (ep_status p \<noteq> EPOCH_FINALIZED \<longrightarrow> ep_status q \<noteq> EPOCH_FINALIZED))"

lemma stored_proof_fixed: "entry_fixed x = entry_fixed e \<Longrightarrow> stored_proof_ok h r x = stored_proof_ok h r e"
  by (simp add: entry_fixed_def stored_proof_ok_def leaf_units_def)

lemma entry_fixed_maps:
  assumes "map entry_fixed xs = map entry_fixed ys"
  shows "map en_id xs = map en_id ys" and "map (\<lambda>e. (en_epoch_id e, en_user_id e)) xs = map (\<lambda>e. (en_epoch_id e, en_user_id e)) ys"
proof -
  show "map en_id xs = map en_id ys" using arg_cong [OF assms, of "map fst"] by (simp add: comp_def entry_fixed_def)
  show "map (\<lambda>e. (en_epoch_id e, en_user_id e)) xs = map (\<lambda>e. (en_epoch_id e, en_user_id e)) ys"
    using arg_cong [OF assms, of "map (\<lambda>t. (fst (snd t), fst (snd (snd t))))"] by (simp add: comp_def entry_fixed_def)
qed

text \<open>Entries may change their status, epochs may advance, and entries may be added to an epoch that has none.\<close>

lemma rewards_inv_advance:
  assumes inv: "rewards_inv h db"
    and ep: "rd_epochs db' = map g (rd_epochs db)" "\<And>p. p \<in> set (rd_epochs db) \<Longrightarrow> epoch_advances p (g p)"
    and en: "rd_entries db' = map f (rd_entries db) @ es" "\<And>e. e \<in> set (rd_entries db) \<Longrightarrow> entry_fixed (f e) = entry_fixed e"
    and st: "\<And>e p. e \<in> set (rd_entries db) \<Longrightarrow> p \<in> set (rd_epochs db) \<Longrightarrow> ep_id p = en_epoch_id e \<Longrightarrow>
        en_status (f e) = ENTRY_ONCHAIN \<Longrightarrow> en_status e \<noteq> ENTRY_ONCHAIN \<Longrightarrow> ep_status (g p) \<noteq> EPOCH_FINALIZED"
    and new: "distinct (map en_id es)" "distinct (map en_user_id es)"
      "\<forall>e\<in>set es. en_id e \<notin> en_id ` set (rd_entries db) \<and> (\<exists>p\<in>set (rd_epochs db). ep_id p = en_epoch_id e \<and>
         ep_status p = EPOCH_ACCRUING \<and> ep_status (g p) \<noteq> EPOCH_ACCRUING \<and> leaf_ok h (g p) e)"
  shows "rewards_inv h db'"
proof -
  note I = rewards_invD [OF inv]
  have fx: "map entry_fixed (map f (rd_entries db)) = map entry_fixed (rd_entries db)" using en(2) by simp
  note F = entry_fixed_maps [OF fx]
  have g: "map ep_id (rd_epochs db') = map ep_id (rd_epochs db)" "map ep_epoch_index (rd_epochs db') = map ep_epoch_index (rd_epochs db)"
    using ep(2) by (simp_all add: ep(1) epoch_advances_def)
  have ids: "distinct (map en_id (rd_entries db'))"
  proof -
    have "en_id ` set (rd_entries db) \<inter> en_id ` set es = {}"
    proof (rule Int_emptyI)
      fix i assume i: "i \<in> en_id ` set (rd_entries db)" "i \<in> en_id ` set es"
      from i(2) obtain x where "x \<in> set es" "i = en_id x" by (rule imageE)
      with i(1) bspec [OF new(3)] show False by simp
    qed
    with I(3) new(1) show ?thesis unfolding en(1) map_append F(1) by simp
  qed
  have old: "\<exists>p\<in>set (rd_epochs db). ep_id p = en_epoch_id e \<and> ep_status p \<noteq> EPOCH_ACCRUING \<and> leaf_ok h p e" if "e \<in> set (rd_entries db)" for e
    using inv that by (simp add: rewards_inv_def)
  have sep: "en_epoch_id e \<noteq> en_epoch_id x" if "x \<in> set es" "e \<in> set (rd_entries db)" for x e
  proof -
    from new(3) that(1) obtain p where "p \<in> set (rd_epochs db)" "ep_id p = en_epoch_id x" "ep_status p = EPOCH_ACCRUING" by blast
    with I(5) [OF that(2)] show ?thesis by metis
  qed
  have np: "distinct (map (\<lambda>e. (en_epoch_id e, en_user_id e)) es)"
    using new(2) unfolding distinct_map inj_on_def by blast
  have pairs: "distinct (map (\<lambda>e. (en_epoch_id e, en_user_id e)) (rd_entries db'))"
  proof -
    have "(\<lambda>e. (en_epoch_id e, en_user_id e)) ` set (rd_entries db) \<inter> (\<lambda>e. (en_epoch_id e, en_user_id e)) ` set es = {}"
    proof (rule Int_emptyI)
      fix y assume "y \<in> (\<lambda>e. (en_epoch_id e, en_user_id e)) ` set (rd_entries db)" "y \<in> (\<lambda>e. (en_epoch_id e, en_user_id e)) ` set es"
      then show False by (elim imageE) (simp add: sep)
    qed
    with I(4) np show ?thesis unfolding en(1) map_append F(2) by simp
  qed
  have "\<exists>q\<in>set (rd_epochs db'). ep_id q = en_epoch_id e \<and> ep_status q \<noteq> EPOCH_ACCRUING \<and> leaf_ok h q e" if e: "e \<in> set (rd_entries db')" for e
  proof -
    from e en(1) consider x where "x \<in> set (rd_entries db)" "e = f x" | "e \<in> set es" by auto
    then show ?thesis
    proof cases
      case 1
      from old [OF 1(1)] obtain p where p: "p \<in> set (rd_epochs db)" "ep_id p = en_epoch_id x" "ep_status p \<noteq> EPOCH_ACCRUING" "leaf_ok h p x" by blast
      have fe: "entry_fixed e = entry_fixed x" using en(2) 1 by simp
      then have t: "en_epoch_id e = en_epoch_id x" "en_leaf_index e = en_leaf_index x" by (simp_all add: entry_fixed_def)
      have "leaf_ok h (g p) e"
        using p(3,4) ep(2) [OF p(1)] st [OF 1(1) p(1,2)] stored_proof_fixed [OF fe] t(2) 1(2)
        unfolding leaf_ok_def epoch_advances_def by metis
      with p ep t(1) show ?thesis by (force simp: epoch_advances_def)
    next
      case 2
      with new(3) ep show ?thesis by (force simp: epoch_advances_def)
    qed
  qed
  with ids pairs I(1,2) g show ?thesis by (simp add: rewards_inv_def)
qed

lemma get_or_create_keeps:
  assumes "rewards_inv h db" and "get_or_create_epoch index db = (p, db')"
  shows "rewards_inv h db'" and "p \<in> set (rd_epochs db')" and "ep_epoch_index p = index" and "rd_entries db' = rd_entries db"
    and "set (rd_epochs db) \<subseteq> set (rd_epochs db')"
    and "rd_fees db' = rd_fees db" and "rd_wallets db' = rd_wallets db"
proof -
  note I = rewards_invD [OF assms(1)]
  have "rewards_inv h db' \<and> p \<in> set (rd_epochs db') \<and> ep_epoch_index p = index \<and> rd_entries db' = rd_entries db \<and>
      rd_fees db' = rd_fees db \<and> rd_wallets db' = rd_wallets db \<and> set (rd_epochs db) \<subseteq> set (rd_epochs db')"
  proof (cases "find_epoch index db")
    case (Some q)
    with assms have "p = q" "db' = db" by (simp_all add: get_or_create_epoch_def)
    moreover have "q \<in> set (rd_epochs db)" "ep_epoch_index q = index"
      using Some by (auto simp: find_epoch_def find_Some_iff)
    ultimately show ?thesis using assms(1) by simp
  next
    case None
    with assms have p: "p = new_epoch index db" and db': "db' = db\<lparr>rd_epochs := rd_epochs db @ [p]\<rparr>"
      by (auto simp: get_or_create_epoch_def Let_def)
    have "ep_id p \<notin> ep_id ` set (rd_epochs db)"
      using next_id_fresh [of _ "map ep_id (rd_epochs db)"] unfolding p new_epoch_def by fastforce
    moreover have "index \<notin> ep_epoch_index ` set (rd_epochs db)" using None by (auto simp: find_epoch_def find_None_iff)
    moreover have i: "ep_epoch_index p = index" by (simp add: p new_epoch_def)
    moreover have "\<exists>q\<in>set (rd_epochs db). ep_id q = en_epoch_id e \<and> ep_status q \<noteq> EPOCH_ACCRUING \<and> leaf_ok h q e"
      if "e \<in> set (rd_entries db)" for e
      using assms(1) that by (simp add: rewards_inv_def)
    ultimately show ?thesis using I(1-4) unfolding db' rewards_inv_def by auto
  qed
  then show "rewards_inv h db'" "p \<in> set (rd_epochs db')" "ep_epoch_index p = index" "rd_entries db' = rd_entries db"
    "set (rd_epochs db) \<subseteq> set (rd_epochs db')"
    "rd_fees db' = rd_fees db" "rd_wallets db' = rd_wallets db" by blast+
qed

lemma enumerate_ids: "map (\<lambda>(k, u). base + int k) (enumerate n us) = map (\<lambda>k. base + int k) [n..<n + length us]"
  by (induction us arbitrary: n) (simp_all add: upt_conv_Cons del: upt_Suc)

lemma new_entries_terms:
  fixes base :: int
  assumes es_def: "es = map (\<lambda>(k, uid). new_entry (base + int k) i uid (a uid) (b uid) (c uid)) (enumerate 0 us)"
  shows "map en_id es = map (\<lambda>k. base + int k) [0..<length us]" and "map en_user_id es = us"
    and "\<forall>e\<in>set es. en_leaf_index e = None \<and> en_epoch_id e = i \<and> en_status e \<in> {ENTRY_CLAIMABLE, ENTRY_CARRYOVER} \<and> base \<le> en_id e"
proof -
  have "map en_id es = map (\<lambda>(k, u). base + int k) (enumerate 0 us)"
    unfolding es_def map_map by (rule map_cong) (auto simp: new_entry_def Let_def)
  also have "\<dots> = map (\<lambda>k. base + int k) [0..<length us]" using enumerate_ids [of base 0 us] by simp
  finally show "map en_id es = map (\<lambda>k. base + int k) [0..<length us]" .
  have "map en_user_id es = map snd (enumerate 0 us)"
    unfolding es_def map_map by (rule map_cong) (auto simp: new_entry_def Let_def)
  then show "map en_user_id es = us" by simp
  show "\<forall>e\<in>set es. en_leaf_index e = None \<and> en_epoch_id e = i \<and> en_status e \<in> {ENTRY_CLAIMABLE, ENTRY_CARRYOVER} \<and> base \<le> en_id e"
    unfolding es_def by (auto simp: new_entry_def Let_def split: if_splits)
qed

text \<open>The rows a successful finalization leaves: old entries rolled or kept, new entries with checked leaves, one epoch final.\<close>

definition rolled :: "int \<Rightarrow> RewardEntry \<Rightarrow> RewardEntry \<Rightarrow> bool" where
  "rolled now e x \<longleftrightarrow> x = e \<or> en_status e = ENTRY_CARRYOVER \<and> x = e\<lparr>en_status := ENTRY_ROLLED, en_settled_at := Some now\<rparr>"

lemma roll_carryovers_rolled:
  assumes "(if rows = [] then Inr db else roll_carryovers now rows db) = Inr db1"
  obtains f where "rd_entries db1 = map f (rd_entries db)" "\<And>e. rolled now e (f e)" "rd_epochs db1 = rd_epochs db"
proof (cases "rows = []")
  case True
  with assms show ?thesis by (intro that [of id]) (simp_all add: rolled_def)
next
  case False
  with assms obtain P where "db1 = db\<lparr>rd_entries := upd_where P (\<lambda>e. e\<lparr>en_status := ENTRY_ROLLED, en_settled_at := Some now\<rparr>) (rd_entries db)\<rparr>"
    and "\<And>e. P e \<Longrightarrow> en_status e = ENTRY_CARRYOVER"
    by (auto simp: roll_carryovers_def Let_def split: if_splits)
  then show ?thesis
    by (intro that [of "\<lambda>e. if P e then e\<lparr>en_status := ENTRY_ROLLED, en_settled_at := Some now\<rparr> else e"])
      (simp_all add: upd_where_def rolled_def)
qed

lemma rolled_fixed: "rolled now e x \<Longrightarrow> entry_fixed x = entry_fixed e \<and> (en_status x = ENTRY_ONCHAIN \<longrightarrow> en_status e = ENTRY_ONCHAIN)"
  by (auto simp: rolled_def entry_fixed_def)

lemma finalize_accruingD:
  assumes "finalize_accruing h now p db = Inr (reply, db')"
  obtains rows fees carry user_ids db1 where "(if rows = [] then Inr db else roll_carryovers now rows db) = Inr db1"
    "distinct user_ids"
    "user_ids = [] \<and> db' = upd_epoch (ep_id p) (\<lambda>e. e\<lparr>ep_status := EPOCH_FINALIZED, ep_finalized_at := Some now\<rparr>) db1 \<or>
     user_ids \<noteq> [] \<and> store_entries h now p (user_entries p fees carry user_ids db1) db1 = Inr (reply, db')"
proof -
  obtain s t where w: "epoch_window (ep_epoch_index p) = (s, t)" by fastforce
  let ?fees = "fee_rows s t db" and ?rows = "carry_rows (ep_epoch_index p) db"
  let ?carry = "map (\<lambda>e. (en_user_id e, en_amount_usd e)) ?rows"
  let ?us = "sort (remdups (map fst ?fees @ map fst ?carry))"
  from assms obtain db1 where r: "(if ?rows = [] then Inr db else roll_carryovers now ?rows db) = Inr db1"
    and k: "(if ?us = [] then Inr (NoActivity, upd_epoch (ep_id p) (\<lambda>e. e\<lparr>ep_status := EPOCH_FINALIZED, ep_finalized_at := Some now\<rparr>) db1)
         else store_entries h now p (user_entries p ?fees ?carry ?us db1) db1) = Inr (reply, db')"
    unfolding finalize_accruing_def Let_def w prod.case bindE_eq_Inr by blast
  have d: "distinct ?us" by simp
  have "?us = [] \<and> db' = upd_epoch (ep_id p) (\<lambda>e. e\<lparr>ep_status := EPOCH_FINALIZED, ep_finalized_at := Some now\<rparr>) db1 \<or>
     ?us \<noteq> [] \<and> store_entries h now p (user_entries p ?fees ?carry ?us db1) db1 = Inr (reply, db')"
    using k by (cases "?us = []") (simp_all only: if_True if_False sum.inject prod.inject simp_thms)
  then show ?thesis by (rule that [OF r d])
qed

lemma store_entriesE:
  assumes h: "sound_hasher h" and us: "distinct us"
    and st: "store_entries h now p (user_entries p fees carry us db) db = Inr (reply, db')"
  obtains g es where "rd_entries db' = rd_entries db @ es"
    "rd_epochs db' = map (\<lambda>q. if ep_id q = ep_id p then g q else q) (rd_epochs db)"
    "\<And>q. ep_id (g q) = ep_id q \<and> ep_epoch_index (g q) = ep_epoch_index q \<and> ep_status (g q) = EPOCH_FINALIZED"
    "distinct (map en_id es)" "distinct (map en_user_id es)"
    "\<forall>e\<in>set es. en_id e \<notin> en_id ` set (rd_entries db) \<and> en_epoch_id e = ep_id p \<and>
       en_status e \<in> {ENTRY_CLAIMABLE, ENTRY_CARRYOVER} \<and>
       (en_leaf_index e \<noteq> None \<longrightarrow> (\<forall>q. stored_proof_ok h (ep_merkle_root (g q)) e))"
proof -
  define es0 where "es0 = user_entries p fees carry us db"
  note U = new_entries_terms [OF es0_def [unfolded user_entries_def Let_def]]
  from st obtain es1 li own es2 mr tot n where
    pl: "place_leaves h es0 ([], []) = Inr (es1, li, own)" and al: "assign_leaves h li own es1 = Inr (es2, mr)"
    and db': "db' = upd_epoch (ep_id p)
            (\<lambda>e. e\<lparr>ep_merkle_root := (if li = [] then ep_merkle_root e else mr),
                  ep_total_amount_usd := tot, ep_entry_count := n,
                  ep_status := EPOCH_FINALIZED, ep_finalized_at := Some now\<rparr>)
            (db\<lparr>rd_entries := rd_entries db @ es2\<rparr>)"
    unfolding store_entries_def es0_def [symmetric] by (auto simp: bindE_eq_Inr mapErr_eq_Inr Let_def)
  have "\<forall>e\<in>set es0. en_leaf_index e = None" "distinct (map en_user_id es0)" using U us by auto
  note A = assigned_leaves_ok [OF h pl al this]
  have t1: "map entry_terms es1 = map entry_terms es0" using place_leaves_terms [OF pl] by blast
  let ?key = "\<lambda>e. (en_id e, en_epoch_id e, en_user_id e, en_status e)"
  have m: "map ?key es2 = map ?key es0"
    using arg_cong [OF A(1), of "map (\<lambda>(i, ep, u, a, s, c). (i, ep, u, s))"]
      arg_cong [OF t1, of "map (\<lambda>(i, ep, u, a, s, l). (i, ep, u, s))"]
    by (simp add: comp_def entry_owner_def entry_terms_def)
  have ids: "map en_id es2 = map en_id es0" and users: "map en_user_id es2 = us"
    using arg_cong [OF m, of "map fst"] arg_cong [OF m, of "map (\<lambda>(i, ep, u, s). u)"] U(2) by (simp_all add: comp_def)
  have new: "en_id e \<notin> en_id ` set (rd_entries db) \<and> en_epoch_id e = ep_id p \<and> en_status e \<in> {ENTRY_CLAIMABLE, ENTRY_CARRYOVER}"
    if "e \<in> set es2" for e
  proof -
    from that have "?key e \<in> set (map ?key es0)" unfolding m [symmetric] by simp
    then obtain x where x: "x \<in> set es0" "?key e = ?key x" by auto
    with U(3) have "next_id (map en_id (rd_entries db)) \<le> en_id e" "en_epoch_id e = ep_id p"
      "en_status e \<in> {ENTRY_CLAIMABLE, ENTRY_CARRYOVER}" by auto
    with next_id_fresh [of "en_id e" "map en_id (rd_entries db)"] show ?thesis by fastforce
  qed
  show ?thesis
  proof (rule that)
    show "rd_entries db' = rd_entries db @ es2" by (simp add: db' upd_epoch_def)
    show "rd_epochs db' = map (\<lambda>q. if ep_id q = ep_id p then q\<lparr>ep_merkle_root := (if li = [] then ep_merkle_root q else mr),
                  ep_total_amount_usd := tot, ep_entry_count := n, ep_status := EPOCH_FINALIZED, ep_finalized_at := Some now\<rparr> else q)
        (rd_epochs db)" by (simp add: db' upd_epoch_def upd_where_def)
    show "distinct (map en_id es2)" by (simp add: ids U(1) distinct_map inj_on_def)
    show "distinct (map en_user_id es2)" using users us by simp
  qed (use new A(2) in auto)
qed

lemma finalize_accruingE:
  assumes h: "sound_hasher h" and fin: "finalize_accruing h now p db = Inr (reply, db')"
  obtains f g es where "rd_entries db' = map f (rd_entries db) @ es" "\<And>e. rolled now e (f e)"
    "rd_epochs db' = map (\<lambda>q. if ep_id q = ep_id p then g q else q) (rd_epochs db)"
    "\<And>q. ep_id (g q) = ep_id q \<and> ep_epoch_index (g q) = ep_epoch_index q \<and> ep_status (g q) = EPOCH_FINALIZED"
    "distinct (map en_id es)" "distinct (map en_user_id es)"
    "\<forall>e\<in>set es. en_id e \<notin> en_id ` set (rd_entries db) \<and> en_epoch_id e = ep_id p \<and>
       en_status e \<in> {ENTRY_CLAIMABLE, ENTRY_CARRYOVER} \<and>
       (en_leaf_index e \<noteq> None \<longrightarrow> (\<forall>q. stored_proof_ok h (ep_merkle_root (g q)) e))"
proof -
  from fin obtain rows fees carry us db1 where r: "(if rows = [] then Inr db else roll_carryovers now rows db) = Inr db1"
    and us: "distinct us"
    and k: "us = [] \<and> db' = upd_epoch (ep_id p) (\<lambda>e. e\<lparr>ep_status := EPOCH_FINALIZED, ep_finalized_at := Some now\<rparr>) db1 \<or>
     us \<noteq> [] \<and> store_entries h now p (user_entries p fees carry us db1) db1 = Inr (reply, db')"
    by (rule finalize_accruingD)
  from r obtain f where f: "rd_entries db1 = map f (rd_entries db)" "\<And>e. rolled now e (f e)" "rd_epochs db1 = rd_epochs db"
    by (rule roll_carryovers_rolled) blast
  have ids: "en_id ` set (rd_entries db1) = en_id ` set (rd_entries db)"
  proof -
    have "en_id (f e) = en_id e" for e using rolled_fixed [OF f(2), of e] by (simp add: entry_fixed_def)
    then show ?thesis by (simp add: f(1) image_image)
  qed
  show ?thesis
  proof (cases "us = []")
    case True
    with k f show ?thesis
      by (intro that [of f "[]" "\<lambda>e. e\<lparr>ep_status := EPOCH_FINALIZED, ep_finalized_at := Some now\<rparr>"])
        (simp_all add: upd_epoch_def upd_where_def)
  next
    case False
    with k have st: "store_entries h now p (user_entries p fees carry us db1) db1 = Inr (reply, db')" by simp
    obtain es g where
      g: "rd_entries db' = rd_entries db1 @ es" "rd_epochs db' = map (\<lambda>q. if ep_id q = ep_id p then g q else q) (rd_epochs db1)"
        "\<And>q. ep_id (g q) = ep_id q \<and> ep_epoch_index (g q) = ep_epoch_index q \<and> ep_status (g q) = EPOCH_FINALIZED"
      and es: "distinct (map en_id es)" "distinct (map en_user_id es)"
        "\<forall>e\<in>set es. en_id e \<notin> en_id ` set (rd_entries db1) \<and> en_epoch_id e = ep_id p \<and>
       en_status e \<in> {ENTRY_CLAIMABLE, ENTRY_CARRYOVER} \<and>
       (en_leaf_index e \<noteq> None \<longrightarrow> (\<forall>q. stored_proof_ok h (ep_merkle_root (g q)) e))"
      by (rule store_entriesE [OF h us st]) (rule that; assumption)
    show ?thesis
      by (rule that [OF g(1) [unfolded f(1)] f(2) g(2) [unfolded f(3)] g(3) es(1,2) es(3) [unfolded ids]])
  qed
qed

subsection \<open>Each operation\<close>

text \<open>
  What an operation does to the entries that were there: \<open>T i a b\<close> holds of an entry with primary
  key \<open>i\<close> whose status was \<open>a\<close> and is \<open>b\<close>.  An ONCHAIN status is only given to an entry of an epoch that is no longer final.
\<close>

definition moves :: "hasher \<Rightarrow> (int \<Rightarrow> entry_status \<Rightarrow> entry_status \<Rightarrow> bool) \<Rightarrow> rewards_db \<Rightarrow> rewards_db \<Rightarrow> bool" where
  "moves h T db db' \<longleftrightarrow> (rewards_inv h db \<longrightarrow> rewards_inv h db') \<and>
     en_id ` set (rd_entries db) \<subseteq> en_id ` set (rd_entries db') \<and>
     (\<forall>p\<in>set (rd_epochs db). \<exists>q\<in>set (rd_epochs db'). epoch_advances p q) \<and>
     (\<forall>x\<in>set (rd_entries db'). en_id x \<in> en_id ` set (rd_entries db) \<longrightarrow>
        (\<exists>e\<in>set (rd_entries db). entry_fixed x = entry_fixed e \<and> (en_status x = en_status e \<or> T (en_id e) (en_status e) (en_status x))))"

lemma moves_refl: "moves h T db db"
  unfolding moves_def by (auto simp: epoch_advances_def)

lemma entry_fixed_id: "entry_fixed x = entry_fixed e \<Longrightarrow> en_id x = en_id e \<and> en_epoch_id x = en_epoch_id e"
  by (simp add: entry_fixed_def)

lemma moves_advance:
  assumes ep: "rd_epochs db' = map g (rd_epochs db)" "\<And>p. p \<in> set (rd_epochs db) \<Longrightarrow> epoch_advances p (g p)"
    and en: "rd_entries db' = map f (rd_entries db)" "\<And>e. e \<in> set (rd_entries db) \<Longrightarrow> entry_fixed (f e) = entry_fixed e"
    and st: "\<And>e. e \<in> set (rd_entries db) \<Longrightarrow> en_status (f e) = en_status e \<or> T (en_id e) (en_status e) (en_status (f e))"
    and on: "\<And>e p. e \<in> set (rd_entries db) \<Longrightarrow> p \<in> set (rd_epochs db) \<Longrightarrow> ep_id p = en_epoch_id e \<Longrightarrow>
        en_status (f e) = ENTRY_ONCHAIN \<Longrightarrow> en_status e \<noteq> ENTRY_ONCHAIN \<Longrightarrow> ep_status (g p) \<noteq> EPOCH_FINALIZED"
  shows "moves h T db db'"
  unfolding moves_def
proof (intro conjI impI ballI)
  show "rewards_inv h db'" if "rewards_inv h db"
    by (rule rewards_inv_advance [OF that ep, where f = f and es = "[]"]) (use en on in auto)
  have "en_id (f e) = en_id e" if "e \<in> set (rd_entries db)" for e using entry_fixed_id [OF en(2) [OF that]] by simp
  then show "en_id ` set (rd_entries db) \<subseteq> en_id ` set (rd_entries db')" by (force simp: en(1) image_image)
  show "\<exists>q\<in>set (rd_epochs db'). epoch_advances p q" if "p \<in> set (rd_epochs db)" for p using ep that by auto
  fix x assume "x \<in> set (rd_entries db')"
  then obtain e where "e \<in> set (rd_entries db)" "x = f e" using en(1) by auto
  with en(2) st show "\<exists>e\<in>set (rd_entries db). entry_fixed x = entry_fixed e \<and> (en_status x = en_status e \<or> T (en_id e) (en_status e) (en_status x))"
    by blast
qed

lemma finalize_accruing_moves:
  assumes h: "sound_hasher h" and inv: "rewards_inv h db" and p: "p \<in> set (rd_epochs db)" "ep_status p = EPOCH_ACCRUING"
    and fin: "finalize_accruing h now p db = Inr (reply, db')"
  shows "moves h (\<lambda>i a b. a = ENTRY_CARRYOVER \<and> b = ENTRY_ROLLED) db db'"
proof -
  obtain f g es where F: "rd_entries db' = map f (rd_entries db) @ es" "\<And>e. rolled now e (f e)"
    "rd_epochs db' = map (\<lambda>q. if ep_id q = ep_id p then g q else q) (rd_epochs db)"
    "\<And>q. ep_id (g q) = ep_id q \<and> ep_epoch_index (g q) = ep_epoch_index q \<and> ep_status (g q) = EPOCH_FINALIZED"
    "distinct (map en_id es)" "distinct (map en_user_id es)"
    and new: "\<forall>e\<in>set es. en_id e \<notin> en_id ` set (rd_entries db) \<and> en_epoch_id e = ep_id p \<and>
       en_status e \<in> {ENTRY_CLAIMABLE, ENTRY_CARRYOVER} \<and>
       (en_leaf_index e \<noteq> None \<longrightarrow> (\<forall>q. stored_proof_ok h (ep_merkle_root (g q)) e))"
    by (rule finalize_accruingE [OF h fin]) (rule that; assumption)
  let ?g = "\<lambda>q. if ep_id q = ep_id p then g q else q"
  have adv: "epoch_advances q (?g q)" if q: "q \<in> set (rd_epochs db)" for q
  proof (cases "ep_id q = ep_id p")
    case True
    with rewards_invD(1) [OF inv] q p have "q = p" by (auto simp: distinct_map inj_on_def)
    with p(2) F(4) show ?thesis by (simp add: epoch_advances_def)
  qed (simp add: epoch_advances_def)
  have nw: "en_id e \<notin> en_id ` set (rd_entries db) \<and> (\<exists>q\<in>set (rd_epochs db). ep_id q = en_epoch_id e \<and>
       ep_status q = EPOCH_ACCRUING \<and> ep_status (?g q) \<noteq> EPOCH_ACCRUING \<and> leaf_ok h (?g q) e)" if e: "e \<in> set es" for e
  proof -
    from new e have "en_id e \<notin> en_id ` set (rd_entries db)" "en_epoch_id e = ep_id p" "leaf_ok h (g p) e"
      by (auto simp: leaf_ok_def)
    with p F(4) [of p] show ?thesis by (auto intro!: bexI [of _ p])
  qed
  have fx: "entry_fixed (f e) = entry_fixed e" "en_status (f e) = ENTRY_ONCHAIN \<Longrightarrow> en_status e = ENTRY_ONCHAIN" for e
    using rolled_fixed [OF F(2), of e] by auto
  show ?thesis
    unfolding moves_def
  proof (intro conjI impI ballI)
    show "rewards_inv h db'"
      by (rule rewards_inv_advance [OF inv F(3) adv F(1) fx(1) _ F(5,6)]) (use fx(2) nw in blast)+
    show "en_id ` set (rd_entries db) \<subseteq> en_id ` set (rd_entries db')"
      using entry_fixed_id [OF fx(1)] by (simp add: F(1) image_Un image_image)
    show "\<exists>q'\<in>set (rd_epochs db'). epoch_advances q q'" if "q \<in> set (rd_epochs db)" for q
      using adv [OF that] imageI [OF that, of ?g] unfolding F(3) set_map by (rule bexI)
    fix x assume x: "x \<in> set (rd_entries db')" "en_id x \<in> en_id ` set (rd_entries db)"
    with F(1) new obtain e where "e \<in> set (rd_entries db)" "x = f e" by auto
    with fx(1) F(2) [of e] show "\<exists>e\<in>set (rd_entries db). entry_fixed x = entry_fixed e \<and>
        (en_status x = en_status e \<or> en_status e = ENTRY_CARRYOVER \<and> en_status x = ENTRY_ROLLED)"
      by (auto simp: rolled_def)
  qed
qed

lemma finalize_epoch_moves:
  assumes h: "sound_hasher h" and inv: "rewards_inv h db"
  shows "moves h (\<lambda>i a b. a = ENTRY_CARRYOVER \<and> b = ENTRY_ROLLED) db (snd (finalize_epoch h index now db))"
    (is "moves h ?T db ?db'")
proof -
  obtain p db0 where g: "get_or_create_epoch index db = (p, db0)" by fastforce
  note G = get_or_create_keeps [OF inv g]
  have step: "moves h ?T db db'" if "moves h ?T db0 db'" for db'
    using that G(1,4,5) unfolding moves_def by auto
  show ?thesis
  proof (cases "now < snd (epoch_window index) \<or> ep_status p \<noteq> EPOCH_ACCRUING")
    case True
    then have "?db' = db \<or> ?db' = db0" by (auto simp: finalize_epoch_def g)
    then show ?thesis using step [OF moves_refl] moves_refl by metis
  next
    case False
    show ?thesis
    proof (cases "finalize_accruing h now p db0")
      case (Inl e)
      with False show ?thesis by (simp add: finalize_epoch_def g moves_refl)
    next
      case (Inr r)
      obtain reply db' where r: "r = (reply, db')" by fastforce
      from False have "moves h ?T db0 db'"
        by (intro finalize_accruing_moves [OF h G(1,2) _ Inr [unfolded r]]) simp
      with False Inr r step show ?thesis by (simp add: finalize_epoch_def g)
    qed
  qed
qed

lemma upd_entries_moves:
  assumes fx: "\<And>e. entry_fixed (f e) = entry_fixed e"
    and st: "\<And>e. e \<in> set (rd_entries db) \<Longrightarrow> P e \<Longrightarrow> T (en_id e) (en_status e) (en_status (f e))"
    and on: "\<And>e p. e \<in> set (rd_entries db) \<Longrightarrow> P e \<Longrightarrow> p \<in> set (rd_epochs db) \<Longrightarrow> ep_id p = en_epoch_id e \<Longrightarrow>
        en_status (f e) = ENTRY_ONCHAIN \<Longrightarrow> ep_status p \<noteq> EPOCH_FINALIZED"
  shows "moves h T db (db\<lparr>rd_entries := upd_where P f (rd_entries db)\<rparr>)"
proof (rule moves_advance [where g = id and f = "\<lambda>e. if P e then f e else e"])
  fix e p assume e: "e \<in> set (rd_entries db)" "p \<in> set (rd_epochs db)" "ep_id p = en_epoch_id e"
    "en_status (if P e then f e else e) = ENTRY_ONCHAIN" "en_status e \<noteq> ENTRY_ONCHAIN"
  from e(4,5) have "P e" "en_status (f e) = ENTRY_ONCHAIN" by (simp_all split: if_splits)
  from on [OF e(1) this(1) e(2,3) this(2)] show "ep_status (id p) \<noteq> EPOCH_FINALIZED" by simp
qed (use fx st in \<open>simp_all add: upd_where_def epoch_advances_def\<close>)

lemma mark_published_moves:
  assumes inv: "rewards_inv h db"
  shows "moves h (\<lambda>i a b. a = ENTRY_CLAIMABLE \<and> b = ENTRY_ONCHAIN) db (snd (mark_published index tx deadline now db))"
    (is "moves h ?T db ?db'")
proof (cases "find_epoch index db")
  case None
  then show ?thesis by (simp add: mark_published_def moves_refl)
next
  case (Some p)
  have p: "p \<in> set (rd_epochs db)" using Some by (auto simp: find_epoch_def find_Some_iff)
  show ?thesis
  proof (cases "ep_status p = EPOCH_FINALIZED")
    case False
    with Some show ?thesis by (simp add: mark_published_def moves_refl)
  next
    case True
    let ?P = "\<lambda>e. en_epoch_id e = ep_id p \<and> en_status e = ENTRY_CLAIMABLE \<and> en_leaf_index e \<noteq> None"
    let ?g = "\<lambda>e. if ep_id e = ep_id p then e\<lparr>ep_status := EPOCH_PUBLISHED, ep_published_tx_hash := Some tx, ep_published_at := Some now,
                        ep_claim_deadline := Some deadline\<rparr> else e"
    let ?f = "\<lambda>e. if ?P e then e\<lparr>en_status := ENTRY_ONCHAIN\<rparr> else e"
    have ep: "rd_epochs ?db' = map ?g (rd_epochs db)" and en: "rd_entries ?db' = map ?f (rd_entries db)"
      using Some True by (simp_all add: mark_published_def upd_epoch_def upd_where_def)
    have adv: "epoch_advances q (?g q)" for q by (simp add: epoch_advances_def)
    have fx: "entry_fixed (?f e) = entry_fixed e" for e by (simp add: entry_fixed_def)
    have st: "en_status (?f e) = en_status e \<or> ?T (en_id e) (en_status e) (en_status (?f e))" for e by simp
    have on: "ep_status (?g q) \<noteq> EPOCH_FINALIZED"
      if "ep_id q = en_epoch_id e" "en_status (?f e) = ENTRY_ONCHAIN" "en_status e \<noteq> ENTRY_ONCHAIN" for e q
      using that by (simp split: if_splits)
    show ?thesis by (rule moves_advance [OF ep adv en fx st on])
  qed
qed

lemma eligibleD:
  assumes "e \<in> set (custodially_settleable uid now db)"
  shows "e \<in> set (rd_entries db)" and "en_user_id e = uid" and "en_status e \<in> {ENTRY_CLAIMABLE, ENTRY_ONCHAIN}"
  using assms by (auto simp: custodially_settleable_def split: option.splits)

lemma credit_beginD:
  assumes "credit_begin uid now db = Some (tot, prior, db')"
  shows "map fst prior = map en_id (custodially_settleable uid now db)"
    and "(i, st) \<in> set prior \<Longrightarrow> \<exists>e\<in>set (rd_entries db). en_id e = i \<and> en_status e = st \<and> st \<in> {ENTRY_CLAIMABLE, ENTRY_ONCHAIN}"
    and "tot = fl_round6 (fl_sum (map en_amount_usd (custodially_settleable uid now db)))"
    and "db' = db\<lparr>rd_entries := upd_where (\<lambda>e. en_id e \<in> set (map fst prior))
              (\<lambda>e. e\<lparr>en_status := ENTRY_CREDITED, en_settled_at := Some now\<rparr>) (rd_entries db)\<rparr>"
proof -
  let ?el = "custodially_settleable uid now db"
  from assms have p: "prior = map (\<lambda>e. (en_id e, en_status e)) ?el" by (auto simp: credit_begin_def Let_def split: if_splits)
  show "map fst prior = map en_id ?el" by (simp add: p comp_def)
  show "\<exists>e\<in>set (rd_entries db). en_id e = i \<and> en_status e = st \<and> st \<in> {ENTRY_CLAIMABLE, ENTRY_ONCHAIN}" if "(i, st) \<in> set prior"
    using that eligibleD [of _ uid now db] by (force simp: p)
  from assms show "tot = fl_round6 (fl_sum (map en_amount_usd ?el))"
    "db' = db\<lparr>rd_entries := upd_where (\<lambda>e. en_id e \<in> set (map fst prior))
              (\<lambda>e. e\<lparr>en_status := ENTRY_CREDITED, en_settled_at := Some now\<rparr>) (rd_entries db)\<rparr>"
    by (auto simp: credit_begin_def Let_def p comp_def split: if_splits)
qed

lemma same_id:
  assumes "rewards_inv h db" and "e \<in> set (rd_entries db)" and "x \<in> set (rd_entries db)" and "en_id e = en_id x"
  shows "e = x"
  using rewards_invD(3) [OF assms(1)] assms(2-) by (metis distinct_map inj_onD)

lemma credit_begin_moves:
  assumes inv: "rewards_inv h db" and cb: "credit_begin uid now db = Some (tot, prior, db')"
  shows "moves h (\<lambda>i a b. i \<in> set (map fst prior) \<and> a \<in> {ENTRY_CLAIMABLE, ENTRY_ONCHAIN} \<and> b = ENTRY_CREDITED) db db'"
  unfolding credit_beginD(4) [OF cb]
proof (rule upd_entries_moves)
  fix e assume e: "e \<in> set (rd_entries db)" "en_id e \<in> set (map fst prior)"
  then have "en_id e \<in> en_id ` set (custodially_settleable uid now db)" using credit_beginD(1) [OF cb] by (metis set_map)
  then obtain x where x: "x \<in> set (custodially_settleable uid now db)" "en_id x = en_id e" by auto
  with same_id [OF inv _ e(1)] eligibleD [OF x(1)] have "en_status e \<in> {ENTRY_CLAIMABLE, ENTRY_ONCHAIN}" by metis
  with e(2) show "en_id e \<in> set (map fst prior) \<and> en_status e \<in> {ENTRY_CLAIMABLE, ENTRY_ONCHAIN} \<and>
      en_status (e\<lparr>en_status := ENTRY_CREDITED, en_settled_at := Some now\<rparr>) = ENTRY_CREDITED" by simp
qed (simp_all add: entry_fixed_def)

text \<open>The entries a restore may make ONCHAIN again.\<close>

definition restorable :: "rewards_db \<Rightarrow> int \<times> entry_status \<Rightarrow> bool" where
  "restorable db c \<longleftrightarrow> snd c \<in> {ENTRY_CLAIMABLE, ENTRY_ONCHAIN} \<and>
     (snd c = ENTRY_ONCHAIN \<longrightarrow> (\<forall>e\<in>set (rd_entries db). \<forall>p\<in>set (rd_epochs db).
        en_id e = fst c \<longrightarrow> ep_id p = en_epoch_id e \<longrightarrow> ep_status p \<noteq> EPOCH_FINALIZED))"

lemma credit_restore_Cons:
  "credit_restore ((i, st) # prior) db =
     credit_restore prior (db\<lparr>rd_entries := upd_where (\<lambda>e. en_id e = i) (\<lambda>e. e\<lparr>en_status := st, en_settled_at := None\<rparr>) (rd_entries db)\<rparr>)"
  by (simp add: credit_restore_def)

end
