(* ===== verification/RewardSystem.thy ===== *)
theory RewardSystem
  imports RewardTables
begin

text \<open>
  Finalizations, publications, custodial credits and reconciliations interleaved: an entry is
  credited at most once, and where a credit and a publication cross.
\<close>

lemma epoch_advances_trans: "epoch_advances p q \<Longrightarrow> epoch_advances q r \<Longrightarrow> epoch_advances p r"
  unfolding epoch_advances_def by metis

lemma movesE:
  assumes "moves h T db db'" and "x \<in> set (rd_entries db')" and "en_id x \<in> en_id ` set (rd_entries db)"
  obtains e where "e \<in> set (rd_entries db)" "entry_fixed x = entry_fixed e" "en_id e = en_id x"
    "en_status x = en_status e \<or> T (en_id e) (en_status e) (en_status x)"
proof -
  from assms obtain e where e: "e \<in> set (rd_entries db)" "entry_fixed x = entry_fixed e"
    "en_status x = en_status e \<or> T (en_id e) (en_status e) (en_status x)" by (auto simp: moves_def)
  with entry_fixed_id [OF e(2)] show ?thesis by (intro that) auto
qed

lemma moves_trans:
  assumes tr: "\<And>i a b c. T i a b \<Longrightarrow> T i b c \<Longrightarrow> T i a c" and m: "moves h T db db1" "moves h T db1 db2"
  shows "moves h T db db2"
  unfolding moves_def
proof (intro conjI impI ballI)
  show "rewards_inv h db2" if "rewards_inv h db" using that m by (simp add: moves_def)
  have s: "en_id ` set (rd_entries db) \<subseteq> en_id ` set (rd_entries db1)" "en_id ` set (rd_entries db1) \<subseteq> en_id ` set (rd_entries db2)"
    using m by (simp_all only: moves_def)
  then show "en_id ` set (rd_entries db) \<subseteq> en_id ` set (rd_entries db2)" by (rule subset_trans)
  fix p assume "p \<in> set (rd_epochs db)"
  with m(1) obtain q where q: "q \<in> set (rd_epochs db1)" "epoch_advances p q" by (auto simp: moves_def)
  with m(2) obtain r where "r \<in> set (rd_epochs db2)" "epoch_advances q r" by (auto simp: moves_def)
  with epoch_advances_trans [OF q(2)] show "\<exists>q\<in>set (rd_epochs db2). epoch_advances p q" by blast
next
  fix x assume x: "x \<in> set (rd_entries db2)" "en_id x \<in> en_id ` set (rd_entries db)"
  then have "en_id x \<in> en_id ` set (rd_entries db1)" using m(1) by (auto simp: moves_def)
  with x(1) m(2) obtain y where y: "y \<in> set (rd_entries db1)" "entry_fixed x = entry_fixed y"
    "en_status x = en_status y \<or> T (en_id y) (en_status y) (en_status x)" by (auto simp: moves_def)
  have i: "en_id y = en_id x" using entry_fixed_id [OF y(2)] by simp
  with x(2) y(1) m(1) obtain e where e: "e \<in> set (rd_entries db)" "entry_fixed y = entry_fixed e"
    "en_status y = en_status e \<or> T (en_id e) (en_status e) (en_status y)" unfolding moves_def by metis
  have "en_id e = en_id y" using entry_fixed_id [OF e(2)] by simp
  with y(3) e(3) tr have "en_status x = en_status e \<or> T (en_id e) (en_status e) (en_status x)" by metis
  with e(1,2) y(2) show "\<exists>e\<in>set (rd_entries db). entry_fixed x = entry_fixed e \<and>
      (en_status x = en_status e \<or> T (en_id e) (en_status e) (en_status x))" by metis
qed

lemma restorable_upd:
  assumes "restorable db c" and "\<And>e. entry_fixed (f e) = entry_fixed e"
  shows "restorable (db\<lparr>rd_entries := upd_where P f (rd_entries db)\<rparr>) c"
proof -
  have "en_id (f e) = en_id e \<and> en_epoch_id (f e) = en_epoch_id e" for e using entry_fixed_id [OF assms(2)] .
  with assms(1) show ?thesis by (auto simp: restorable_def set_upd_where)
qed

lemma credit_restore_moves:
  assumes "\<forall>c\<in>set prior. restorable db c" and "set (map fst prior) \<subseteq> I"
  shows "moves h (\<lambda>i a b. i \<in> I) db (credit_restore prior db)"
  using assms
proof (induction prior arbitrary: db)
  case Nil
  then show ?case by (simp add: credit_restore_def moves_refl)
next
  case (Cons c prior)
  obtain i st where c: "c = (i, st)" by fastforce
  let ?f = "\<lambda>e. e\<lparr>en_status := st, en_settled_at := None\<rparr>"
  let ?db1 = "db\<lparr>rd_entries := upd_where (\<lambda>e. en_id e = i) ?f (rd_entries db)\<rparr>"
  have fx: "entry_fixed (?f e) = entry_fixed e" for e by (simp add: entry_fixed_def)
  have "moves h (\<lambda>i a b. i \<in> I) db ?db1"
    by (rule upd_entries_moves) (use Cons.prems c fx in \<open>auto simp: restorable_def\<close>)
  moreover have "moves h (\<lambda>i a b. i \<in> I) ?db1 (credit_restore prior ?db1)"
    by (rule Cons.IH) (use Cons.prems restorable_upd [OF _ fx] in auto)
  ultimately have "moves h (\<lambda>i a b. i \<in> I) db (credit_restore prior ?db1)" by (rule moves_trans [rotated])
  then show ?case by (simp add: c credit_restore_Cons)
qed

lemma reconcile_row_moves:
  "moves h (\<lambda>i a b. a = ENTRY_ONCHAIN \<and> b = ENTRY_CLAIMED_ONCHAIN) db (snd (reconcile_row h now rt claimed e db))"
  by (auto simp: reconcile_row_def Let_def entry_fixed_def intro!: moves_refl upd_entries_moves)

subsection \<open>Interleaved sections\<close>

text \<open>
  The sections of \<open>credit_custodial\<close>, of any number of users and requests, interleave with the
  other operations and with the rows of a reconciliation, each of which was read earlier and is
  therefore arbitrary.  \<open>RCreditRaise\<close> is a payment whose database raised before
  anything was committed (a commit whose reply is lost is the subject of the last section); a
  process that dies leaves its call where it is.
\<close>

record credit_call =
  cc_user :: int
  cc_total :: pyfloat
  cc_prior :: "(int \<times> entry_status) list"
  cc_failed :: bool

record rewards_sys =
  rs_db :: rewards_db
  rs_ledger :: ledger
  rs_calls :: "credit_call list"
  rs_paid :: "int list"

datatype rewards_event =
    RFees "FeeTransaction list"
  | RWallets "Wallet list"
  | RFinalize int int
  | RPublish int string int int
  | RCreditBegin int int
  | RCreditPay nat
  | RCreditRaise nat
  | RCreditRestore nat
  | RReconcileRow int "string option" "bool option" RewardEntry

definition drop_call :: "nat \<Rightarrow> credit_call list \<Rightarrow> credit_call list" where
  "drop_call j cs = take j cs @ drop (Suc j) cs"

fun rewards_step :: "hasher \<Rightarrow> token_registry \<Rightarrow> rewards_event \<Rightarrow> rewards_sys \<Rightarrow> rewards_sys" where
  "rewards_step h reg (RFees fs) s = s\<lparr>rs_db := (rs_db s)\<lparr>rd_fees := fs\<rparr>\<rparr>"
| "rewards_step h reg (RWallets ws) s = s\<lparr>rs_db := (rs_db s)\<lparr>rd_wallets := ws\<rparr>\<rparr>"
| "rewards_step h reg (RFinalize index now) s = s\<lparr>rs_db := snd (finalize_epoch h index now (rs_db s))\<rparr>"
| "rewards_step h reg (RPublish index tx deadline now) s = s\<lparr>rs_db := snd (mark_published index tx deadline now (rs_db s))\<rparr>"
| "rewards_step h reg (RCreditBegin uid now) s =
     (case credit_begin uid now (rs_db s) of
        None \<Rightarrow> s
      | Some (tot, prior, db') \<Rightarrow>
          s\<lparr>rs_db := db', rs_calls := \<lparr>cc_user = uid, cc_total = tot, cc_prior = prior, cc_failed = False\<rparr> # rs_calls s\<rparr>)"
| "rewards_step h reg (RCreditPay j) s =
     (if j < length (rs_calls s) \<and> \<not> cc_failed (rs_calls s ! j) then
        (let c = rs_calls s ! j in
         case credit_balance reg (cc_user c) (cc_total c) (rs_ledger s) of
           (True, lg) \<Rightarrow> s\<lparr>rs_ledger := lg, rs_calls := drop_call j (rs_calls s), rs_paid := map fst (cc_prior c) @ rs_paid s\<rparr>
         | (False, lg) \<Rightarrow> s\<lparr>rs_ledger := lg, rs_calls := c\<lparr>cc_failed := True\<rparr> # drop_call j (rs_calls s)\<rparr>)
      else s)"
| "rewards_step h reg (RCreditRaise j) s =
     (if j < length (rs_calls s) \<and> \<not> cc_failed (rs_calls s ! j) then
        s\<lparr>rs_calls := (rs_calls s ! j)\<lparr>cc_failed := True\<rparr> # drop_call j (rs_calls s)\<rparr>
      else s)"
| "rewards_step h reg (RCreditRestore j) s =
     (if j < length (rs_calls s) \<and> cc_failed (rs_calls s ! j) then
        s\<lparr>rs_db := credit_restore (cc_prior (rs_calls s ! j)) (rs_db s), rs_calls := drop_call j (rs_calls s)\<rparr>
      else s)"
| "rewards_step h reg (RReconcileRow now rt claimed e) s = s\<lparr>rs_db := snd (reconcile_row h now rt claimed e (rs_db s))\<rparr>"

fun rewards_run :: "hasher \<Rightarrow> token_registry \<Rightarrow> rewards_event list \<Rightarrow> rewards_sys \<Rightarrow> rewards_sys" where
  "rewards_run h reg [] s = s"
| "rewards_run h reg (ev # evs) s = rewards_run h reg evs (rewards_step h reg ev s)"

text \<open>The entries some credit holds or has paid.\<close>

definition held :: "rewards_sys \<Rightarrow> int list" where
  "held s = concat (map (\<lambda>c. map fst (cc_prior c)) (rs_calls s)) @ rs_paid s"

definition rewards_sys_inv :: "hasher \<Rightarrow> rewards_sys \<Rightarrow> bool" where
  "rewards_sys_inv h s \<longleftrightarrow> rewards_inv h (rs_db s) \<and> distinct (held s) \<and> set (held s) \<subseteq> en_id ` set (rd_entries (rs_db s)) \<and>
     (\<forall>e\<in>set (rd_entries (rs_db s)). en_id e \<in> set (held s) \<longrightarrow> en_status e = ENTRY_CREDITED) \<and>
     (\<forall>c\<in>set (rs_calls s). \<forall>r\<in>set (cc_prior c). restorable (rs_db s) r)"

lemma restorable_moves:
  assumes "moves h T db db'" and "rewards_inv h db" and "restorable db c" and "fst c \<in> en_id ` set (rd_entries db)"
  shows "restorable db' c"
  unfolding restorable_def
proof (intro conjI impI ballI)
  show "snd c \<in> {ENTRY_CLAIMABLE, ENTRY_ONCHAIN}" using assms(3) by (simp add: restorable_def)
  fix x q assume c: "snd c = ENTRY_ONCHAIN" and x: "x \<in> set (rd_entries db')" "q \<in> set (rd_epochs db')" "en_id x = fst c" "ep_id q = en_epoch_id x"
  from x(1,3) assms(1,4) obtain e where e: "e \<in> set (rd_entries db)" "entry_fixed x = entry_fixed e" by (auto simp: moves_def)
  note ex = entry_fixed_id [OF e(2)]
  obtain p where p: "p \<in> set (rd_epochs db)" "ep_id p = en_epoch_id e" "ep_status p \<noteq> EPOCH_ACCRUING"
    using assms(2) e(1) by (auto simp: rewards_inv_def)
  from assms(3) c e(1) p(1,2) ex x(3) have f: "ep_status p \<noteq> EPOCH_FINALIZED" by (simp add: restorable_def)
  from assms(1) p(1) obtain q' where q': "q' \<in> set (rd_epochs db')" "epoch_advances p q'" by (auto simp: moves_def)
  have "rewards_inv h db'" using assms(1,2) by (simp add: moves_def)
  from rewards_invD(1) [OF this] have "inj_on ep_id (set (rd_epochs db'))" by (simp add: distinct_map)
  moreover have "ep_id q' = ep_id q" using q'(2) p(2) x(4) ex by (simp add: epoch_advances_def)
  ultimately have "q' = q" using q'(1) x(2) by (metis inj_onD)
  with q'(2) p(3) f show "ep_status q \<noteq> EPOCH_FINALIZED" by (simp add: epoch_advances_def)
qed

text \<open>An operation that leaves the entries that are held alone keeps the invariant.\<close>

lemma rewards_sys_inv_moves:
  assumes "rewards_sys_inv h s" and m: "moves h T (rs_db s) db'"
    and T: "\<And>i a b. T i a b \<Longrightarrow> i \<in> set (held s) \<Longrightarrow> a \<noteq> ENTRY_CREDITED"
  shows "rewards_sys_inv h (s\<lparr>rs_db := db'\<rparr>)"
proof -
  from assms(1) have S: "rewards_inv h (rs_db s)" "distinct (held s)" "set (held s) \<subseteq> en_id ` set (rd_entries (rs_db s))"
    "\<And>e. e \<in> set (rd_entries (rs_db s)) \<Longrightarrow> en_id e \<in> set (held s) \<Longrightarrow> en_status e = ENTRY_CREDITED"
    "\<And>c r. c \<in> set (rs_calls s) \<Longrightarrow> r \<in> set (cc_prior c) \<Longrightarrow> restorable (rs_db s) r" by (simp_all add: rewards_sys_inv_def)
  have hd: "held (s\<lparr>rs_db := db'\<rparr>) = held s" by (simp add: held_def)
  have "restorable db' r" if "c \<in> set (rs_calls s)" "r \<in> set (cc_prior c)" for c r
  proof (rule restorable_moves [OF m S(1) S(5) [OF that]])
    have "fst r \<in> set (held s)" using that by (auto simp: held_def)
    with S(3) show "fst r \<in> en_id ` set (rd_entries (rs_db s))" by blast
  qed
  moreover have "en_status x = ENTRY_CREDITED" if x: "x \<in> set (rd_entries db')" "en_id x \<in> set (held s)" for x
  proof -
    from x(2) S(3) have "en_id x \<in> en_id ` set (rd_entries (rs_db s))" by blast
    with m x(1) obtain e where e: "e \<in> set (rd_entries (rs_db s))" "en_id e = en_id x"
      "en_status x = en_status e \<or> T (en_id e) (en_status e) (en_status x)" by (rule movesE)
    have "en_id e \<in> set (held s)" using e(2) x(2) by simp
    with S(4) [OF e(1)] T e(3) show ?thesis by metis
  qed
  moreover have "rewards_inv h db'" "set (held s) \<subseteq> en_id ` set (rd_entries db')" using S(1,3) m by (auto simp: moves_def)
  ultimately show ?thesis using S(2) by (simp add: rewards_sys_inv_def hd)
qed

lemma drop_call_split:
  assumes "j < length cs"
  shows "set (drop_call j cs) \<subseteq> set cs" and "mset (cs ! j # drop_call j cs) = mset cs"
proof -
  show "set (drop_call j cs) \<subseteq> set cs" by (auto simp: drop_call_def dest: in_set_takeD in_set_dropD)
  have "mset cs = mset (take j cs @ cs ! j # drop (Suc j) cs)" using id_take_nth_drop [OF assms] by metis
  then show "mset (cs ! j # drop_call j cs) = mset cs" by (simp add: drop_call_def)
qed

lemma held_mset: "mset (held s) = (\<Sum>c\<in>#mset (rs_calls s). mset (map fst (cc_prior c))) + mset (rs_paid s)"
proof -
  have "mset (concat (map (\<lambda>c. map fst (cc_prior c)) cs)) = (\<Sum>c\<in>#mset cs. mset (map fst (cc_prior c)))" for cs
    by (induction cs) simp_all
  then show ?thesis by (simp add: held_def)
qed

text \<open>Calls rearranged, or a paid call moved to the paid entries.\<close>

lemma rewards_sys_inv_same_held:
  assumes "rewards_sys_inv h s" and "rs_db s' = rs_db s" and "mset (held s') = mset (held s)"
    and "\<forall>c\<in>set (rs_calls s'). \<exists>c'\<in>set (rs_calls s). cc_prior c = cc_prior c'"
  shows "rewards_sys_inv h s'"
proof -
  have h: "distinct (held s') = distinct (held s)" "set (held s') = set (held s)"
    using assms(3) by (metis mset_eq_imp_distinct_iff, metis mset_eq_setD)
  have "restorable (rs_db s) r" if "c \<in> set (rs_calls s')" "r \<in> set (cc_prior c)" for c r
    using assms(1,4) that unfolding rewards_sys_inv_def by metis
  with assms(1) show ?thesis unfolding rewards_sys_inv_def h assms(2) by blast
qed

lemma pay_keeps:
  assumes s: "rewards_sys_inv h s"
  shows "rewards_sys_inv h (rewards_step h reg (RCreditPay j) s)"
proof (cases "j < length (rs_calls s) \<and> \<not> cc_failed (rs_calls s ! j)")
  case False
  with s show ?thesis by (simp only: rewards_step.simps if_False)
next
  case True
  let ?c = "rs_calls s ! j"
  note D = drop_call_split [OF conjunct1 [OF True]]
  have c: "?c \<in> set (rs_calls s)" using True by simp
  obtain ok lg where b: "credit_balance reg (cc_user ?c) (cc_total ?c) (rs_ledger s) = (ok, lg)" by fastforce
  show ?thesis
  proof (rule rewards_sys_inv_same_held [OF s])
    show "rs_db (rewards_step h reg (RCreditPay j) s) = rs_db s" using True b by (cases ok) simp_all
    show "mset (held (rewards_step h reg (RCreditPay j) s)) = mset (held s)"
      using True b by (cases ok) (simp_all add: held_mset D(2) [symmetric])
    show "\<forall>c\<in>set (rs_calls (rewards_step h reg (RCreditPay j) s)). \<exists>c'\<in>set (rs_calls s). cc_prior c = cc_prior c'"
      using True b D(1) c by (cases ok) auto
  qed
qed

lemma raise_keeps:
  assumes s: "rewards_sys_inv h s"
  shows "rewards_sys_inv h (rewards_step h reg (RCreditRaise j) s)"
proof (cases "j < length (rs_calls s) \<and> \<not> cc_failed (rs_calls s ! j)")
  case False
  with s show ?thesis by (simp only: rewards_step.simps if_False)
next
  case True
  note D = drop_call_split [OF conjunct1 [OF True]]
  have c: "rs_calls s ! j \<in> set (rs_calls s)" using True by simp
  show ?thesis
    by (rule rewards_sys_inv_same_held [OF s]) (use True D(1) c in \<open>auto simp: held_mset D(2) [symmetric]\<close>)
qed

lemma begin_keeps:
  assumes s: "rewards_sys_inv h s"
  shows "rewards_sys_inv h (rewards_step h reg (RCreditBegin uid now) s)"
proof (cases "credit_begin uid now (rs_db s)")
  case None
  with s show ?thesis by simp
next
  case (Some r)
  obtain tot prior db' where r: "r = (tot, prior, db')" by (cases r) auto
  note cb = Some [unfolded r]
  let ?s = "s\<lparr>rs_db := db'\<rparr>"
  let ?c = "\<lparr>cc_user = uid, cc_total = tot, cc_prior = prior, cc_failed = False\<rparr>"
  from s have S: "rewards_inv h (rs_db s)"
    "\<And>e. e \<in> set (rd_entries (rs_db s)) \<Longrightarrow> en_id e \<in> set (held s) \<Longrightarrow> en_status e = ENTRY_CREDITED" by (simp_all add: rewards_sys_inv_def)
  note m = credit_begin_moves [OF S(1) cb] and C = credit_beginD [OF cb]
  have fresh: "i \<notin> set (held s) \<and> i \<in> en_id ` set (rd_entries (rs_db s))" if "i \<in> set (map fst prior)" for i
  proof -
    from that obtain st where "(i, st) \<in> set prior" by auto
    from C(2) [OF this] obtain e where e: "e \<in> set (rd_entries (rs_db s))" "en_id e = i" "en_status e \<in> {ENTRY_CLAIMABLE, ENTRY_ONCHAIN}" by blast
    with S(2) [OF e(1)] show ?thesis by auto
  qed
  have hs: "held ?s = held s" by (simp add: held_def)
  have "rewards_sys_inv h ?s" by (rule rewards_sys_inv_moves [OF s m]) auto
  then have I: "rewards_inv h db'" "distinct (held s)" "set (held s) \<subseteq> en_id ` set (rd_entries db')"
    "\<And>e. e \<in> set (rd_entries db') \<Longrightarrow> en_id e \<in> set (held s) \<Longrightarrow> en_status e = ENTRY_CREDITED"
    "\<And>c x. c \<in> set (rs_calls s) \<Longrightarrow> x \<in> set (cc_prior c) \<Longrightarrow> restorable db' x" unfolding rewards_sys_inv_def hs by simp_all
  have dp: "distinct (map fst prior)"
    unfolding C(1) using rewards_invD(3) [OF S(1)] by (simp add: custodially_settleable_def distinct_map_filter)
  have ids: "en_id ` set (rd_entries (rs_db s)) \<subseteq> en_id ` set (rd_entries db')" using m by (simp add: moves_def)
  have st: "en_status e = ENTRY_CREDITED" if "e \<in> set (rd_entries db')" "en_id e \<in> set (map fst prior)" for e
    using that unfolding C(4) by (auto simp: set_upd_where)
  have rs: "restorable db' x" if x: "x \<in> set prior" for x
  proof (rule restorable_moves [OF m S(1)])
    obtain i t where it: "x = (i, t)" by fastforce
    from C(2) x it obtain e where e: "e \<in> set (rd_entries (rs_db s))" "en_id e = i" "en_status e = t"
      "t \<in> {ENTRY_CLAIMABLE, ENTRY_ONCHAIN}" by blast
    have "ep_status p \<noteq> EPOCH_FINALIZED" if "t = ENTRY_ONCHAIN" "y \<in> set (rd_entries (rs_db s))" "p \<in> set (rd_epochs (rs_db s))"
      "en_id y = i" "ep_id p = en_epoch_id y" for y p
    proof -
      have "y = e" using same_id [OF S(1) that(2) e(1)] that(4) e(2) by simp
      with rewards_invD(5) [OF S(1) e(1) that(3)] that(1,5) e(3) show ?thesis by (simp add: leaf_ok_def)
    qed
    with e(4) show "restorable (rs_db s) x" by (auto simp: restorable_def it)
    show "fst x \<in> en_id ` set (rd_entries (rs_db s))" using fresh x by auto
  qed
  have pi: "set (map fst prior) \<subseteq> en_id ` set (rd_entries db')" using fresh ids by blast
  have hd: "held (s\<lparr>rs_db := db', rs_calls := ?c # rs_calls s\<rparr>) = map fst prior @ held s" by (simp add: held_def)
  have "rewards_sys_inv h (s\<lparr>rs_db := db', rs_calls := ?c # rs_calls s\<rparr>)"
    unfolding rewards_sys_inv_def hd
  proof (intro conjI)
    show "distinct (map fst prior @ held s)" using dp I(2) fresh by auto
    show "set (map fst prior @ held s) \<subseteq> en_id ` set (rd_entries (rs_db (s\<lparr>rs_db := db', rs_calls := ?c # rs_calls s\<rparr>)))"
      using I(3) pi by simp
  qed (use I st rs in auto)
  then show ?thesis using cb by simp
qed

lemma restore_keeps:
  assumes s: "rewards_sys_inv h s"
  shows "rewards_sys_inv h (rewards_step h reg (RCreditRestore j) s)"
proof (cases "j < length (rs_calls s) \<and> cc_failed (rs_calls s ! j)")
  case False
  with s show ?thesis by (simp only: rewards_step.simps if_False)
next
  case True
  let ?c = "rs_calls s ! j" and ?cs = "drop_call j (rs_calls s)"
  let ?s = "s\<lparr>rs_calls := ?cs\<rparr>"
  note D = drop_call_split [OF conjunct1 [OF True]]
  have c: "?c \<in> set (rs_calls s)" using True by simp
  have hm: "mset (held s) = mset (map fst (cc_prior ?c)) + mset (held ?s)"
    using D(2) [symmetric] by (simp add: held_mset)
  from s have S: "distinct (held s)" "\<forall>r\<in>set (cc_prior ?c). restorable (rs_db s) r" using c by (auto simp: rewards_sys_inv_def)
  have "mset (held s) = mset (map fst (cc_prior ?c) @ held ?s)" using hm by simp
  then have d: "distinct (map fst (cc_prior ?c) @ held ?s)" "set (held s) = set (map fst (cc_prior ?c) @ held ?s)"
    using S(1) mset_eq_imp_distinct_iff mset_eq_setD by blast+
  have "rewards_sys_inv h ?s" unfolding rewards_sys_inv_def
    using s d D(1) unfolding rewards_sys_inv_def by (auto dest: subsetD)
  then have "rewards_sys_inv h (?s\<lparr>rs_db := credit_restore (cc_prior ?c) (rs_db s)\<rparr>)"
    by (rule rewards_sys_inv_moves [where T = "\<lambda>i a b. i \<in> set (map fst (cc_prior ?c))"])
      (use credit_restore_moves [OF S(2) order_refl] d(1) in auto)
  moreover have "rewards_step h reg (RCreditRestore j) s = ?s\<lparr>rs_db := credit_restore (cc_prior ?c) (rs_db s)\<rparr>"
    using True by (cases s) simp
  ultimately show ?thesis by simp
qed

lemma step_keeps:
  assumes h: "sound_hasher h" and s: "rewards_sys_inv h s"
  shows "rewards_sys_inv h (rewards_step h reg ev s)"
proof -
  have i: "rewards_inv h (rs_db s)" using s by (simp add: rewards_sys_inv_def)
  have same: "moves h (\<lambda>i a b. False) db (db\<lparr>rd_fees := fs\<rparr>)" "moves h (\<lambda>i a b. False) db (db\<lparr>rd_wallets := ws\<rparr>)" for db fs ws
    by (auto simp: moves_def rewards_inv_def epoch_advances_def)
  show ?thesis
  proof (cases ev)
    case (RFees fs)
    show ?thesis unfolding RFees rewards_step.simps by (rule rewards_sys_inv_moves [OF s same(1)]) simp
  next
    case (RWallets ws)
    show ?thesis unfolding RWallets rewards_step.simps by (rule rewards_sys_inv_moves [OF s same(2)]) simp
  next
    case (RFinalize index now)
    show ?thesis unfolding RFinalize rewards_step.simps by (rule rewards_sys_inv_moves [OF s finalize_epoch_moves [OF h i]]) simp
  next
    case (RPublish index tx deadline now)
    show ?thesis unfolding RPublish rewards_step.simps by (rule rewards_sys_inv_moves [OF s mark_published_moves [OF i]]) simp
  next
    case (RReconcileRow now rt claimed e)
    show ?thesis unfolding RReconcileRow rewards_step.simps by (rule rewards_sys_inv_moves [OF s reconcile_row_moves]) simp
  qed (use begin_keeps pay_keeps raise_keeps restore_keeps s in blast)+
qed

interpretation rewards: invariant_of "\<lambda>s s'. \<exists>ev. s' = rewards_step h reg ev s" "\<lambda>s. sound_hasher h \<longrightarrow> rewards_sys_inv h s" for h reg
  by unfold_locales (auto intro: step_keeps)

lemma rewards_run_steps: "(\<lambda>s s'. \<exists>ev. s' = rewards_step h reg ev s)\<^sup>*\<^sup>* s (rewards_run h reg evs s)"
  by (induction evs arbitrary: s) (auto intro: converse_rtranclp_into_rtranclp)

lemma rewards_run_keeps: "sound_hasher h \<Longrightarrow> rewards_sys_inv h s \<Longrightarrow> rewards_sys_inv h (rewards_run h reg evs s)"
  using rewards.always [OF rewards_run_steps] by blast

definition no_rewards :: rewards_db where
  "no_rewards = \<lparr>rd_epochs = [], rd_entries = [], rd_fees = [], rd_wallets = []\<rparr>"

definition start_sys :: "ledger \<Rightarrow> rewards_sys" where
  "start_sys lg = \<lparr>rs_db = no_rewards, rs_ledger = lg, rs_calls = [], rs_paid = []\<rparr>"

lemma start_inv: "rewards_sys_inv h (start_sys lg)"
  by (simp add: rewards_sys_inv_def start_sys_def no_rewards_def rewards_inv_def held_def)

text \<open>C12: Whatever the interleaving of finalizations, publications, credits with their failures and
  reconciliations, the tables stay well formed: primary keys and epoch numbers are unique, a user
  has one entry per epoch, every entry belongs to an epoch that is no longer accruing, every
  stored leaf proof verifies against the root of its epoch, and an entry is only on chain when its epoch was published.\<close>

theorem reward_tables_well_formed:
  assumes "sound_hasher h"
  shows "rewards_inv h (rs_db (rewards_run h reg evs (start_sys lg)))"
  using rewards_run_keeps [OF assms start_inv, of reg evs lg] by (simp add: rewards_sys_inv_def)

text \<open>C13: No entry is credited to the custodial balance twice, as long as no commit of a credit loses its reply, and
  an entry that was credited is recorded as credited: never as claimed on chain, and never as still to be paid.\<close>

theorem entry_credited_once:
  assumes "sound_hasher h" and "rewards_run h reg evs (start_sys lg) = s"
  shows "distinct (rs_paid s) \<and>
    (\<forall>i\<in>set (rs_paid s). \<exists>e\<in>set (rd_entries (rs_db s)). en_id e = i \<and> en_status e = ENTRY_CREDITED)"
proof -
  have i: "rewards_sys_inv h s" using rewards_run_keeps [OF assms(1) start_inv, of reg evs lg] assms(2) by simp
  then have "distinct (held s)" and ids: "set (held s) \<subseteq> en_id ` set (rd_entries (rs_db s))"
    and st: "\<And>e. e \<in> set (rd_entries (rs_db s)) \<Longrightarrow> en_id e \<in> set (held s) \<Longrightarrow> en_status e = ENTRY_CREDITED"
    by (simp_all add: rewards_sys_inv_def)
  then have "distinct (rs_paid s)" by (simp add: held_def)
  moreover have "\<exists>e\<in>set (rd_entries (rs_db s)). en_id e = i \<and> en_status e = ENTRY_CREDITED" if "i \<in> set (rs_paid s)" for i
  proof -
    from that have "i \<in> set (held s)" by (simp add: held_def)
    with ids obtain e where "e \<in> set (rd_entries (rs_db s))" "en_id e = i" by blast
    with st \<open>i \<in> set (held s)\<close> show ?thesis by blast
  qed
  ultimately show ?thesis by blast
qed


lemma find_upd_where_found:
  assumes "List.find Q rows = Some p" and "\<And>r. Q (f r) = Q r" and "P p"
  shows "List.find Q (upd_where P f rows) = Some (f p)"
  using assms(1) by (induction rows) (use assms(2,3) in \<open>auto split: if_splits\<close>)

text \<open>C18: A reward of a finalized epoch that is credited custodially before the epoch is published keeps
  its leaf: the payload that is published sums it, and after the publication its stored proof
  verifies against the published root, so the same reward can be claimed from the contract as well.\<close>

theorem credited_leaf_stays_claimable:
  assumes inv: "rewards_inv h db"
    and p: "find_epoch index db = Some p" "ep_status p = EPOCH_FINALIZED"
    and e: "e \<in> set (rd_entries db)" "en_epoch_id e = ep_id p" "en_status e = ENTRY_CLAIMABLE" "en_leaf_index e \<noteq> None"
    and cb: "credit_begin (en_user_id e) now db = Some (tot, prior, db1)"
    and pub: "mark_published index tx deadline now' db1 = (moved, db2)"
  shows "\<exists>x q. x \<in> set (epoch_leaves (ep_id p) db1) \<and> en_id x = en_id e \<and> en_status x = ENTRY_CREDITED \<and>
    x \<in> set (rd_entries db2) \<and> find_epoch index db2 = Some q \<and> ep_status q = EPOCH_PUBLISHED \<and>
    stored_proof_ok h (ep_merkle_root q) x"
proof -
  let ?x = "e\<lparr>en_status := ENTRY_CREDITED, en_settled_at := Some now\<rparr>"
  have pin: "p \<in> set (rd_epochs db)" "ep_epoch_index p = index" using p(1) by (auto simp: find_epoch_def find_Some_iff)
  note C = credit_beginD [OF cb]
  have "e \<in> set (custodially_settleable (en_user_id e) now db)"
  proof -
    have "epoch_of e db \<noteq> None" using pin(1) e(2) by (auto simp: epoch_of_def find_None_iff)
    with e(1,3) show ?thesis by (auto simp: custodially_settleable_def)
  qed
  then have "en_id e \<in> set (map fst prior)" unfolding C(1) by simp
  with e(1) have x1: "?x \<in> set (rd_entries db1)" unfolding C(4) by (force simp: set_upd_where)
  have ok: "stored_proof_ok h (ep_merkle_root p) ?x"
    using rewards_invD(5) [OF inv e(1) pin(1)] e(2,4) stored_proof_fixed [of ?x e h "ep_merkle_root p"]
    by (simp add: leaf_ok_def entry_fixed_def)
  have ep: "rd_epochs db1 = rd_epochs db" by (simp add: C(4))
  with p(1) have f1: "find_epoch index db1 = Some p" by (simp add: find_epoch_def)
  let ?g = "\<lambda>e. e\<lparr>ep_status := EPOCH_PUBLISHED, ep_published_tx_hash := Some tx, ep_published_at := Some now', ep_claim_deadline := Some deadline\<rparr>"
  have ep2: "rd_epochs db2 = upd_where (\<lambda>e. ep_id e = ep_id p) ?g (rd_epochs db)"
    and en2: "rd_entries db2 = upd_where (\<lambda>e. en_epoch_id e = ep_id p \<and> en_status e = ENTRY_CLAIMABLE \<and> en_leaf_index e \<noteq> None)
       (\<lambda>e. e\<lparr>en_status := ENTRY_ONCHAIN\<rparr>) (rd_entries db1)"
    using pub f1 p(2) ep by (auto simp: mark_published_def upd_epoch_def Let_def)
  have x2: "?x \<in> set (rd_entries db2)" using x1 unfolding en2 by (force simp: set_upd_where)
  have "find_epoch index db2 = Some (?g p)"
    unfolding find_epoch_def ep2 by (rule find_upd_where_found) (use p(1) in \<open>simp_all add: find_epoch_def\<close>)
  moreover have "?x \<in> set (epoch_leaves (ep_id p) db1)" using x1 e(2,4) by (simp add: epoch_leaves_def)
  ultimately show ?thesis using x2 ok by (intro exI [of _ ?x] exI [of _ "?g p"]) simp
qed

definition dollar_encode :: "int \<Rightarrow> string \<Rightarrow> int \<Rightarrow> merkle_error + bytes" where
  "dollar_encode i a n = (if n mod 1000000 = 0 then sample_encode i a (n div 1000000) else Inl (MerkleExternal a))"

definition dollar_hasher :: hasher where
  "dollar_hasher = \<lparr>h_keccak = sample_keccak, h_encode_packed = dollar_encode, h_to_checksum_address = sample_checksum\<rparr>"

definition sample_fees :: "FeeTransaction list" where
  "sample_fees = [\<lparr>ft_user_id = 7, ft_fee_amount_usd = Some (Fin 50), ft_created_at = EPOCH_ANCHOR\<rparr>]"

definition sample_wallets :: "Wallet list" where
  "sample_wallets = [\<lparr>wa_id = 1, wa_user_id = 7, wa_address = ''a'', wa_chain_type = ''evm'', wa_is_active = True, wa_is_default = True\<rparr>]"

definition week_one :: "rewards_event list" where
  "week_one = [RFees sample_fees, RWallets sample_wallets, RFinalize 0 (EPOCH_ANCHOR + EPOCH_LENGTH)]"

lemma rate: "CASHBACK_RATE = Fin (3602879701896397 / 36028797018963968)"
proof -
  have q: "quotient_of (1 / 10) = (1, 10)" using quotient_of_Fract [of 1 10] by (simp add: Fract_of_int_quotient)
  have "round_pos 1 10 = 3602879701896397 / 36028797018963968"
    by (simp add: round_pos_def ilog2_def scale_def bitlen.simps rhe_def pow2_def Let_def)
  then show ?thesis by (simp add: CASHBACK_RATE_def fl_round_def q)
qed
lemma fifty: "fl_mul (Fin 50) CASHBACK_RATE = Fin 5"
proof -
  have q: "quotient_of (90071992547409925 / 18014398509481984) = (90071992547409925, 18014398509481984)"
  proof -
    have "odd (90071992547409925 :: int)" by simp
    then have "coprime (90071992547409925 :: int) (2 ^ 54)" by (simp add: coprime_power_right_iff del: power_numeral)
    then have "gcd (90071992547409925 :: int) 18014398509481984 = 1" by (simp add: coprime_iff_gcd_eq_1)
    then show ?thesis
      using quotient_of_Fract [of 90071992547409925 18014398509481984] by (simp add: Fract_of_int_quotient Rat.normalize_def)
  qed
  have "round_pos 90071992547409925 18014398509481984 = 5"
    by (simp add: round_pos_def ilog2_def scale_def bitlen.simps rhe_def pow2_def Let_def)
  then show ?thesis by (simp add: rate fl_round_def q)
qed

definition week_entry :: RewardEntry where
  "week_entry = \<lparr>en_id = 1, en_epoch_id = 1, en_user_id = 7, en_cashback_usd = Fin 5, en_carryover_usd = Fin 0, en_amount_usd = Fin 5,
     en_fee_basis_usd = Fin 50, en_claim_address = Some ''a'', en_leaf_index = None, en_amount_base_units = None,
     en_merkle_proof = None, en_status = ENTRY_CLAIMABLE, en_claimed_tx_hash = None, en_settled_at = None\<rparr>"

definition week_start :: rewards_db where
  "week_start = snd (get_or_create_epoch 0 (no_rewards\<lparr>rd_fees := sample_fees, rd_wallets := sample_wallets\<rparr>))"

definition week_epoch :: RewardEpoch where
  "week_epoch = new_epoch 0 no_rewards"

definition week_db :: rewards_db where
  "week_db = \<lparr>rd_epochs = [\<lparr>ep_id = 1, ep_epoch_index = 0, ep_starts_at = 1767571200, ep_ends_at = 1768176000,
       ep_status = EPOCH_FINALIZED, ep_total_amount_usd = Fin 5, ep_entry_count = 1,
       ep_merkle_root = Some ''0x0001050000000000000000000000000000000000000000000000000000000000'',
       ep_published_tx_hash = None, ep_claim_deadline = None, ep_finalized_at = Some 1768176000, ep_published_at = None\<rparr>],
     rd_entries = [week_entry\<lparr>en_claim_address := Some ''A'', en_leaf_index := Some 0,
       en_amount_base_units := Some ''5000000'', en_merkle_proof := Some []\<rparr>],
     rd_fees = sample_fees, rd_wallets = sample_wallets\<rparr>"

lemma week_stored:
  "store_entries dollar_hasher (EPOCH_ANCHOR + EPOCH_LENGTH) week_epoch [week_entry] week_start =
     Inr (Finalized 1 (Fin 5) 1 (ep_merkle_root (hd (rd_epochs week_db))), week_db)"
  by code_simp

lemma week_new_entry: "new_entry 1 1 7 (Fin 50) (Fin 0) (Some ''a'') = week_entry"
proof -
  have r: "fl_round6 (Fin 5) = Fin 5" "fl_round6 (Fin 0) = Fin 0" "fl_add (Fin 5) (Fin 0) = Fin 5" "fl_round6 (Fin 50) = Fin 50"
    "fl_le MIN_PAYOUT_USD (Fin 5)" by code_simp+
  show ?thesis by (simp only: new_entry_def fifty r Let_def week_entry_def if_True)
qed

lemma week_parts:
  "get_or_create_epoch 0 (no_rewards\<lparr>rd_fees := sample_fees, rd_wallets := sample_wallets\<rparr>) = (week_epoch, week_start)"
  "fee_rows (fst (epoch_window 0)) (snd (epoch_window 0)) week_start = [(7, Fin 50)]" "carry_rows 0 week_start = []"
  "user_sum [(7, Fin 50)] 7 = Fin 50" "user_sum [] 7 = Fin 0" "claim_address week_start 7 = Some ''a''"
  "next_id (map en_id (rd_entries week_start)) = 1" "ep_id week_epoch = 1" "ep_epoch_index week_epoch = 0" "ep_status week_epoch = EPOCH_ACCRUING"
  "snd (epoch_window 0) = EPOCH_ANCHOR + EPOCH_LENGTH"
  by code_simp+

lemma week_one_run:
  "rewards_run dollar_hasher reg week_one (start_sys lg) = (start_sys lg)\<lparr>rs_db := week_db\<rparr>"
proof -
  let ?db0 = "no_rewards\<lparr>rd_fees := sample_fees, rd_wallets := sample_wallets\<rparr>"
  have u: "user_entries week_epoch [(7, Fin 50)] [] [7] week_start = [week_entry]"
    by (simp add: user_entries_def week_parts week_new_entry)
  note st = week_stored
  have w: "epoch_window 0 = (fst (epoch_window 0), EPOCH_ANCHOR + EPOCH_LENGTH)" by (simp add: week_parts(11) [symmetric])
  have "finalize_accruing dollar_hasher (EPOCH_ANCHOR + EPOCH_LENGTH) week_epoch week_start = Inr (Finalized 1 (Fin 5) 1 (ep_merkle_root (hd (rd_epochs week_db))), week_db)"
    unfolding finalize_accruing_def week_parts(9) Let_def
    by (subst w) (use week_parts(2) in \<open>simp add: week_parts(3,11) u st\<close>)
  then have "finalize_epoch dollar_hasher 0 (EPOCH_ANCHOR + EPOCH_LENGTH) ?db0 = (Inr (Finalized 1 (Fin 5) 1 (ep_merkle_root (hd (rd_epochs week_db)))), week_db)"
    by (simp add: finalize_epoch_def week_parts(1,10,11))
  then show ?thesis by (simp add: week_one_def start_sys_def)
qed

lemma rewards_run_append: "rewards_run h reg (xs @ ys) s = rewards_run h reg ys (rewards_run h reg xs s)"
  by (induction xs arbitrary: s) simp_all

lemma dollar_sound: "sound_hasher dollar_hasher"
proof -
  note S = sample_sound [unfolded sound_hasher_def sample_hasher_def hasher.simps]
  have d: "dollar_encode i a n = Inr b \<Longrightarrow> sample_encode i a (n div 1000000) = Inr b \<and> n = n div 1000000 * 1000000" for i a n b
    by (auto simp: dollar_encode_def split: if_splits)
  show ?thesis
    unfolding sound_hasher_def dollar_hasher_def hasher.simps
  proof (intro conjI allI impI)
    show "length (sample_keccak b) = 32" for b by (simp add: sample_keccak_def)
    show "dollar_encode i a n = Inr b \<Longrightarrow> length b = 84" for i a n b using S d by blast
    show "i = i'" "a = a'" "n = n'" if "dollar_encode i a n = Inr b" "dollar_encode i' a' n' = Inr b" for i a n b i' a' n'
      using sample_encode_inj [OF conjunct1 [OF d [OF that(1)]] conjunct1 [OF d [OF that(2)]]] d [OF that(1)] d [OF that(2)] by simp_all
    show "sample_checksum a = Inr c \<Longrightarrow> sample_checksum c = Inr c" for a c
      by (auto simp: sample_checksum_def split: if_splits)
  qed
qed

definition sample_rewards :: "rewards_event list \<Rightarrow> rewards_sys" where
  "sample_rewards evs = rewards_run dollar_hasher (\<lambda>_ _. None) evs (start_sys sample_ledger)"

theorem reward_tables_well_formed_witness:
  "rewards_inv dollar_hasher (rs_db (sample_rewards week_one))"
  unfolding sample_rewards_def by (rule reward_tables_well_formed [OF dollar_sound])

lemma week_db_inv: "rewards_inv dollar_hasher week_db"
  using rewards_run_keeps [OF dollar_sound start_inv, of undefined week_one sample_ledger] by (simp add: week_one_run rewards_sys_inv_def)

definition credit_events :: "rewards_event list" where
  "credit_events = [RCreditBegin 7 (EPOCH_ANCHOR + EPOCH_LENGTH + 60), RCreditPay 0]"

lemma paid_in_week_two:
  "rs_paid (rewards_run dollar_hasher (\<lambda>_ _. None) credit_events ((start_sys sample_ledger)\<lparr>rs_db := week_db\<rparr>)) = [1]"
  by code_simp

theorem entry_credited_once_witness:
  "\<exists>e\<in>set (rd_entries (rs_db (sample_rewards (week_one @ credit_events)))). en_id e = 1 \<and> en_status e = ENTRY_CREDITED"
proof -
  have "rs_paid (sample_rewards (week_one @ credit_events)) = [1]"
    by (simp only: sample_rewards_def rewards_run_append week_one_run paid_in_week_two)
  with entry_credited_once [OF dollar_sound sample_rewards_def [symmetric]] show ?thesis by auto
qed

text \<open>The credit of a user raises, the epoch is published before the statuses are put back, and the user asks again.\<close>

definition raced_events :: "rewards_event list" where
  "raced_events = [RCreditBegin 7 (EPOCH_ANCHOR + EPOCH_LENGTH + 60), RCreditRaise 0,
     RPublish 0 ''0x1'' (EPOCH_ANCHOR + 50 * EPOCH_LENGTH) (EPOCH_ANCHOR + EPOCH_LENGTH + 70), RCreditRestore 0,
     RCreditBegin 7 (EPOCH_ANCHOR + EPOCH_LENGTH + 90), RCreditPay 0]"

lemma raced_from_week_db:
  "let s = rewards_run dollar_hasher (\<lambda>_ _. None) raced_events ((start_sys sample_ledger)\<lparr>rs_db := week_db\<rparr>)
   in rs_paid s = [1] \<and> map cb_balance (lg_balances (rs_ledger s)) = [''15.0''] \<and>
      (\<exists>e\<in>set (rd_entries (rs_db s)). \<exists>p\<in>set (rd_epochs (rs_db s)). en_id e = 1 \<and> ep_id p = en_epoch_id e \<and>
         ep_status p = EPOCH_PUBLISHED \<and> ep_claim_deadline p = Some (EPOCH_ANCHOR + 50 * EPOCH_LENGTH) \<and>
         stored_proof_ok dollar_hasher (ep_merkle_root p) e)"
  by code_simp

text \<open>When the credit of a user raises and the epoch is published before the statuses are put back, the
  restoration makes the entry claimable again: the second request pays it long before the claim
  deadline, while its leaf verifies against the published root.\<close>

theorem restored_credit_pays_published_leaf:
  "let s = sample_rewards (week_one @ raced_events)
   in rs_paid s = [1] \<and> map cb_balance (lg_balances (rs_ledger s)) = [''15.0''] \<and>
      (\<exists>e\<in>set (rd_entries (rs_db s)). \<exists>p\<in>set (rd_epochs (rs_db s)). en_id e = 1 \<and> ep_id p = en_epoch_id e \<and>
         ep_status p = EPOCH_PUBLISHED \<and> ep_claim_deadline p = Some (EPOCH_ANCHOR + 50 * EPOCH_LENGTH) \<and>
         stored_proof_ok dollar_hasher (ep_merkle_root p) e)"
  unfolding sample_rewards_def rewards_run_append week_one_run by (rule raced_from_week_db)

lemma week_db_facts:
  "case (find_epoch 0 week_db, rd_entries week_db) of (Some p, e # _) \<Rightarrow>
     ep_status p = EPOCH_FINALIZED \<and> en_epoch_id e = ep_id p \<and> en_status e = ENTRY_CLAIMABLE \<and> en_leaf_index e \<noteq> None \<and>
     en_user_id e = 7 \<and> credit_begin 7 (EPOCH_ANCHOR + EPOCH_LENGTH + 60) week_db \<noteq> None
   | _ \<Rightarrow> False"
  by code_simp

theorem credited_leaf_stays_claimable_witness:
  "\<exists>tot prior db1 x q. credit_begin 7 (EPOCH_ANCHOR + EPOCH_LENGTH + 60) week_db = Some (tot, prior, db1) \<and>
     x \<in> set (rd_entries (snd (mark_published 0 ''0x1'' 5 4 db1))) \<and> en_status x = ENTRY_CREDITED \<and>
     find_epoch 0 (snd (mark_published 0 ''0x1'' 5 4 db1)) = Some q \<and> ep_status q = EPOCH_PUBLISHED \<and>
     stored_proof_ok dollar_hasher (ep_merkle_root q) x"
proof -
  obtain p e es tot prior db1 where w: "find_epoch 0 week_db = Some p" "rd_entries week_db = e # es"
    "ep_status p = EPOCH_FINALIZED" "en_epoch_id e = ep_id p" "en_status e = ENTRY_CLAIMABLE" "en_leaf_index e \<noteq> None"
    "en_user_id e = 7" "credit_begin 7 (EPOCH_ANCHOR + EPOCH_LENGTH + 60) week_db = Some (tot, prior, db1)"
    using week_db_facts by (auto split: option.splits list.splits)
  from credited_leaf_stays_claimable [OF week_db_inv w(1,3) _ w(4-6) w(8) [folded w(7)], of "''0x1''" 5 4] w(2,8)
  show ?thesis by (metis list.set_intros(1) prod.collapse)
qed

subsection \<open>A commit whose reply is lost\<close>

lemma credit_restore_map:
  "distinct (map fst prior) \<Longrightarrow> rd_entries (credit_restore prior db) =
     map (\<lambda>e. case map_of prior (en_id e) of None \<Rightarrow> e | Some st \<Rightarrow> e\<lparr>en_status := st, en_settled_at := None\<rparr>) (rd_entries db)"
proof (induction prior arbitrary: db)
  case Nil
  then show ?case by (simp add: credit_restore_def)
next
  case (Cons c prior)
  obtain i st where c: "c = (i, st)" by fastforce
  then have "map_of prior i = None" using Cons.prems by (simp add: map_of_eq_None_iff)
  with Cons show ?case by (auto simp: c credit_restore_Cons upd_where_def split: option.splits)
qed

lemma credit_restore_epochs [simp]: "rd_epochs (credit_restore prior db) = rd_epochs db"
  by (simp add: credit_restore_def)

lemma settleable_settled_at:
  assumes "rd_entries db' = map (\<lambda>e. if P e then e\<lparr>en_settled_at := t\<rparr> else e) (rd_entries db)" and "rd_epochs db' = rd_epochs db"
  shows "custodially_settleable uid now db' = map (\<lambda>e. if P e then e\<lparr>en_settled_at := t\<rparr> else e) (custodially_settleable uid now db)"
proof -
  have "epoch_of (if P e then e\<lparr>en_settled_at := t\<rparr> else e) db' = epoch_of e db" for e
    using assms(2) by (simp add: epoch_of_def)
  then show ?thesis
    unfolding custodially_settleable_def assms(1) filter_map by (intro arg_cong [where f = "map _"] filter_cong) (auto split: option.splits)
qed

text \<open>Taking the entries and putting them back leaves the same entries to take, for the same total.\<close>

lemma credit_begin_again:
  assumes "distinct (map en_id (rd_entries db))" and "credit_begin uid now db = Some (tot, prior, db1)"
  shows "\<exists>db2. credit_begin uid now (credit_restore prior db1) = Some (tot, prior, db2)"
proof -
  let ?el = "custodially_settleable uid now db" and ?ids = "en_id ` set (custodially_settleable uid now db)"
  have el: "?el \<noteq> []" "tot = fl_round6 (fl_sum (map en_amount_usd ?el))" "prior = map (\<lambda>e. (en_id e, en_status e)) ?el"
    "rd_entries db1 = upd_where (\<lambda>e. en_id e \<in> ?ids) (\<lambda>e. e\<lparr>en_status := ENTRY_CREDITED, en_settled_at := Some now\<rparr>) (rd_entries db)"
    "rd_epochs db1 = rd_epochs db"
    using assms(2) by (auto simp: credit_begin_def Let_def split: if_splits)
  have dist: "distinct (map en_id ?el)"
    using assms(1) unfolding custodially_settleable_def by (rule distinct_map_filter)
  then have keys: "distinct (map fst prior)" by (simp add: el(3) comp_def)
  have status: "map_of prior (en_id e) = (if en_id e \<in> ?ids then Some (en_status e) else None)" if e: "e \<in> set (rd_entries db)" for e
  proof (cases "en_id e \<in> ?ids")
    case True
    then obtain x where x: "x \<in> set ?el" "en_id x = en_id e" by auto
    then have "x \<in> set (rd_entries db)" by (simp add: custodially_settleable_def)
    with x(2) e assms(1) have "x = e" by (auto simp: distinct_map inj_on_def)
    with x(1) have "(en_id e, en_status e) \<in> set prior" by (auto simp: el(3))
    with keys True show ?thesis by (simp add: map_of_is_SomeI)
  next
    case False
    then have "map_of prior (en_id e) = None" by (auto simp: map_of_eq_None_iff el(3) image_image)
    with False show ?thesis by simp
  qed
  have "rd_entries (credit_restore prior db1) =
      map (\<lambda>e. if en_id e \<in> ?ids then e\<lparr>en_settled_at := None\<rparr> else e) (rd_entries db)"
    unfolding credit_restore_map [OF keys] el(4) upd_where_def map_map
    by (intro map_cong) (auto simp: status)
  from settleable_settled_at [OF this, of uid now] el(5)
  have again: "custodially_settleable uid now (credit_restore prior db1) = map (\<lambda>e. if en_id e \<in> ?ids then e\<lparr>en_settled_at := None\<rparr> else e) ?el"
    by simp
  have "map en_amount_usd (custodially_settleable uid now (credit_restore prior db1)) = map en_amount_usd ?el"
    unfolding again map_map by (intro map_cong) auto
  moreover have "map (\<lambda>e. (en_id e, en_status e)) (custodially_settleable uid now (credit_restore prior db1)) = map (\<lambda>e. (en_id e, en_status e)) ?el"
    unfolding again map_map by (intro map_cong) auto
  moreover have "custodially_settleable uid now (credit_restore prior db1) \<noteq> []" using el(1) by (simp add: again)
  ultimately show ?thesis using el(2,3) unfolding credit_begin_def [of uid now "credit_restore prior db1"] Let_def by simp
qed

text \<open>C38: When the balance credit of a reward commits and its reply is lost, the statuses are put back although the
  user was paid: the next request pays the same total a second time.\<close>

theorem lost_reply_credits_twice:
  assumes "distinct (map en_id (rd_entries db))" and "credit_begin uid now db = Some (tot, prior, db1)"
    and "credit_balance reg uid tot lg = (True, lg1)" and "credit_balance reg uid tot lg1 = (True, lg2)"
  shows "\<exists>db2 db3. credit_custodial reg uid now True db lg = ((False, Fin 0), db2, lg1) \<and>
    credit_custodial reg uid now False db2 lg1 = ((True, tot), db3, lg2)"
  using credit_begin_again [OF assms(1,2)] assms(2-4) by (auto simp: credit_custodial_def)

lemma week_credits:
  "case credit_begin 7 (EPOCH_ANCHOR + EPOCH_LENGTH + 60) week_db of None \<Rightarrow> False
   | Some (tot, prior, db1) \<Rightarrow> tot = Fin 5 \<and>
       (case credit_balance (\<lambda>_ _. None) 7 tot sample_ledger of (ok, lg1) \<Rightarrow> ok \<and> map cb_balance (lg_balances lg1) = [''15.0''] \<and>
         (case credit_balance (\<lambda>_ _. None) 7 tot lg1 of (ok, lg2) \<Rightarrow> ok \<and> map cb_balance (lg_balances lg2) = [''20.0'']))"
  by code_simp

theorem lost_reply_credits_twice_witness:
  "\<exists>db2 db3 lg1 lg2. credit_custodial (\<lambda>_ _. None) 7 (EPOCH_ANCHOR + EPOCH_LENGTH + 60) True week_db sample_ledger = ((False, Fin 0), db2, lg1) \<and>
     credit_custodial (\<lambda>_ _. None) 7 (EPOCH_ANCHOR + EPOCH_LENGTH + 60) False db2 lg1 = ((True, Fin 5), db3, lg2) \<and>
     map cb_balance (lg_balances lg1) = [''15.0''] \<and> map cb_balance (lg_balances lg2) = [''20.0'']"
proof -
  obtain tot prior db1 lg1 lg2 where w: "credit_begin 7 (EPOCH_ANCHOR + EPOCH_LENGTH + 60) week_db = Some (tot, prior, db1)"
    "credit_balance (\<lambda>_ _. None) 7 tot sample_ledger = (True, lg1)" "credit_balance (\<lambda>_ _. None) 7 tot lg1 = (True, lg2)"
    "tot = Fin 5" "map cb_balance (lg_balances lg1) = [''15.0'']" "map cb_balance (lg_balances lg2) = [''20.0'']"
    using week_credits by (auto split: option.splits prod.splits)
  have "distinct (map en_id (rd_entries week_db))" by code_simp
  from lost_reply_credits_twice [OF this w(1-3)] obtain db2 db3 where
    "credit_custodial (\<lambda>_ _. None) 7 (EPOCH_ANCHOR + EPOCH_LENGTH + 60) True week_db sample_ledger = ((False, Fin 0), db2, lg1)"
    "credit_custodial (\<lambda>_ _. None) 7 (EPOCH_ANCHOR + EPOCH_LENGTH + 60) False db2 lg1 = ((True, Fin 5), db3, lg2)"
    unfolding w(4) by blast
  with w(5,6) show ?thesis by (intro exI [of _ db2] exI [of _ db3] exI [of _ lg1] exI [of _ lg2] conjI)
qed

end
