(* ===== verification/Spec2Isabelle.thy ===== *)
theory Spec2Isabelle
  imports Reconciler P2PCalls P2PBook RefreshTokens Merkle WithdrawSchedules DepositSystem RewardSystem
begin

text \<open>
  Verification library for the money paths of SuwappuBot: swap execution, peer-to-peer escrow,
  the custodial ledger with its withdrawals and deposits, fee cashback, and refresh tokens.

  \<^bold>\<open>Parts of the program and where they are.\<close>

  \<^item> Swap execution.  \<open>bot/services/execution_lifecycle.py\<close> is a pure reducer: events move a
    parent order through its states and add fills (theory \<open>Lifecycle\<close>).
    \<open>bot/models/execution.py\<close> and the swap row of \<open>bot/models/swap.py\<close> are the tables
    (\<open>ExecModels\<close>).  \<open>execution_store.py\<close> appends events with an outbox row and keeps the parent
    row equal to the replay of its log (\<open>ExecStore\<close>).  \<open>legacy_swap_execution_adapter.py\<close>
    projects swap rows into that store (\<open>LegacyAdapter\<close>), and \<open>execution_reconciler.py\<close> resolves
    swaps whose outcome is open from what the provider reports (\<open>Reconciler\<close>).

  \<^item> Peer-to-peer trades.  \<open>bot/models/p2p.py\<close> (\<open>P2PModels\<close>), the executor and the escrow calls of
    \<open>p2p_escrow_executor.py\<close> (\<open>P2PEscrow\<close>), the operations of \<open>p2p_service.py\<close> split at their
    commits and calls (\<open>P2PService\<close>), all of them interleaved (\<open>P2PSystem\<close>), whole calls
    (\<open>P2PCalls\<close>), and the order book, its ranking and the opening of a trade (\<open>P2POffers\<close>,
    \<open>P2PBook\<close>).

  \<^item> Custodial balances.  \<open>bot/models/custodial.py\<close> and the ledger operations of
    \<open>hot_wallet.py\<close> (\<open>CustodialLedger\<close>); both withdrawal front ends, \<open>api/routes/terminal.py\<close> and
    \<open>bot/handlers/custodial.py\<close>, and \<open>withdraw_reconciler.py\<close> as sections (\<open>Withdrawals\<close>; the session
    of a section may fail, and \<open>session_raises\<close>, \<open>finalize_failed\<close> and \<open>telegram_reply\<close> say where each front
    end goes on), their interleavings (\<open>WithdrawSystem\<close>) and the schedules on which they go wrong
    (\<open>WithdrawSchedules\<close>).  \<open>deposit_watcher.py\<close> with the token lookups of \<open>bot/config/tokens.py\<close>
    scans the chains for transfers and books them (\<open>Deposits\<close>); its passes interleave with each
    other, with every other user of the ledger and with an operator who rewinds a cursor
    (\<open>DepositSystem\<close>).

  \<^item> Fee cashback.  \<open>bot/utils/merkle.py\<close> (\<open>Merkle\<close>), the epochs and entries of
    \<open>bot/models/onchain_rewards.py\<close> with \<open>onchain_rewards_service.py\<close> (\<open>OnchainRewards\<close>), the
    well-formedness of its tables (\<open>RewardTables\<close>) and interleaved finalizations,
    publications, credits and reconciliations (\<open>RewardSystem\<close>).

  \<^item> Sessions.  \<open>bot/models/auth.py\<close>, \<open>refresh_token_service.py\<close> and the refresh and logout routes of
    \<open>api/main.py\<close> (\<open>RefreshTokens\<close>).

  \<open>Prelude\<close> holds the error sum, guarded updates of tables, digits and primary keys;
  \<open>PyDecimal\<close> models \<open>decimal.Decimal\<close> in the default context, \<open>PyFloat\<close> binary64 floats with
  their shortest text.

  \<^bold>\<open>How the code is rendered.\<close>  A row is a record, a table a list of rows in insertion order, a
  session a function from tables to an error or new tables.  An operation that spans several
  sessions, or calls the chain between them, is a step function over a program counter; the
  systems run such steps of any number of calls in any order.  An exception is the left
  summand.  A JSON column is the value it encodes and an instant is an integer number of seconds.

  \<^bold>\<open>What the lemmas show.\<close>  \<open>Lifecycle\<close>: fills are counted once and terminal states absorb.
  \<open>ExecStore\<close>: a parent row is the replay of its log, the log has no gaps, redelivery and
  creation races are harmless.  \<open>LegacyAdapter\<close>: a projection is idempotent and never invents
  output.  \<open>Reconciler\<close>: a pass keeps to the store's operations, resolutions complete orders and keep
  observations.  \<open>P2PSystem\<close> and \<open>P2PCalls\<close>: payouts go to recorded addresses, at most one
  settlement per trade, every operation returns.  \<open>CustodialLedger\<close>: interleaved reservations are
  a sequence of debits (\<open>ledger_step\<close>, where an addition or subtraction is one step), and no balance
  becomes negative even when the read and the unguarded write of a move are apart (\<open>balance_step\<close>).  \<open>WithdrawSystem\<close>: a withdrawal is
  settled once.  \<open>DepositSystem\<close>: a deposit is booked once, in its exact amount, and the balances are
  those of the committed moves unless one was written over another; a stored range is booked but for
  failed bookings, and those are not repeated unless the cursor is rewound; passes end and catch up with
  the chain.  \<open>Merkle\<close>: proofs verify and cannot be forged.  \<open>RewardSystem\<close>: tables stay well
  formed and an entry is credited once.  \<open>P2PBook\<close>: the best offer comes first.
  \<open>RefreshTokens\<close>: one usable token per login, and reuse ends the family.  Theorems about behaviour the code does not intend
  (a refund after a send, a lost debit, a reward paid twice) are stated as what the code does.

  \<^bold>\<open>Locales.\<close>  \<open>invariant_of\<close> (\<open>Prelude\<close>) is a property that every step keeps; it is interpreted on the
  token requests (\<open>RefreshTokens\<close>), the reward events (\<open>RewardSystem\<close>), the balance moves
  (\<open>CustodialLedger\<close>) and the deposit scans (\<open>DepositSystem\<close>).
  \<open>idempotent_writer\<close> (\<open>ExecStore\<close>) is the contract between the store and its clients, a write that is keyed by
  an identity; it is interpreted on \<open>append_event\<close>, \<open>record_fill\<close> and \<open>ensure_legacy_parent\<close>.

  \<^bold>\<open>Bounds and fuel.\<close>  A P2P operation ends within four sections and \<open>p2p_run\<close> has that fuel.  A
  reservation makes at most five attempts of two sections and one last section, eleven in all.
  The record-fill loop of the store makes three attempts, as in the code.  An undisturbed pass over
  a chain is a partial function; \<open>scan_returns\<close> shows that it is defined everywhere.

  \<^bold>\<open>Hypotheses.\<close>  \<open>sound_hasher\<close> says that a digest has 32 bytes and that the packed encoding is
  injective with its fixed length; collisions are excluded only on the strings actually hashed.
  \<open>admissible\<close> schedules of withdrawals exclude what \<open>WithdrawSchedules\<close> shows to go wrong: deaths and
  database failures between a claim and its debit or between a credit and the deletion of its row, and
  failures of the Telegram handler after the broadcast.  The
  theorems on scanned ranges assume \<open>wf_history\<close> (transfer logs have their documented shape and are
  named by transaction and index) and \<open>node_answers\<close> (\<open>eth_getLogs\<close> fails or returns exactly the
  matching logs).  The store theorems assume that identifiers generated for new rows are fresh.  Every hypothesis is
  met by a concrete witness.

  \<^bold>\<open>The database.\<close>  Sessions run under PostgreSQL's default isolation: the reads and the commit of a
  session are apart where the code has no guard or lock (balance moves, token rotation), and one step
  where a guarded update or a unique index decides.  An unordered query returns rows in an order that
  is a parameter (\<open>native_offers\<close>) or may change at any time (\<open>balance_step\<close>).  Numeric columns
  round and refuse (\<open>numeric_column\<close>); lengths of text columns are not modelled.  A commit whose reply is
  lost is an event of the deposit scans and of \<open>credit_custodial\<close>, but not of the withdrawals, the
  interleaved reward credits and the trades.  The reconciler of swaps asks its provider without a
  session, so every commit of another session falls between two of its transactions, which are atomic.

  \<^bold>\<open>Not modelled.\<close>  The swap engine, quoting and provider clients, bridges and the other HTTP
  services are calls of third-party services; wallet creation, key storage and signing are
  cryptographic glue; Telegram handlers other than the withdrawal, the web application and the
  remaining routes format and forward; the contents of the token table are data, so the theorems
  hold for any; migrations and schema set-up in \<open>database/\<close> beyond the
  idempotency index are DDL.  Of the modelled files, the listing queries, log messages and the
  scheduling loops (\<open>start\<close>, \<open>stop\<close>, \<open>_loop\<close>) are left out.
\<close>

end
